(* ===== verification/Prelude.thy ===== *)
theory Prelude
  imports Main "HOL-Library.Word" "HOL-Library.Monad_Syntax"
begin

text \<open>
  Shared vocabulary of the development: the widths of the C integer types, the effect type in which
  every function that makes system calls is written, and the list and word lemmas that several
  components use.

  The effect type \<open>('s, 'a) cprog\<close> is a state transformer whose result says how the
  function ended. \<open>Ret a\<close> is a C return, \<open>Exit n\<close> is a process that called \<open>exit(n)\<close>
  (every fatal \<open>err_xxx\<close> function does), \<open>Abort\<close> is \<open>abort()\<close>. A loop that never ends has
  no result at all, which is the \<open>None\<close> of the outer option: a theorem that a function returns says
  that the value is \<open>Some\<close>.
\<close>

type_synonym byte = "8 word"
type_synonym u16 = "16 word"
type_synonym u32 = "32 word"

named_theorems cprog_simps \<open>unfolding rules of the effect combinators\<close>
named_theorems wp_simps \<open>total-correctness rules of the effect combinators and of the operations\<close>
named_theorems byte_simps \<open>conversions between bytes, words and numbers\<close>

section \<open>Effects\<close>

datatype 'a outcome = Ret 'a | Exit int | Abort

type_synonym ('s, 'a) cprog = "'s \<Rightarrow> ('a outcome \<times> 's) option"

definition creturn :: "'a \<Rightarrow> ('s, 'a) cprog" where
  "creturn a s = Some (Ret a, s)"

definition cexit :: "int \<Rightarrow> ('s, 'a) cprog" where
  "cexit n s = Some (Exit n, s)"

definition cabort :: "('s, 'a) cprog" where
  "cabort s = Some (Abort, s)"

definition cbind :: "('s, 'a) cprog \<Rightarrow> ('a \<Rightarrow> ('s, 'b) cprog) \<Rightarrow> ('s, 'b) cprog" where
  "cbind m f s = Option.bind (m s) (\<lambda>(r, t).
     case r of Ret a \<Rightarrow> f a t | Exit n \<Rightarrow> Some (Exit n, t) | Abort \<Rightarrow> Some (Abort, t))"

definition cseq :: "('s, 'a) cprog \<Rightarrow> ('s, 'b) cprog \<Rightarrow> ('s, 'b) cprog" where
  "cseq m k = cbind m (\<lambda>_. k)"

definition cget :: "('s \<Rightarrow> 'a) \<Rightarrow> ('s, 'a) cprog" where
  "cget f s = Some (Ret (f s), s)"

definition cupd :: "('s \<Rightarrow> 's) \<Rightarrow> ('s, unit) cprog" where
  "cupd f s = Some (Ret (), f s)"

lemma creturn_run [simp, cprog_simps]: "creturn a s = Some (Ret a, s)"
  by (simp add: creturn_def)

lemma cexit_run [simp, cprog_simps]: "cexit n s = Some (Exit n, s)"
  by (simp add: cexit_def)

lemma cabort_run [simp, cprog_simps]: "cabort s = Some (Abort, s)"
  by (simp add: cabort_def)

lemma cget_run [simp, cprog_simps]: "cget f s = Some (Ret (f s), s)"
  by (simp add: cget_def)

lemma cupd_run [simp, cprog_simps]: "cupd f s = Some (Ret (), f s)"
  by (simp add: cupd_def)

lemma cbind_Ret [simp, cprog_simps]: "m s = Some (Ret a, t) \<Longrightarrow> cbind m f s = f a t"
  by (simp add: cbind_def)

lemma cbind_Exit [simp, cprog_simps]: "m s = Some (Exit n, t) \<Longrightarrow> cbind m f s = Some (Exit n, t)"
  by (simp add: cbind_def)

lemma cbind_Abort [simp, cprog_simps]: "m s = Some (Abort, t) \<Longrightarrow> cbind m f s = Some (Abort, t)"
  by (simp add: cbind_def)

lemma cbind_None [simp, cprog_simps]: "m s = None \<Longrightarrow> cbind m f s = None"
  by (simp add: cbind_def)

lemma cseq_run [simp, cprog_simps]: "cseq m k s = cbind m (\<lambda>_. k) s"
  by (simp add: cseq_def)

lemma cbind_assoc: "cbind (cbind m f) g = cbind m (\<lambda>x. cbind (f x) g)"
  by (rule ext) (simp add: cbind_def bind_split split: option.split outcome.split prod.split)

lemma cbind_creturn_right: "cbind m creturn = m"
proof (rule ext)
  fix s
  show "cbind m creturn s = m s"
    by (cases "m s"; cases "fst (the (m s))") (auto simp: cbind_def split: prod.split outcome.split)
qed

text \<open>Sequencing is monotone, so recursive programs may use it around their recursive calls.\<close>

definition resume :: "('a \<Rightarrow> ('s, 'b) cprog) \<Rightarrow> 'a outcome \<times> 's \<Rightarrow> ('b outcome \<times> 's) option" where
  "resume f = (\<lambda>(r, t). case r of Ret a \<Rightarrow> f a t | Exit n \<Rightarrow> Some (Exit n, t) | Abort \<Rightarrow> Some (Abort, t))"

lemma cbind_resume: "cbind m f s = Option.bind (m s) (resume f)"
  by (simp add: cbind_def resume_def)

lemma resume_mono:
  assumes "\<And>y s. mono_option (\<lambda>f. C y f s)"
  shows "mono_option (\<lambda>f. resume (\<lambda>y. C y f) p)"
proof (cases p)
  case (Pair r t)
  then show ?thesis by (cases r) (simp_all add: resume_def assms option.const_mono)
qed

lemma cbind_mono [partial_function_mono]:
  assumes "\<And>s. mono_option (\<lambda>f. B f s)" and "\<And>y s. mono_option (\<lambda>f. C y f s)"
  shows "mono_option (\<lambda>f. cbind (B f) (\<lambda>y. C y f) s)"
  unfolding cbind_resume by (intro bind_mono assms(1) resume_mono assms(2))

lemma cseq_mono [partial_function_mono]:
  assumes "\<And>s. mono_option (\<lambda>f. B f s)" and "\<And>s. mono_option (\<lambda>f. C f s)"
  shows "mono_option (\<lambda>f. cseq (B f) (C f) s)"
  unfolding cseq_def using assms by (rule cbind_mono)

lemma if_applied_mono [partial_function_mono]:
  assumes "\<And>s. mono_option (\<lambda>f. B f s)" and "\<And>s. mono_option (\<lambda>f. C f s)"
  shows "mono_option (\<lambda>f. (if b then B f else C f) s)"
  using assms by (cases b) simp_all

lemma case_option_applied_mono [partial_function_mono]:
  assumes "\<And>s. mono_option (\<lambda>f. B f s)" and "\<And>y s. mono_option (\<lambda>f. C y f s)"
  shows "mono_option (\<lambda>f. (case x of None \<Rightarrow> B f | Some y \<Rightarrow> C y f) s)"
  using assms by (cases x) simp_all

lemma case_prod_applied_mono [partial_function_mono]:
  assumes "\<And>a b s. mono_option (\<lambda>f. C a b f s)"
  shows "mono_option (\<lambda>f. (case x of (a, b) \<Rightarrow> C a b f) s)"
  using assms by (cases x) simp

lemma let_applied_mono [partial_function_mono]:
  assumes "\<And>s. mono_option (\<lambda>f. C v f s)"
  shows "mono_option (\<lambda>f. (let y = v in C y f) s)"
  using assms by simp

section \<open>Inversion and frames\<close>

lemma cbindE [consumes 1, case_names Ret Exit Abort]:
  assumes "cbind m f s = Some p"
  obtains (Ret) a t where "m s = Some (Ret a, t)" and "f a t = Some p"
    | (Exit) n t where "m s = Some (Exit n, t)" and "p = (Exit n, t)"
    | (Abort) t where "m s = Some (Abort, t)" and "p = (Abort, t)"
proof (cases "m s")
  case (Some q)
  show thesis
  proof (cases q)
    case (Pair r t)
    with Some assms that show thesis by (cases r) auto
  qed
qed (use assms in simp)

text \<open>\<open>preserves g m\<close>: running \<open>m\<close> leaves the part \<open>g\<close> of the state alone.\<close>

definition preserves :: "('s \<Rightarrow> 'x) \<Rightarrow> ('s, 'a) cprog \<Rightarrow> bool" where
  "preserves g m \<longleftrightarrow> (\<forall>s p. m s = Some p \<longrightarrow> g (snd p) = g s)"

lemma preservesI: "(\<And>s p. m s = Some p \<Longrightarrow> g (snd p) = g s) \<Longrightarrow> preserves g m"
  by (simp add: preserves_def)

lemma preservesD: "preserves g m \<Longrightarrow> m s = Some p \<Longrightarrow> g (snd p) = g s"
  unfolding preserves_def by blast

lemma preserves_bind [intro]:
  assumes "preserves g m" and "\<And>a. preserves g (f a)"
  shows "preserves g (cbind m f)"
proof (rule preservesI)
  fix s p assume "cbind m f s = Some p"
  then show "g (snd p) = g s"
    using preservesD[OF assms(1)] preservesD[OF assms(2)] by (cases rule: cbindE) fastforce+
qed

lemma preserves_basic [simp, intro]:
  "preserves g (creturn a)" "preserves g (cexit n)" "preserves g cabort" "preserves g (cget h)"
  by (simp_all add: preserves_def)

lemma preserves_cupd: "(\<And>s. g (h s) = g s) \<Longrightarrow> preserves g (cupd h)"
  by (simp add: preserves_def)

lemma preserves_case_prod [intro]: "(\<And>a b. preserves g (f a b)) \<Longrightarrow> preserves g (case p of (a, b) \<Rightarrow> f a b)"
  by (cases p) simp

lemma preserves_case_option [intro]:
  "preserves g k \<Longrightarrow> (\<And>a. preserves g (f a)) \<Longrightarrow> preserves g (case x of None \<Rightarrow> k | Some a \<Rightarrow> f a)"
  by (cases x) simp_all

lemma preserves_if [intro]: "preserves g m \<Longrightarrow> preserves g k \<Longrightarrow> preserves g (if b then m else k)"
  by simp

section \<open>Total correctness\<close>

text \<open>\<open>wp m Q s\<close>: run from \<open>s\<close>, the program \<open>m\<close> ends and its outcome and final state satisfy \<open>Q\<close>.\<close>

definition wp :: "('s, 'a) cprog \<Rightarrow> ('a outcome \<Rightarrow> 's \<Rightarrow> bool) \<Rightarrow> 's \<Rightarrow> bool" where
  "wp m Q s \<longleftrightarrow> (\<exists>r t. m s = Some (r, t) \<and> Q r t)"

lemma wpI: "m s = Some (r, t) \<Longrightarrow> Q r t \<Longrightarrow> wp m Q s"
  by (auto simp: wp_def)

lemma wpD: "wp m Q s \<Longrightarrow> m s = Some (r, t) \<Longrightarrow> Q r t"
  by (auto simp: wp_def)

lemma wp_ends: "wp m Q s \<Longrightarrow> m s \<noteq> None"
  by (auto simp: wp_def)

lemma wp_mono: "wp m Q s \<Longrightarrow> (\<And>r t. Q r t \<Longrightarrow> Q' r t) \<Longrightarrow> wp m Q' s"
  by (auto simp: wp_def)

lemma wp_bind [wp_simps]:
  "wp (cbind m f) Q s \<longleftrightarrow>
   wp m (\<lambda>r t. case r of Ret a \<Rightarrow> wp (f a) Q t | Exit n \<Rightarrow> Q (Exit n) t | Abort \<Rightarrow> Q Abort t) s"
proof (cases "m s")
  case (Some p)
  then show ?thesis by (cases p; cases "fst p") (auto simp: wp_def)
qed (simp add: wp_def)

lemma wp_bindI:
  assumes "wp m P s" and "\<And>a t. P (Ret a) t \<Longrightarrow> wp (f a) Q t"
    and "\<And>n t. P (Exit n) t \<Longrightarrow> Q (Exit n) t" and "\<And>t. P Abort t \<Longrightarrow> Q Abort t"
  shows "wp (cbind m f) Q s"
  unfolding wp_bind by (rule wp_mono[OF assms(1)]) (auto intro: assms(2-4) split: outcome.split)

lemma wp_basic [wp_simps]:
  "wp (creturn a) Q s \<longleftrightarrow> Q (Ret a) s" "wp (cexit n) Q s \<longleftrightarrow> Q (Exit n) s" "wp cabort Q s \<longleftrightarrow> Q Abort s"
  by (simp_all add: wp_def)

lemma wp_cget [wp_simps]: "wp (cget g) Q s \<longleftrightarrow> Q (Ret (g s)) s"
  by (simp add: wp_def)

lemma wp_cupd [wp_simps]: "wp (cupd h) Q s \<longleftrightarrow> Q (Ret ()) (h s)"
  by (simp add: wp_def)

lemma wp_seq [wp_simps]: "wp (cseq m k) Q s \<longleftrightarrow> wp (cbind m (\<lambda>_. k)) Q s"
  by (simp add: wp_def)

lemma wp_if [wp_simps]: "wp (if b then m else k) Q s \<longleftrightarrow> (if b then wp m Q s else wp k Q s)"
  by simp

lemma wp_ifI: "(b \<Longrightarrow> wp m Q s) \<Longrightarrow> (\<not> b \<Longrightarrow> wp k Q s) \<Longrightarrow> wp (if b then m else k) Q s"
  by simp

lemma wp_let [wp_simps]: "wp (let x = v in m x) Q s \<longleftrightarrow> wp (m v) Q s"
  by simp

text \<open>\<open>ret_or_exit Q\<close>: a return satisfies \<open>Q\<close>, an exit has status 1.\<close>

abbreviation ret_or_exit :: "('a \<Rightarrow> 's \<Rightarrow> bool) \<Rightarrow> 'a outcome \<Rightarrow> 's \<Rightarrow> bool" where
  "ret_or_exit Q r t \<equiv> (case r of Ret a \<Rightarrow> Q a t | Exit n \<Rightarrow> n = 1 | Abort \<Rightarrow> False)"

lemma wp_bind_ret:
  assumes "wp m (ret_or_exit P) s" and "\<And>a t. P a t \<Longrightarrow> wp (f a) (ret_or_exit Q) t"
  shows "wp (cbind m f) (ret_or_exit Q) s"
  by (rule wp_bindI[OF assms(1)]) (use assms(2) in auto)

text \<open>\<open>keeps J m\<close>: from a state with the invariant, \<open>m\<close> ends, and returns with the invariant or exits with
  status 1.\<close>

definition keeps :: "('s \<Rightarrow> bool) \<Rightarrow> ('s, 'a) cprog \<Rightarrow> bool" where
  "keeps J m \<longleftrightarrow> (\<forall>s. J s \<longrightarrow> wp m (\<lambda>r t. case r of Ret _ \<Rightarrow> J t | Exit n \<Rightarrow> n = 1 | Abort \<Rightarrow> False) s)"

lemma keepsI:
  "(\<And>s. J s \<Longrightarrow> wp m (\<lambda>r t. case r of Ret _ \<Rightarrow> J t | Exit n \<Rightarrow> n = 1 | Abort \<Rightarrow> False) s) \<Longrightarrow> keeps J m"
  by (simp add: keeps_def)

lemma keepsD:
  "keeps J m \<Longrightarrow> J s \<Longrightarrow> wp m (\<lambda>r t. case r of Ret _ \<Rightarrow> J t | Exit n \<Rightarrow> n = 1 | Abort \<Rightarrow> False) s"
  by (simp add: keeps_def)

lemma keeps_bind [intro]: "keeps J m \<Longrightarrow> (\<And>a. keeps J (f a)) \<Longrightarrow> keeps J (cbind m f)"
  by (rule keepsI, rule wp_bindI, erule (1) keepsD) (auto dest: keepsD)

lemma keeps_return [simp, intro]: "keeps J (creturn a)" "keeps J (cget g)"
  by (simp_all add: keeps_def wp_basic wp_cget)

lemma keeps_upd [intro]: "(\<And>s. J s \<Longrightarrow> J (h s)) \<Longrightarrow> keeps J (cupd h)"
  by (simp add: keeps_def wp_cupd)

lemma keeps_if [intro]: "keeps J m \<Longrightarrow> keeps J k \<Longrightarrow> keeps J (if b then m else k)"
  by simp

lemma keeps_let [intro]: "keeps J (m v) \<Longrightarrow> keeps J (let x = v in m x)"
  by simp

lemma keeps_case_option [intro]:
  "keeps J k \<Longrightarrow> (\<And>a. keeps J (f a)) \<Longrightarrow> keeps J (case x of None \<Rightarrow> k | Some a \<Rightarrow> f a)"
  by (cases x) simp_all

lemma keeps_case_prod [intro]: "(\<And>a b. keeps J (f a b)) \<Longrightarrow> keeps J (case p of (a, b) \<Rightarrow> f a b)"
  by (cases p) simp

section \<open>Lists\<close>

text \<open>Changing an entry, seen through a filter.\<close>

lemma filter_update:
  assumes "i < length cs"
  shows "filter P (cs[i := c]) = filter P (take i cs) @ (if P c then [c] else []) @ filter P (drop (Suc i) cs)"
  using assms by (simp add: upd_conv_take_nth_drop)

lemma filter_entry:
  assumes "i < length cs"
  shows "filter P cs = filter P (take i cs) @ (if P (cs ! i) then [cs ! i] else []) @ filter P (drop (Suc i) cs)"
  using filter_update[OF assms, of P "cs ! i"] assms by simp

end
