(* ===== verification/Posix.thy ===== *)
theory Posix
  imports Prelude
begin

text \<open>
  The operating system and the C library below the program. They are not part of the repository, so
  they are a parameter: an environment \<open>os\<close> maps the calls made so far (with their results) and the
  next call to the result of that call. Any behaviour of a kernel, of peers on the network and of
  signal delivery is such a function of the history, and nothing is assumed of it here. The
  predicates at the end (\<open>read_ok\<close>, \<open>write_ok\<close>, ...) state documented behaviour and appear as named
  hypotheses of the theorems that need them.

  The state of a process is \<open>errno\<close>, the global \<open>daemon_proc\<close> of lib/error.c and the history of
  its calls; a component with static variables extends the record.
\<close>

section \<open>Socket address structures\<close>

text \<open>
  Ports and addresses are kept as they lie in memory: \<open>sin_port\<close> is the 16-bit field as stored
  (network byte order) and an address is its byte array.
\<close>

datatype sockaddr =
    Sockaddr_in (sin_port: u16) (sin_addr: "byte list")
  | Sockaddr_in6 (sin6_port: u16) (sin6_addr: "byte list")
  | Sockaddr_un (sun_path: string)
  | Sockaddr_other (other_family: int) (other_data: "byte list")

abbreviation (input) AF_UNSPEC :: int where "AF_UNSPEC \<equiv> 0"
abbreviation (input) AF_UNIX :: int where "AF_UNIX \<equiv> 1"
abbreviation (input) AF_INET :: int where "AF_INET \<equiv> 2"
abbreviation (input) AF_INET6 :: int where "AF_INET6 \<equiv> 10"

fun sa_family :: "sockaddr \<Rightarrow> int" where
  "sa_family (Sockaddr_in p a) = AF_INET"
| "sa_family (Sockaddr_in6 p a) = AF_INET6"
| "sa_family (Sockaddr_un p) = AF_UNIX"
| "sa_family (Sockaddr_other f d) = f"

text \<open>A well-formed address: the arrays have the size of the C fields and the fallback constructor
  is used for families without one of their own.\<close>

fun sockaddr_wf :: "sockaddr \<Rightarrow> bool" where
  "sockaddr_wf (Sockaddr_in p a) = (length a = 4)"
| "sockaddr_wf (Sockaddr_in6 p a) = (length a = 16)"
| "sockaddr_wf (Sockaddr_un p) = (CHR 0x00 \<notin> set p)"
| "sockaddr_wf (Sockaddr_other f d) = (f \<notin> {AF_UNIX, AF_INET, AF_INET6})"

record addrinfo =
  ai_flags :: int
  ai_family :: int
  ai_socktype :: int
  ai_protocol :: int
  ai_addrlen :: nat
  ai_canonname :: "string option"
  ai_addr :: sockaddr

section \<open>Calls and their results\<close>

datatype cval =
    V_int int
  | V_str string
  | V_bytes "byte list"
  | V_addr sockaddr
  | V_ints "int list"
  | V_time int int
  | V_infos "addrinfo list"

datatype ccall =
    C_read int nat
  | C_write int "byte list"
  | C_close int
  | C_socket int int int
  | C_connect int sockaddr nat
  | C_bind int sockaddr nat
  | C_listen int int
  | C_accept int
  | C_select int "int list" "int list" "int list" "(int \<times> int) option"
  | C_fcntl int int int
  | C_setsockopt int int int "byte list"
  | C_getsockopt int int int
  | C_getsockname int
  | C_recvfrom int nat int
  | C_sendto int "byte list" int sockaddr nat
  | C_getaddrinfo "string option" "string option" addrinfo
  | C_gettimeofday
  | C_fork
  | C_strerror int
  | C_syslog int string
  | C_fputs string int
  | C_fflush int
  | C_lib string "cval list"

record sysret =
  rv :: int
  err :: "int option"
  outs :: "cval list"

type_synonym hist = "(ccall \<times> sysret) list"
type_synonym os = "hist \<Rightarrow> ccall \<Rightarrow> sysret"

record proc =
  errno :: int
  daemon_proc :: int
  calls :: hist

definition call :: "os \<Rightarrow> ccall \<Rightarrow> ('z proc_scheme, sysret) cprog" where
  "call os c s =
     (let r = os (calls s) c
      in Some (Ret r, s\<lparr>errno := (case err r of None \<Rightarrow> errno s | Some e \<Rightarrow> e),
                        calls := calls s @ [(c, r)]\<rparr>))"

definition set_errno :: "int \<Rightarrow> ('z proc_scheme, unit) cprog" where
  "set_errno e = cupd (\<lambda>s. s\<lparr>errno := e\<rparr>)"

text \<open>The state after a call, for statements about what a function leaves behind.\<close>

definition after :: "os \<Rightarrow> ccall \<Rightarrow> 'z proc_scheme \<Rightarrow> 'z proc_scheme" where
  "after os c s = s\<lparr>errno := (case err (os (calls s) c) of None \<Rightarrow> errno s | Some e \<Rightarrow> e),
                    calls := calls s @ [(c, os (calls s) c)]\<rparr>"

lemma call_run [simp, cprog_simps]: "call os c s = Some (Ret (os (calls s) c), after os c s)"
  by (simp add: call_def after_def Let_def)

lemma set_errno_run [simp, cprog_simps]: "set_errno e s = Some (Ret (), s\<lparr>errno := e\<rparr>)"
  by (simp add: set_errno_def)

lemma calls_after [simp]: "calls (after os c s) = calls s @ [(c, os (calls s) c)]"
  by (simp add: after_def)

lemma daemon_proc_after [simp]: "daemon_proc (after os c s) = daemon_proc s"
  by (simp add: after_def)

lemma more_after [simp]: "proc.more (after os c s) = proc.more s"
  by (simp add: after_def)

lemma errno_after: "errno (after os c s) = (case err (os (calls s) c) of None \<Rightarrow> errno s | Some e \<Rightarrow> e)"
  by (simp add: after_def)

section \<open>Readers of a result\<close>

definition out_bytes :: "sysret \<Rightarrow> byte list" where
  "out_bytes r = (case outs r of V_bytes bs # _ \<Rightarrow> bs | _ \<Rightarrow> [])"

definition out_str :: "sysret \<Rightarrow> string" where
  "out_str r = (case outs r of V_str x # _ \<Rightarrow> x | _ \<Rightarrow> [])"

definition out_addr :: "sysret \<Rightarrow> sockaddr option" where
  "out_addr r = (case outs r of V_addr a # _ \<Rightarrow> Some a | _ \<Rightarrow> None)"

definition out_time :: "sysret \<Rightarrow> int \<times> int" where
  "out_time r = (case outs r of V_time a b # _ \<Rightarrow> (a, b) | _ \<Rightarrow> (0, 0))"

definition out_infos :: "sysret \<Rightarrow> addrinfo list" where
  "out_infos r = (case outs r of V_infos a # _ \<Rightarrow> a | _ \<Rightarrow> [])"

definition out_int :: "sysret \<Rightarrow> int" where
  "out_int r = (case outs r of V_int a # _ \<Rightarrow> a | _ \<Rightarrow> 0)"

definition out_ints :: "nat \<Rightarrow> sysret \<Rightarrow> int list" where
  "out_ints k r = (if k < length (outs r) then (case outs r ! k of V_ints a \<Rightarrow> a | _ \<Rightarrow> []) else [])"

section \<open>Numbers of the Linux headers\<close>

abbreviation (input) EINTR :: int where "EINTR \<equiv> 4"
abbreviation (input) ENXIO :: int where "ENXIO \<equiv> 6"
abbreviation (input) EAGAIN :: int where "EAGAIN \<equiv> 11"
abbreviation (input) EINVAL :: int where "EINVAL \<equiv> 22"
abbreviation (input) ENOSPC :: int where "ENOSPC \<equiv> 28"
abbreviation (input) EPROTO :: int where "EPROTO \<equiv> 71"
abbreviation (input) EAFNOSUPPORT :: int where "EAFNOSUPPORT \<equiv> 97"
abbreviation (input) ECONNABORTED :: int where "ECONNABORTED \<equiv> 103"
abbreviation (input) ETIMEDOUT :: int where "ETIMEDOUT \<equiv> 110"
abbreviation (input) EINPROGRESS :: int where "EINPROGRESS \<equiv> 115"

abbreviation (input) SOCK_STREAM :: int where "SOCK_STREAM \<equiv> 1"
abbreviation (input) SOCK_DGRAM :: int where "SOCK_DGRAM \<equiv> 2"
abbreviation (input) IPPROTO_IP :: int where "IPPROTO_IP \<equiv> 0"
abbreviation (input) IPPROTO_IPV6 :: int where "IPPROTO_IPV6 \<equiv> 41"
abbreviation (input) SOL_SOCKET :: int where "SOL_SOCKET \<equiv> 1"
abbreviation (input) SO_REUSEADDR :: int where "SO_REUSEADDR \<equiv> 2"
abbreviation (input) SO_ERROR :: int where "SO_ERROR \<equiv> 4"
abbreviation (input) F_GETFL :: int where "F_GETFL \<equiv> 3"
abbreviation (input) F_SETFL :: int where "F_SETFL \<equiv> 4"
abbreviation (input) O_NONBLOCK :: int where "O_NONBLOCK \<equiv> 2048"
abbreviation (input) LOG_ERR :: int where "LOG_ERR \<equiv> 3"
abbreviation (input) LOG_INFO :: int where "LOG_INFO \<equiv> 6"
abbreviation (input) STDOUT :: int where "STDOUT \<equiv> 1"
abbreviation (input) STDERR :: int where "STDERR \<equiv> 2"

text \<open>Constants of lib/unp.h.\<close>

definition MAXLINE :: nat where "MAXLINE = 4096"
definition LISTENQ :: int where "LISTENQ = 1024"

section \<open>Documented behaviour of calls\<close>

text \<open>\<open>read(2)\<close>: at most the requested number of bytes, as many as the return value says, and an
  \<open>errno\<close> with every failure.\<close>

definition read_ok :: "os \<Rightarrow> bool" where
  "read_ok os \<longleftrightarrow> (\<forall>h fd n. let r = os h (C_read fd n) in
     - 1 \<le> rv r \<and> rv r \<le> int n \<and> (0 \<le> rv r \<longrightarrow> length (out_bytes r) = nat (rv r)) \<and>
     (rv r < 0 \<longrightarrow> err r \<noteq> None))"

text \<open>\<open>write(2)\<close>: at most the given bytes are accepted.\<close>

definition write_ok :: "os \<Rightarrow> bool" where
  "write_ok os \<longleftrightarrow> (\<forall>h fd bs. let r = os h (C_write fd bs) in
     - 1 \<le> rv r \<and> rv r \<le> int (length bs) \<and> (rv r < 0 \<longrightarrow> err r \<noteq> None))"

lemma read_okD:
  assumes "read_ok os"
  shows "- 1 \<le> rv (os h (C_read fd n))" and "rv (os h (C_read fd n)) \<le> int n"
    and "0 \<le> rv (os h (C_read fd n)) \<Longrightarrow> length (out_bytes (os h (C_read fd n))) = nat (rv (os h (C_read fd n)))"
    and "rv (os h (C_read fd n)) < 0 \<Longrightarrow> err (os h (C_read fd n)) \<noteq> None"
  using assms by (auto simp: read_ok_def Let_def)

lemma write_okD:
  assumes "write_ok os"
  shows "- 1 \<le> rv (os h (C_write fd bs))" and "rv (os h (C_write fd bs)) \<le> int (length bs)"
    and "rv (os h (C_write fd bs)) < 0 \<Longrightarrow> err (os h (C_write fd bs)) \<noteq> None"
  using assms by (auto simp: write_ok_def Let_def)

text \<open>The address of the sender and its length, as \<open>recvfrom\<close> stores them behind the data.\<close>

definition out_from :: "sysret \<Rightarrow> (sockaddr \<times> nat) option" where
  "out_from r = (case outs r of V_bytes _ # V_addr a # V_int n # _ \<Rightarrow> Some (a, nat n) | _ \<Rightarrow> None)"

section \<open>Datagrams of a history\<close>

text \<open>What the history says was received and echoed: the data and the peer's address.\<close>

definition received_dgs :: "hist \<Rightarrow> (byte list \<times> sockaddr) list" where
  "received_dgs h = concat (map (\<lambda>(c, r). case c of
     C_recvfrom _ _ _ \<Rightarrow> if rv r < 0 then [] else [(out_bytes r, fst (the (out_from r)))] | _ \<Rightarrow> []) h)"

definition echoed_dgs :: "hist \<Rightarrow> (byte list \<times> sockaddr) list" where
  "echoed_dgs h = concat (map (\<lambda>(c, r). case c of
     C_sendto _ bs _ sa _ \<Rightarrow> if rv r \<noteq> int (length bs) then [] else [(bs, sa)] | _ \<Rightarrow> []) h)"

lemma received_dgs_append [simp]: "received_dgs (h @ k) = received_dgs h @ received_dgs k"
  by (simp add: received_dgs_def)

lemma echoed_dgs_append [simp]: "echoed_dgs (h @ k) = echoed_dgs h @ echoed_dgs k"
  by (simp add: echoed_dgs_def)

text \<open>\<open>recvfrom(2)\<close>: as many bytes as the result says, and the address of the sender.\<close>

definition recvfrom_ok :: "os \<Rightarrow> bool" where
  "recvfrom_ok os \<longleftrightarrow> (\<forall>h fd n fl. let r = os h (C_recvfrom fd n fl) in
     0 \<le> rv r \<longrightarrow> length (out_bytes r) = nat (rv r) \<and> out_from r \<noteq> None)"

section \<open>Scripted environments\<close>

text \<open>An environment that plays a list of results in order (and then fails every call with
  \<open>EINVAL\<close>); used to run the model on concrete inputs.\<close>

definition scripted :: "sysret list \<Rightarrow> os" where
  "scripted rs h c = (if length h < length rs then rs ! length h
                      else \<lparr>rv = - 1, err = Some EINVAL, outs = []\<rparr>)"

definition fresh_proc :: proc where
  "fresh_proc = \<lparr>errno = 0, daemon_proc = 0, calls = []\<rparr>"

definition ok :: "int \<Rightarrow> sysret" where
  "ok n = \<lparr>rv = n, err = None, outs = []\<rparr>"

definition ok_bytes :: "byte list \<Rightarrow> sysret" where
  "ok_bytes bs = \<lparr>rv = int (length bs), err = None, outs = [V_bytes bs]\<rparr>"

definition fails :: "int \<Rightarrow> sysret" where
  "fails e = \<lparr>rv = - 1, err = Some e, outs = []\<rparr>"

lemmas sysret_defs = ok_def ok_bytes_def fails_def out_bytes_def out_str_def out_addr_def out_time_def
  out_infos_def out_int_def out_ints_def

end
