(* ===== verification/Inet4.thy ===== *)
theory Inet4
  imports Posix
begin

text \<open>
  IPv4 addresses in text and binary form: \<open>inet_pton4\<close> of libfree/inet_pton.c, \<open>inet_ntop4\<close> of
  libfree/inet_ntop.c, libfree/inet_aton.c and the IPv4-only functions of libfree/inet_pton_ipv4.c and
  libfree/inet_ntop_ipv4.c. A C string is the list of its characters before the null byte. A function
  that fills a caller's buffer returns the text it copies; \<open>Inl e\<close> is a null result with \<open>errno = e\<close>.
\<close>

section \<open>C library: strchr and printf conversions\<close>

fun strchr :: "string \<Rightarrow> char \<Rightarrow> nat option" where
  "strchr [] c = None"
| "strchr (x # xs) c = (if x = c then Some 0 else map_option Suc (strchr xs c))"

lemma strchr_nth: "distinct str \<Longrightarrow> i < length str \<Longrightarrow> strchr str (str ! i) = Some i"
proof (induction str arbitrary: i)
  case (Cons x xs)
  then show ?case by (cases i) auto
qed simp

lemma strchr_Some: "strchr str c = Some i \<Longrightarrow> i < length str \<and> str ! i = c"
proof (induction str arbitrary: i)
  case (Cons x xs)
  then show ?case by (cases i) (auto split: if_splits)
qed simp

definition xdigits_l :: string where "xdigits_l = ''0123456789abcdef''"
definition xdigits_u :: string where "xdigits_u = ''0123456789ABCDEF''"
definition digits :: string where "digits = ''0123456789''"

text \<open>The conversions \<open>%u\<close> (base 10) and \<open>%x\<close> (base 16) of a non-negative number.\<close>

fun print_radix :: "nat \<Rightarrow> nat \<Rightarrow> string" where
  "print_radix b n = (if n < b \<or> b < 2 then [xdigits_l ! n]
                      else print_radix b (n div b) @ [xdigits_l ! (n mod b)])"

declare print_radix.simps [simp del]

text \<open>The conversion \<open>%d\<close> of a non-negative or negative number.\<close>

definition print_int :: "int \<Rightarrow> string" where
  "print_int i = (if i < 0 then CHR ''-'' # print_radix 10 (nat (- i)) else print_radix 10 (nat i))"

lemma print_radix_small: "n < b \<Longrightarrow> print_radix b n = [xdigits_l ! n]"
  by (subst print_radix.simps) simp

lemma print_radix_step:
  "b \<le> n \<Longrightarrow> 2 \<le> b \<Longrightarrow> print_radix b n = print_radix b (n div b) @ [xdigits_l ! (n mod b)]"
  by (subst print_radix.simps) simp

lemma print_radix_nonempty: "print_radix b n \<noteq> []"
  by (subst print_radix.simps) simp

lemma length_print_radix: "n < b ^ k \<Longrightarrow> 2 \<le> b \<Longrightarrow> 0 < k \<Longrightarrow> length (print_radix b n) \<le> k"
proof (induction k arbitrary: n)
  case (Suc k)
  show ?case
  proof (cases "n < b")
    case False
    with Suc.prems have "0 < k" by (cases k) auto
    moreover have "n div b < b ^ k"
      using Suc.prems by (simp add: less_mult_imp_div_less mult.commute)
    ultimately have "length (print_radix b (n div b)) \<le> k" using Suc.IH Suc.prems by simp
    then show ?thesis using False Suc.prems by (simp add: print_radix_step)
  qed (simp add: print_radix_small)
qed simp

lemma digits_lookup: "d < 10 \<Longrightarrow> strchr digits (xdigits_l ! d) = Some d"
proof -
  assume d: "d < 10"
  then have "xdigits_l ! d = digits ! d"
    using nth_append[of digits "''abcdef''" d] by (simp add: xdigits_l_def digits_def)
  then show ?thesis
    using d strchr_nth[of digits d] by (simp add: digits_def)
qed

lemma digits_dot [simp]: "strchr digits CHR ''.'' = None"
  by (simp add: digits_def)

section \<open>inet_pton4\<close>

text \<open>The loop over the source string. \<open>tmp\<close> is the array of four octets, \<open>tp\<close> the index of the octet
  under construction.\<close>

fun inet_pton4_loop :: "string \<Rightarrow> byte list \<Rightarrow> nat \<Rightarrow> bool \<Rightarrow> nat \<Rightarrow> byte list option" where
  "inet_pton4_loop [] tmp tp saw_digit octets = (if octets < 4 then None else Some tmp)"
| "inet_pton4_loop (ch # src) tmp tp saw_digit octets =
     (case strchr digits ch of
        Some d \<Rightarrow>
          let new = unat (tmp ! tp) * 10 + d in
          if new > 255 then None
          else let tmp' = tmp[tp := of_nat new] in
               if \<not> saw_digit
               then (if octets + 1 > 4 then None else inet_pton4_loop src tmp' tp True (octets + 1))
               else inet_pton4_loop src tmp' tp saw_digit octets
      | None \<Rightarrow>
          if ch = CHR ''.'' \<and> saw_digit
          then (if octets = 4 then None else inet_pton4_loop src (tmp[tp + 1 := 0]) (tp + 1) False octets)
          else None)"

definition inet_pton4 :: "string \<Rightarrow> byte list option" where
  "inet_pton4 src = inet_pton4_loop src [0, 0, 0, 0] 0 False 0"

section \<open>inet_ntop4\<close>

definition dotted :: "byte list \<Rightarrow> string" where
  "dotted src = print_radix 10 (unat (src ! 0)) @ ''.'' @ print_radix 10 (unat (src ! 1)) @ ''.'' @
                print_radix 10 (unat (src ! 2)) @ ''.'' @ print_radix 10 (unat (src ! 3))"

definition inet_ntop4 :: "byte list \<Rightarrow> nat \<Rightarrow> int + string" where
  "inet_ntop4 src sz = (let tmp = dotted src in
     if length tmp > sz then Inl ENOSPC else Inr tmp)"

section \<open>inet_aton\<close>

text \<open>\<open>acc\<close> and \<open>addr\<close> are \<open>u_long\<close>, 64 bits wide on the configured platform. The result is
  \<open>addr\<close> in host order; the C function stores \<open>htonl\<close> of its low 32 bits, that is the four octets
  most significant first. The loop runs over the string and its null byte.\<close>

type_synonym u_long = "64 word"

fun inet_aton_loop :: "string \<Rightarrow> nat \<Rightarrow> u_long \<Rightarrow> u_long \<Rightarrow> (nat \<times> u_long) option" where
  "inet_aton_loop [] dots acc addr =
     (if acc > 255 then None else Some (dots, or (push_bit 8 addr) acc))"
| "inet_aton_loop (cc # cp) dots acc addr =
     (case strchr digits cc of
        Some d \<Rightarrow> inet_aton_loop cp dots (acc * 10 + of_nat d) addr
      | None \<Rightarrow>
          if cc = CHR ''.''
          then if dots + 1 > 3 then None
               else if acc > 255 then None
               else inet_aton_loop cp (dots + 1) 0 (or (push_bit 8 addr) acc)
          else None)"

definition inet_aton :: "string \<Rightarrow> u_long option" where
  "inet_aton cp = (case inet_aton_loop cp 0 0 0 of
       None \<Rightarrow> None
     | Some (dots, addr) \<Rightarrow> Some (if dots < 3 then push_bit (8 * (3 - dots)) addr else addr))"

definition htonl_bytes :: "u_long \<Rightarrow> byte list" where
  "htonl_bytes a = [ucast (drop_bit 24 a), ucast (drop_bit 16 a), ucast (drop_bit 8 a), ucast a]"

section \<open>libfree/inet_pton_ipv4.c and libfree/inet_ntop_ipv4.c\<close>

text \<open>The return value of \<open>inet_pton\<close>: \<open>Inl e\<close> is -1 with \<open>errno = e\<close>, \<open>Inr None\<close> is 0 and
  \<open>Inr (Some b)\<close> is 1 with the address stored.\<close>

definition inet_pton_ipv4 :: "int \<Rightarrow> string \<Rightarrow> int + byte list option" where
  "inet_pton_ipv4 family strptr =
     (if family = AF_INET then Inr (map_option htonl_bytes (inet_aton strptr)) else Inl EAFNOSUPPORT)"

definition inet_ntop_ipv4 :: "int \<Rightarrow> byte list \<Rightarrow> nat \<Rightarrow> int + string" where
  "inet_ntop_ipv4 family p len =
     (if family = AF_INET
      then let temp = take 15 (dotted p) in if length temp \<ge> len then Inl ENOSPC else Inr temp
      else Inl EAFNOSUPPORT)"

section \<open>What inet_pton4 accepts\<close>

text \<open>Reference: split the string at its dots; it is an address when there are four parts, each a
  non-empty string of decimal digits with a value of at most 255.\<close>

fun split_dots :: "string \<Rightarrow> string list" where
  "split_dots [] = [[]]"
| "split_dots (c # cs) = (if c = CHR ''.'' then [] # split_dots cs
                          else (c # hd (split_dots cs)) # tl (split_dots cs))"

definition digit_of :: "char \<Rightarrow> nat" where
  "digit_of c = the (strchr digits c)"

definition all_digits :: "string \<Rightarrow> bool" where
  "all_digits p \<longleftrightarrow> (\<forall>c \<in> set p. strchr digits c \<noteq> None)"

fun dec_from :: "nat \<Rightarrow> string \<Rightarrow> nat" where
  "dec_from v [] = v"
| "dec_from v (c # cs) = dec_from (v * 10 + digit_of c) cs"

definition octet_ok :: "string \<Rightarrow> bool" where
  "octet_ok p \<longleftrightarrow> p \<noteq> [] \<and> all_digits p \<and> dec_from 0 p \<le> 255"

definition quad_ref :: "string \<Rightarrow> byte list option" where
  "quad_ref src = (let ps = split_dots src in
     if length ps = 4 \<and> list_all octet_ok ps then Some (map (\<lambda>p. of_nat (dec_from 0 p)) ps) else None)"

lemma split_dots_nonempty [simp]: "split_dots str \<noteq> []"
  by (cases str) auto

lemma dec_from_ge: "v \<le> dec_from v p"
proof (induction p arbitrary: v)
  case (Cons c cs)
  have "v \<le> v * 10 + digit_of c" by simp
  also have "\<dots> \<le> dec_from (v * 10 + digit_of c) cs" by (rule Cons.IH)
  finally show ?case by simp
qed simp

text \<open>The loop, started inside an octet with value \<open>v\<close>, does what the reference says about the rest.\<close>

definition quad_rest :: "byte list \<Rightarrow> nat \<Rightarrow> bool \<Rightarrow> string \<Rightarrow> byte list option" where
  "quad_rest tmp tp saw src =
     (let p = hd (split_dots src); ps = tl (split_dots src); v = unat (tmp ! tp) in
      if (saw \<or> p \<noteq> []) \<and> all_digits p \<and> dec_from v p \<le> 255 \<and> list_all octet_ok ps \<and> tp + length ps = 3
      then Some (take tp tmp @ of_nat (dec_from v p) # map (\<lambda>p. of_nat (dec_from 0 p)) ps) else None)"

definition pton4_inv :: "byte list \<Rightarrow> nat \<Rightarrow> bool \<Rightarrow> nat \<Rightarrow> bool" where
  "pton4_inv tmp tp saw octets \<longleftrightarrow>
     length tmp = 4 \<and> tp < 4 \<and> octets = (if saw then tp + 1 else tp) \<and> (\<not> saw \<longrightarrow> tmp ! tp = 0)"

lemma unat_byte_of_nat: "n \<le> 255 \<Longrightarrow> unat (of_nat n :: byte) = n"
  by (simp add: unat_of_nat)

lemma unat_byte_le: "unat (b :: byte) \<le> 255"
proof -
  have "unat b < 2 ^ LENGTH(8)" by (rule unsigned_less)
  then show ?thesis by simp
qed

lemma inet_pton4_loop_ref:
  "pton4_inv tmp tp saw octets \<Longrightarrow> inet_pton4_loop src tmp tp saw octets = quad_rest tmp tp saw src"
proof (induction src tmp tp saw octets rule: inet_pton4_loop.induct)
  case (1 tmp tp saw octets)
  then have "length tmp = 4" "tp < 4" by (simp_all add: pton4_inv_def)
  then show ?case
    using 1 id_take_nth_drop[of tp tmp] unat_byte_le[of "tmp ! tp"]
    by (cases "tp = 3") (auto simp: pton4_inv_def quad_rest_def all_digits_def Let_def)
next
  case (2 ch src tmp tp saw octets)
  have inv: "length tmp = 4" "tp < 4" "octets = (if saw then tp + 1 else tp)" "\<not> saw \<longrightarrow> tmp ! tp = 0"
    using 2(4) by (simp_all add: pton4_inv_def)
  show ?case
  proof (cases "strchr digits ch")
    case (Some d)
    then have ch: "ch \<noteq> CHR ''.''" by auto
    have dig: "digit_of ch = d" using Some by (simp add: digit_of_def)
    let ?new = "unat (tmp ! tp) * 10 + d"
    have rest: "quad_rest tmp tp saw (ch # src) =
        (if ?new > 255 then None else quad_rest (tmp[tp := of_nat ?new]) tp True src)"
    proof (cases "?new > 255")
      case True
      then have "255 < dec_from ?new (hd (split_dots src))"
        using dec_from_ge[of ?new] by (meson less_le_trans)
      then show ?thesis using True ch by (simp add: quad_rest_def Let_def dig)
    next
      case False
      then have "unat (of_nat ?new :: byte) = ?new" by (intro unat_byte_of_nat) simp
      then show ?thesis
        using False ch inv Some by (simp add: quad_rest_def Let_def dig all_digits_def)
    qed
    show ?thesis
    proof (cases "?new > 255")
      case False
      have "pton4_inv (tmp[tp := of_nat ?new]) tp True (tp + 1)" using inv by (simp add: pton4_inv_def)
      then show ?thesis
        using Some False inv rest 2(2)[OF Some refl False refl] 2(3)[OF Some refl False refl]
        by (cases saw) (simp_all add: Let_def)
    qed (use Some rest in simp)
  next
    case None
    show ?thesis
    proof (cases "ch = CHR ''.'' \<and> saw")
      case True
      have rest: "quad_rest tmp tp saw (ch # src) =
          (if tp = 3 then None else quad_rest (tmp[tp + 1 := 0]) (tp + 1) False src)"
      proof -
        obtain q qs where qs: "split_dots src = q # qs" by (cases "split_dots src") auto
        have t: "tp < 3 \<Longrightarrow> take (Suc tp) (tmp[Suc tp := 0]) = take tp tmp @ [tmp ! tp]"
          using inv by (simp add: take_Suc_conv_app_nth)
        have v: "unat (tmp ! tp) \<le> 255" by (rule unat_byte_le)
        show ?thesis
        proof (cases "tp = 3")
          case False
          then have "tp < 3" using inv by simp
          then show ?thesis
            using True inv v t by (simp add: quad_rest_def Let_def all_digits_def qs octet_ok_def conj_assoc)
        qed (use True inv in \<open>simp add: quad_rest_def Let_def qs\<close>)
      qed
      show ?thesis
      proof (cases "octets = 4")
        case False
        then have "pton4_inv (tmp[tp + 1 := 0]) (tp + 1) False octets"
          using inv True by (auto simp: pton4_inv_def)
        then show ?thesis using None True False inv rest 2(1)[OF None True False] by simp
      qed (use None True inv rest in simp)
    next
      case False
      then show ?thesis
        using None inv by (auto simp: quad_rest_def Let_def all_digits_def)
    qed
  qed
qed

text \<open>
  C36. \<open>inet_pton4\<close> accepts exactly the dotted quads: it returns the four octets when the string is
  four non-empty decimal numbers of at most 255 between three dots, and 0 for every other string. The
  array index never leaves the four octets.
\<close>

theorem inet_pton4_correct: "inet_pton4 src = quad_ref src"
proof -
  have "pton4_inv [0, 0, 0, 0] 0 False 0" by (simp add: pton4_inv_def)
  then have "inet_pton4 src = quad_rest [0, 0, 0, 0] 0 False src"
    unfolding inet_pton4_def by (rule inet_pton4_loop_ref)
  also have "\<dots> = quad_ref src"
    using hd_Cons_tl[OF split_dots_nonempty[of src]]
    by (cases "split_dots src") (auto simp: quad_rest_def quad_ref_def Let_def octet_ok_def)
  finally show ?thesis .
qed

section \<open>Round trips\<close>

lemma dec_from_append: "dec_from v (p @ q) = dec_from (dec_from v p) q"
  by (induction p arbitrary: v) auto

lemma digit_of_nth: "d < 10 \<Longrightarrow> digit_of (xdigits_l ! d) = d"
  by (simp add: digit_of_def digits_lookup)

lemma print_decimal: "all_digits (print_radix 10 n) \<and> dec_from 0 (print_radix 10 n) = n"
proof (induction n rule: less_induct)
  case (less n)
  show ?case
  proof (cases "n < 10")
    case True
    then show ?thesis by (simp add: print_radix_small all_digits_def digits_lookup digit_of_nth)
  next
    case False
    with less[of "n div 10"] show ?thesis
      by (auto simp: print_radix_step all_digits_def dec_from_append digits_lookup digit_of_nth)
  qed
qed

lemma octet_ok_print: "octet_ok (print_radix 10 (unat (b :: byte)))"
  using print_decimal[of "unat b"] unat_byte_le[of b] by (simp add: octet_ok_def print_radix_nonempty)

lemma split_dots_no_dot: "all_digits p \<Longrightarrow> split_dots p = [p]"
  by (induction p) (auto simp: all_digits_def)

lemma split_dots_append: "all_digits p \<Longrightarrow> split_dots (p @ CHR ''.'' # q) = p # split_dots q"
  by (induction p) (auto simp: all_digits_def)

lemma list_of_4: "length xs = 4 \<Longrightarrow> xs = [xs ! 0, xs ! 1, xs ! 2, xs ! 3]"
  by (rule nth_equalityI) (auto simp: less_Suc_eq numeral_eq_Suc)

lemma inet_pton4_dotted:
  assumes "length src = 4"
  shows "inet_pton4 (dotted src) = Some src"
proof -
  have d: "all_digits (print_radix 10 n)" for n using print_decimal by blast
  have v: "of_nat (dec_from 0 (print_radix 10 (unat b))) = b" for b :: byte
    using print_decimal[of "unat b"] by simp
  have "quad_ref (dotted src) = Some [src ! 0, src ! 1, src ! 2, src ! 3]"
    by (simp add: quad_ref_def dotted_def Let_def split_dots_append[OF d] split_dots_no_dot[OF d]
        octet_ok_print v)
  then show ?thesis
    using list_of_4[OF assms] by (simp add: inet_pton4_correct)
qed

lemma length_dotted: "length (dotted src) \<le> 15"
proof -
  have "length (print_radix 10 (unat (b :: byte))) \<le> 3" for b
    using unat_byte_le[of b] by (intro length_print_radix) auto
  from this[of "src ! 0"] this[of "src ! 1"] this[of "src ! 2"] this[of "src ! 3"]
  show ?thesis by (simp add: dotted_def)
qed

text \<open>
  IPv4 round trip: with a buffer of \<open>INET_ADDRSTRLEN\<close> bytes \<open>inet_ntop4\<close> succeeds on every
  address, the text and its null byte fit in the buffer and in the local array, and \<open>inet_pton4\<close> reads
  the same address back.
\<close>

theorem inet4_roundtrip:
  assumes "length src = 4"
  shows "\<exists>txt. inet_ntop4 src 16 = Inr txt \<and> length txt + 1 \<le> 16 \<and> inet_pton4 txt = Some src"
  using length_dotted[of src] inet_pton4_dotted[OF assms] by (auto simp: inet_ntop4_def Let_def)

theorem inet4_roundtrip_witness:
  "\<exists>txt. inet_ntop4 [192, 168, 0, 255] 16 = Inr txt \<and> length txt + 1 \<le> 16 \<and> inet_pton4 txt = Some [192, 168, 0, 255]"
  by (rule inet4_roundtrip) simp

text \<open>
  \<open>inet_ntop4\<close> can overflow the caller's buffer by one byte: when \<open>size\<close> equals the length of the
  text it reports success, although the text with its null byte needs \<open>size + 1\<close> bytes. The IPv4-only
  \<open>inet_ntop\<close> of libfree/inet_ntop_ipv4.c refuses the same call, and whatever it accepts fits.
\<close>

theorem inet_ntop4_overflow:
  "inet_ntop4 src (length (dotted src)) = Inr (dotted src) \<and>
   length (dotted src) + 1 > length (dotted src) \<and>
   inet_ntop_ipv4 AF_INET src (length (dotted src)) = Inl ENOSPC \<and>
   (\<forall>sz txt. inet_ntop_ipv4 AF_INET src sz = Inr txt \<longleftrightarrow> txt = dotted src \<and> length txt + 1 \<le> sz)"
  using length_dotted[of src] by (auto simp: inet_ntop4_def inet_ntop_ipv4_def Let_def)

section \<open>inet_aton agrees with inet_pton4\<close>

fun join_dots :: "string list \<Rightarrow> string" where
  "join_dots [] = []"
| "join_dots [p] = p"
| "join_dots (p # q # ps) = p @ CHR ''.'' # join_dots (q # ps)"

lemma join_split: "join_dots (split_dots str) = str"
proof (induction str)
  case (Cons c cs)
  obtain q qs where qs: "split_dots cs = q # qs" by (cases "split_dots cs") auto
  with Cons show ?case by (cases qs) auto
qed simp

lemma unat_u_long_of_nat: "n \<le> 255 \<Longrightarrow> unat (of_nat n :: u_long) = n"
  by (simp add: unat_of_nat)

lemma u_long_of_byte: "n \<le> 255 \<Longrightarrow> (of_nat n :: u_long) = ucast (of_nat n :: byte)"
  by (rule word_unat_eq_iff[THEN iffD2]) (simp add: unat_of_nat unsigned_ucast_eq take_bit_eq_mod)

lemma inet_aton_loop_digits:
  assumes "all_digits p" and "dec_from v p \<le> 255"
  shows "inet_aton_loop (p @ rest) dots (of_nat v) addr = inet_aton_loop rest dots (of_nat (dec_from v p)) addr"
  using assms
proof (induction p arbitrary: v)
  case (Cons c cs)
  from Cons.prems obtain d where d: "strchr digits c = Some d" by (auto simp: all_digits_def)
  have eq: "(of_nat v :: u_long) * 10 + of_nat d = of_nat (v * 10 + d)" by simp
  have "inet_aton_loop (cs @ rest) dots (of_nat (v * 10 + d)) addr =
      inet_aton_loop rest dots (of_nat (dec_from (v * 10 + d) cs)) addr"
    by (rule Cons.IH) (use Cons.prems d in \<open>auto simp: all_digits_def digit_of_def\<close>)
  then show ?case using d by (simp add: digit_of_def flip: eq)
qed simp

lemma inet_aton_loop_octet:
  assumes "octet_ok p"
  shows "inet_aton_loop (p @ rest) dots 0 addr = inet_aton_loop rest dots (ucast (of_nat (dec_from 0 p) :: byte)) addr"
  using inet_aton_loop_digits[of p 0 rest dots addr] assms by (simp add: octet_ok_def u_long_of_byte)

lemma ucast_byte_le: "\<not> (255 :: u_long) < ucast (b :: byte)"
proof -
  have "unat (ucast b :: u_long) \<le> 255"
    using unat_byte_le[of b] by (simp add: unsigned_ucast_eq take_bit_eq_mod)
  then show ?thesis by (simp add: word_less_nat_alt not_less)
qed

lemma htonl_bytes_octets:
  fixes a b c d :: byte
  defines "w \<equiv> or (or (or (push_bit 24 (ucast a :: u_long)) (push_bit 16 (ucast b))) (push_bit 8 (ucast c))) (ucast d)"
  shows "htonl_bytes w = [a, b, c, d]"
proof -
  have "ucast (drop_bit 24 w) = a" "ucast (drop_bit 16 w) = b" "ucast (drop_bit 8 w) = c" "ucast w = d"
    unfolding w_def by (rule bit_word_eqI, auto simp: bit_simps dest: bit_imp_le_length)+
  then show ?thesis by (simp add: htonl_bytes_def)
qed

text \<open>
  \<open>inet_aton\<close> and the IPv4-only \<open>inet_pton\<close> built on it agree with \<open>inet_pton4\<close>: every string that
  \<open>inet_pton4\<close> accepts they accept too, with the same four octets in network byte order.
\<close>

theorem inet_aton_agrees:
  assumes "inet_pton4 src = Some octets"
  shows "inet_pton_ipv4 AF_INET src = Inr (Some octets)"
proof -
  from assms have l: "length (split_dots src) = 4" and ok: "list_all octet_ok (split_dots src)"
    and oct: "octets = map (\<lambda>p. of_nat (dec_from 0 p)) (split_dots src)"
    by (auto simp: inet_pton4_correct quad_ref_def Let_def split: if_splits)
  then obtain p q r t where ps: "split_dots src = [p, q, r, t]"
    by (auto simp: numeral_eq_Suc length_Suc_conv)
  with ok have oks: "octet_ok p" "octet_ok q" "octet_ok r" "octet_ok t" by simp_all
  have "src = p @ CHR ''.'' # q @ CHR ''.'' # r @ CHR ''.'' # t @ []"
    using join_split[of src] ps by simp
  then have "inet_aton src = Some (or (push_bit 8 (or (push_bit 8 (or (push_bit 8
      (ucast (of_nat (dec_from 0 p) :: byte) :: u_long)) (ucast (of_nat (dec_from 0 q) :: byte))))
      (ucast (of_nat (dec_from 0 r) :: byte)))) (ucast (of_nat (dec_from 0 t) :: byte)))"
    by (simp only: inet_aton_def inet_aton_loop_octet oks inet_aton_loop.simps digits_dot) (simp add: ucast_byte_le inet_aton_loop_octet oks)
  then show ?thesis
    using oct ps by (simp add: inet_pton_ipv4_def htonl_bytes_octets)
qed

theorem inet_aton_agrees_witness: "inet_pton_ipv4 AF_INET ''10.0.3.250'' = Inr (Some [10, 0, 3, 250])"
proof -
  have "inet_pton4 ''10.0.3.250'' = Some [10, 0, 3, 250]"
    by (simp add: inet_pton4_def digits_def Let_def)
  then show ?thesis by (rule inet_aton_agrees)
qed

text \<open>
  \<open>inet_aton\<close> accepts strings that are no addresses: the empty string, an address with an empty
  octet, and an octet whose value wraps around in the 64-bit accumulator (2 to the 64th plus 1 is read
  as 1). \<open>inet_pton4\<close> rejects all three.
\<close>

theorem inet_aton_accepts_invalid:
  "inet_pton_ipv4 AF_INET [] = Inr (Some [0, 0, 0, 0]) \<and> inet_pton4 [] = None \<and>
   inet_pton_ipv4 AF_INET ''1..2.3'' = Inr (Some [1, 0, 2, 3]) \<and> inet_pton4 ''1..2.3'' = None \<and>
   inet_pton_ipv4 AF_INET ''18446744073709551617.0.0.0'' = Inr (Some [1, 0, 0, 0]) \<and>
   inet_pton4 ''18446744073709551617.0.0.0'' = None"
  by (simp add: inet_pton_ipv4_def inet_aton_def inet_pton4_def digits_def Let_def htonl_bytes_def)

end
