(* ===== verification/Err_Lib.thy ===== *)
theory Err_Lib
  imports Posix
begin

text \<open>
  The error functions of lib/error.c: \<open>err_doit\<close> builds a message in a buffer of \<open>MAXLINE + 1\<close>
  characters and sends it to syslog (a daemon) or to standard error; \<open>err_ret\<close> and \<open>err_msg\<close>
  return, \<open>err_sys\<close> and \<open>err_quit\<close> end the process with status 1, \<open>err_dump\<close> aborts it. The
  argument \<open>msg\<close> is the caller's format already expanded with its arguments, that is the string that
  an unbounded \<open>vsprintf\<close> would produce. The configuration is the one of config.h
  (\<open>HAVE_VSNPRINTF\<close>).
\<close>

text \<open>\<open>vsnprintf(buf, size, ...)\<close> keeps at most \<open>size - 1\<close> characters of the text.\<close>

definition snprintf_text :: "nat \<Rightarrow> string \<Rightarrow> string" where
  "snprintf_text sz txt = take (sz - 1) txt"

definition err_doit :: "os \<Rightarrow> bool \<Rightarrow> int \<Rightarrow> string \<Rightarrow> ('z proc_scheme, unit) cprog" where
  "err_doit os errnoflag level msg =
     cbind (cget errno) (\<lambda>errno_save.
     let buf = snprintf_text MAXLINE msg; n = length buf in
     cbind (if errnoflag
            then cbind (call os (C_strerror errno_save)) (\<lambda>r.
                   creturn (buf @ snprintf_text (MAXLINE - n) ('': '' @ out_str r)))
            else creturn buf) (\<lambda>buf1.
     let buf2 = buf1 @ [CHR 0x0A] in
     cbind (cget daemon_proc) (\<lambda>d.
     if d \<noteq> 0 then cbind (call os (C_syslog level buf2)) (\<lambda>_. creturn ())
     else cbind (call os (C_fflush STDOUT)) (\<lambda>_.
          cbind (call os (C_fputs buf2 STDERR)) (\<lambda>_.
          cbind (call os (C_fflush STDERR)) (\<lambda>_. creturn ()))))))"

definition err_ret :: "os \<Rightarrow> string \<Rightarrow> ('z proc_scheme, unit) cprog" where
  "err_ret os msg = err_doit os True LOG_INFO msg"

definition err_sys :: "os \<Rightarrow> string \<Rightarrow> ('z proc_scheme, 'a) cprog" where
  "err_sys os msg = cbind (err_doit os True LOG_ERR msg) (\<lambda>_. cexit 1)"

definition err_dump :: "os \<Rightarrow> string \<Rightarrow> ('z proc_scheme, 'a) cprog" where
  "err_dump os msg = cbind (err_doit os True LOG_ERR msg) (\<lambda>_. cbind (cabort :: (_, unit) cprog) (\<lambda>_. cexit 1))"

definition err_msg :: "os \<Rightarrow> string \<Rightarrow> ('z proc_scheme, unit) cprog" where
  "err_msg os msg = err_doit os False LOG_INFO msg"

definition err_quit :: "os \<Rightarrow> string \<Rightarrow> ('z proc_scheme, 'a) cprog" where
  "err_quit os msg = cbind (err_doit os False LOG_ERR msg) (\<lambda>_. cexit 1)"

section \<open>What the buffer holds and where the message goes\<close>

definition err_buf :: "os \<Rightarrow> bool \<Rightarrow> string \<Rightarrow> 'z proc_scheme \<Rightarrow> string" where
  "err_buf os errnoflag msg s =
     (let buf = snprintf_text MAXLINE msg in
      (if errnoflag
       then buf @ snprintf_text (MAXLINE - length buf) ('': '' @ out_str (os (calls s) (C_strerror (errno s))))
       else buf) @ [CHR 0x0A])"

definition err_state :: "os \<Rightarrow> bool \<Rightarrow> int \<Rightarrow> string \<Rightarrow> 'z proc_scheme \<Rightarrow> 'z proc_scheme" where
  "err_state os errnoflag level msg s =
     (let s1 = (if errnoflag then after os (C_strerror (errno s)) s else s);
          b = err_buf os errnoflag msg s
      in if daemon_proc s \<noteq> 0 then after os (C_syslog level b) s1
         else after os (C_fflush STDERR) (after os (C_fputs b STDERR) (after os (C_fflush STDOUT) s1)))"

lemma err_doit_run [simp, cprog_simps]:
  "err_doit os errnoflag level msg s = Some (Ret (), err_state os errnoflag level msg s)"
  by (simp add: err_doit_def err_state_def err_buf_def Let_def)

lemma err_sys_run [simp, cprog_simps]:
  "err_sys os msg s = Some (Exit 1, err_state os True LOG_ERR msg s)"
  by (simp add: err_sys_def)

lemma err_quit_run [simp, cprog_simps]:
  "err_quit os msg s = Some (Exit 1, err_state os False LOG_ERR msg s)"
  by (simp add: err_quit_def)

lemma err_dump_run [simp, cprog_simps]:
  "err_dump os msg s = Some (Abort, err_state os True LOG_ERR msg s)"
  by (simp add: err_dump_def)

lemma err_ret_run [simp, cprog_simps]:
  "err_ret os msg s = Some (Ret (), err_state os True LOG_INFO msg s)"
  by (simp add: err_ret_def)

lemma err_msg_run [simp, cprog_simps]:
  "err_msg os msg s = Some (Ret (), err_state os False LOG_INFO msg s)"
  by (simp add: err_msg_def)

lemma wp_call [wp_simps]: "wp (call os c) Q s \<longleftrightarrow> Q (Ret (os (calls s) c)) (after os c s)"
  by (simp add: wp_def)

lemma wp_set_errno [wp_simps]: "wp (set_errno e) Q s \<longleftrightarrow> Q (Ret ()) (s\<lparr>errno := e\<rparr>)"
  by (simp add: wp_def)

lemma wp_err [wp_simps]:
  "wp (err_sys os msg) Q s \<longleftrightarrow> Q (Exit 1) (err_state os True LOG_ERR msg s)"
  "wp (err_quit os msg) Q s \<longleftrightarrow> Q (Exit 1) (err_state os False LOG_ERR msg s)"
  by (simp_all add: wp_def)

lemma wp_err_return [wp_simps]:
  "wp (err_msg os msg) Q s \<longleftrightarrow> Q (Ret ()) (err_state os False LOG_INFO msg s)"
  "wp (err_ret os msg) Q s \<longleftrightarrow> Q (Ret ()) (err_state os True LOG_INFO msg s)"
  by (simp_all add: wp_def)

lemma keeps_call [intro]: "(\<And>s. J s \<Longrightarrow> J (after os c s)) \<Longrightarrow> keeps J (call os c)"
  by (simp add: keeps_def wp_call)

lemma keeps_err [simp, intro]: "keeps J (err_sys os msg)" "keeps J (err_quit os msg)"
  by (simp_all add: keeps_def wp_err)

lemma preserves_call [simp, intro]: "preserves proc.more (call os c)"
  by (simp add: preserves_def)

lemma preserves_set_errno [simp, intro]: "preserves proc.more (set_errno e)"
  by (simp add: preserves_def)

lemma more_err_state [simp]: "proc.more (err_state os f l msg s) = proc.more s"
  by (simp add: err_state_def Let_def)

lemma preserves_err_sys [simp, intro]: "preserves proc.more (err_sys os msg)"
  by (simp add: preserves_def)

lemma length_snprintf_text: "length (snprintf_text sz txt) \<le> sz - 1"
  by (simp add: snprintf_text_def)

lemma err_buf_length: "length (err_buf os errnoflag msg s) \<le> MAXLINE"
proof -
  let ?b = "snprintf_text MAXLINE msg"
  have b: "length ?b \<le> MAXLINE - 1" by (rule length_snprintf_text)
  have e: "length (snprintf_text (MAXLINE - length ?b) t) \<le> MAXLINE - length ?b - 1" for t
    by (rule length_snprintf_text)
  have "MAXLINE = 4096" by (simp add: MAXLINE_def)
  with b e[of "'': '' @ out_str (os (calls s) (C_strerror (errno s)))"] show ?thesis
    by (auto simp: err_buf_def Let_def)
qed

text \<open>
  The message buffer of \<open>err_doit\<close> never overflows: \<open>char buf[MAXLINE + 1]\<close> has room for the
  text with its newline and the terminating null byte, whatever the message, its arguments and
  \<open>strerror\<close> are, and the text always ends in a newline.
\<close>

theorem err_doit_buffer:
  "\<exists>b t. err_doit os errnoflag level msg s = Some (Ret (), t) \<and>
     length b + 1 \<le> MAXLINE + 1 \<and> last b = CHR 0x0A \<and>
     (if daemon_proc s \<noteq> 0
      then fst (last (calls t)) = C_syslog level b
      else map fst (drop (length (calls t) - 3) (calls t)) = [C_fflush STDOUT, C_fputs b STDERR, C_fflush STDERR])"
proof (intro exI conjI)
  let ?b = "err_buf os errnoflag msg s"
  show "err_doit os errnoflag level msg s = Some (Ret (), err_state os errnoflag level msg s)"
    by simp
  show "length ?b + 1 \<le> MAXLINE + 1"
    using err_buf_length by simp
  show "last ?b = CHR 0x0A"
    by (simp add: err_buf_def Let_def)
  show "if daemon_proc s \<noteq> 0
      then fst (last (calls (err_state os errnoflag level msg s))) = C_syslog level ?b
      else map fst (drop (length (calls (err_state os errnoflag level msg s)) - 3) (calls (err_state os errnoflag level msg s)))
           = [C_fflush STDOUT, C_fputs ?b STDERR, C_fflush STDERR]"
    by (simp add: err_state_def Let_def)
qed

end
