(* ===== verification/Wrappers.thy ===== *)
theory Wrappers
  imports Err_Lib
begin

text \<open>
  The wrapper functions of lib/wrapunix.c, lib/wrapsock.c, lib/wrapstdio.c and lib/wrappthread.c: a
  capitalised function makes the call of the same name in lower case and ends the process through
  \<open>err_sys\<close> (or \<open>err_quit\<close>) when the call fails. Results that the C code stores through pointer
  arguments are returned. Pointers and thread objects are integers (0 is the null pointer).
  \<open>Accept\<close> retries aborted connections, \<open>Listen\<close> reads its backlog from the environment,
  \<open>Sendmsg\<close> adds up the vector. The configuration is the one of config.h: \<open>Sysctl\<close>,
  \<open>Kqueue\<close> and \<open>Kevent\<close> are not compiled in.
\<close>

section \<open>lib/wrapunix.c\<close>

definition Calloc :: "os \<Rightarrow> nat \<Rightarrow> nat \<Rightarrow> ('z proc_scheme, int) cprog" where
  "Calloc os n sz = cbind (call os (C_lib ''calloc'' [V_int (int n), V_int (int sz)])) (\<lambda>r.
     if rv r = 0 then err_sys os ''calloc error'' else creturn (rv r))"

definition Close :: "os \<Rightarrow> int \<Rightarrow> ('z proc_scheme, unit) cprog" where
  "Close os fd = cbind (call os (C_close fd)) (\<lambda>r.
     if rv r = - 1 then err_sys os ''close error'' else creturn ())"

definition Dup2 :: "os \<Rightarrow> int \<Rightarrow> int \<Rightarrow> ('z proc_scheme, unit) cprog" where
  "Dup2 os fd1 fd2 = cbind (call os (C_lib ''dup2'' [V_int fd1, V_int fd2])) (\<lambda>r.
     if rv r = - 1 then err_sys os ''dup2 error'' else creturn ())"

definition Fcntl :: "os \<Rightarrow> int \<Rightarrow> int \<Rightarrow> int \<Rightarrow> ('z proc_scheme, int) cprog" where
  "Fcntl os fd cmd arg = cbind (call os (C_fcntl fd cmd arg)) (\<lambda>r.
     if rv r = - 1 then err_sys os ''fcntl error'' else creturn (rv r))"

definition Gettimeofday :: "os \<Rightarrow> ('z proc_scheme, int \<times> int) cprog" where
  "Gettimeofday os = cbind (call os (C_gettimeofday)) (\<lambda>r.
     if rv r = - 1 then err_sys os ''gettimeofday error'' else creturn (out_time r))"

definition Ioctl :: "os \<Rightarrow> int \<Rightarrow> int \<Rightarrow> byte list \<Rightarrow> ('z proc_scheme, sysret) cprog" where
  "Ioctl os fd request arg = cbind (call os (C_lib ''ioctl'' [V_int fd, V_int request, V_bytes arg])) (\<lambda>r.
     if rv r = - 1 then err_sys os ''ioctl error'' else creturn r)"

definition Fork :: "os \<Rightarrow> ('z proc_scheme, int) cprog" where
  "Fork os = cbind (call os (C_fork)) (\<lambda>r.
     if rv r = - 1 then err_sys os ''fork error'' else creturn (rv r))"

definition Malloc :: "os \<Rightarrow> nat \<Rightarrow> ('z proc_scheme, int) cprog" where
  "Malloc os sz = cbind (call os (C_lib ''malloc'' [V_int (int sz)])) (\<lambda>r.
     if rv r = 0 then err_sys os ''malloc error'' else creturn (rv r))"

definition Mkstemp :: "os \<Rightarrow> string \<Rightarrow> ('z proc_scheme, int) cprog" where
  "Mkstemp os template = cbind (call os (C_lib ''mkstemp'' [V_str template])) (\<lambda>r.
     if rv r < 0 then err_quit os ''mkstemp error'' else creturn (rv r))"

definition Mmap :: "os \<Rightarrow> int \<Rightarrow> nat \<Rightarrow> int \<Rightarrow> int \<Rightarrow> int \<Rightarrow> int \<Rightarrow> ('z proc_scheme, int) cprog" where
  "Mmap os addr len prot flags fd offset = cbind (call os (C_lib ''mmap'' [V_int addr, V_int (int len), V_int prot, V_int flags, V_int fd, V_int offset])) (\<lambda>r.
     if rv r = - 1 then err_sys os ''mmap error'' else creturn (rv r))"

definition Open :: "os \<Rightarrow> string \<Rightarrow> int \<Rightarrow> int \<Rightarrow> ('z proc_scheme, int) cprog" where
  "Open os pathname oflag mode = cbind (call os (C_lib ''open'' [V_str pathname, V_int oflag, V_int mode])) (\<lambda>r.
     if rv r = - 1 then err_sys os (''open error for '' @ pathname) else creturn (rv r))"

definition Pipe :: "os \<Rightarrow> ('z proc_scheme, int list) cprog" where
  "Pipe os = cbind (call os (C_lib ''pipe'' [])) (\<lambda>r.
     if rv r < 0 then err_sys os ''pipe error'' else creturn (out_ints 0 r))"

definition Read :: "os \<Rightarrow> int \<Rightarrow> nat \<Rightarrow> ('z proc_scheme, sysret) cprog" where
  "Read os fd nbytes = cbind (call os (C_read fd nbytes)) (\<lambda>r.
     if rv r = - 1 then err_sys os ''read error'' else creturn r)"

definition Sigaddset :: "os \<Rightarrow> int list \<Rightarrow> int \<Rightarrow> ('z proc_scheme, int list) cprog" where
  "Sigaddset os sigs signo = cbind (call os (C_lib ''sigaddset'' [V_ints sigs, V_int signo])) (\<lambda>r.
     if rv r = - 1 then err_sys os ''sigaddset error'' else creturn (out_ints 0 r))"

definition Sigdelset :: "os \<Rightarrow> int list \<Rightarrow> int \<Rightarrow> ('z proc_scheme, int list) cprog" where
  "Sigdelset os sigs signo = cbind (call os (C_lib ''sigdelset'' [V_ints sigs, V_int signo])) (\<lambda>r.
     if rv r = - 1 then err_sys os ''sigdelset error'' else creturn (out_ints 0 r))"

definition Sigemptyset :: "os \<Rightarrow> ('z proc_scheme, int list) cprog" where
  "Sigemptyset os = cbind (call os (C_lib ''sigemptyset'' [])) (\<lambda>r.
     if rv r = - 1 then err_sys os ''sigemptyset error'' else creturn (out_ints 0 r))"

definition Sigfillset :: "os \<Rightarrow> ('z proc_scheme, int list) cprog" where
  "Sigfillset os = cbind (call os (C_lib ''sigfillset'' [])) (\<lambda>r.
     if rv r = - 1 then err_sys os ''sigfillset error'' else creturn (out_ints 0 r))"

definition Sigismember :: "os \<Rightarrow> int list \<Rightarrow> int \<Rightarrow> ('z proc_scheme, int) cprog" where
  "Sigismember os sigs signo = cbind (call os (C_lib ''sigismember'' [V_ints sigs, V_int signo])) (\<lambda>r.
     if rv r = - 1 then err_sys os ''sigismember error'' else creturn (rv r))"

definition Sigpending :: "os \<Rightarrow> ('z proc_scheme, int list) cprog" where
  "Sigpending os = cbind (call os (C_lib ''sigpending'' [])) (\<lambda>r.
     if rv r = - 1 then err_sys os ''sigpending error'' else creturn (out_ints 0 r))"

definition Sigprocmask :: "os \<Rightarrow> int \<Rightarrow> int list \<Rightarrow> ('z proc_scheme, int list) cprog" where
  "Sigprocmask os how sigs = cbind (call os (C_lib ''sigprocmask'' [V_int how, V_ints sigs])) (\<lambda>r.
     if rv r = - 1 then err_sys os ''sigprocmask error'' else creturn (out_ints 0 r))"

definition Strdup :: "os \<Rightarrow> string \<Rightarrow> ('z proc_scheme, int) cprog" where
  "Strdup os str = cbind (call os (C_lib ''strdup'' [V_str str])) (\<lambda>r.
     if rv r = 0 then err_sys os ''strdup error'' else creturn (rv r))"

definition Unlink :: "os \<Rightarrow> string \<Rightarrow> ('z proc_scheme, unit) cprog" where
  "Unlink os pathname = cbind (call os (C_lib ''unlink'' [V_str pathname])) (\<lambda>r.
     if rv r = - 1 then err_sys os (''unlink error for '' @ pathname) else creturn ())"

definition Wait :: "os \<Rightarrow> ('z proc_scheme, int \<times> int) cprog" where
  "Wait os = cbind (call os (C_lib ''wait'' [])) (\<lambda>r.
     if rv r = - 1 then err_sys os ''wait error'' else creturn (rv r, out_int r))"

definition Waitpid :: "os \<Rightarrow> int \<Rightarrow> int \<Rightarrow> ('z proc_scheme, int \<times> int) cprog" where
  "Waitpid os pid options = cbind (call os (C_lib ''waitpid'' [V_int pid, V_int options])) (\<lambda>r.
     if rv r = - 1 then err_sys os ''waitpid error'' else creturn (rv r, out_int r))"

definition Write :: "os \<Rightarrow> int \<Rightarrow> byte list \<Rightarrow> ('z proc_scheme, unit) cprog" where
  "Write os fd bytes = cbind (call os (C_write fd bytes)) (\<lambda>r.
     if rv r \<noteq> int (length bytes) then err_sys os ''write error'' else creturn ())"

definition Sysconf :: "os \<Rightarrow> int \<Rightarrow> ('z proc_scheme, int) cprog" where
  "Sysconf os name = cbind (set_errno 0) (\<lambda>_.
     cbind (call os (C_lib ''sysconf'' [V_int name])) (\<lambda>r.
     if rv r = - 1 then err_sys os ''sysconf error'' else creturn (rv r)))"

section \<open>lib/wrapsock.c\<close>

text \<open>\<open>atoi\<close> of the C library on a decimal string: white space, an optional sign, digits up to the
  first other character.\<close>

definition is_digit :: "char \<Rightarrow> bool" where
  "is_digit c \<longleftrightarrow> 48 \<le> (of_char c :: nat) \<and> (of_char c :: nat) \<le> 57"

definition digit_val :: "char \<Rightarrow> nat" where
  "digit_val c = of_char c - 48"

fun digits_val :: "nat \<Rightarrow> string \<Rightarrow> nat" where
  "digits_val acc [] = acc"
| "digits_val acc (c # cs) = (if is_digit c then digits_val (acc * 10 + digit_val c) cs else acc)"

definition is_space :: "char \<Rightarrow> bool" where
  "is_space c \<longleftrightarrow> (of_char c :: nat) = 32 \<or> (9 \<le> (of_char c :: nat) \<and> (of_char c :: nat) \<le> 13)"

definition atoi :: "string \<Rightarrow> int" where
  "atoi str = (case dropWhile is_space str of
       [] \<Rightarrow> 0
     | c # cs \<Rightarrow> if c = CHR ''-'' then - int (digits_val 0 cs)
                else if c = CHR ''+'' then int (digits_val 0 cs)
                else int (digits_val 0 (c # cs)))"

partial_function (option) Accept :: "os \<Rightarrow> int \<Rightarrow> 'z proc_scheme \<Rightarrow> (sysret outcome \<times> 'z proc_scheme) option" where
  "Accept os fd s =
     cbind (call os (C_accept fd)) (\<lambda>r.
     if rv r < 0
     then cbind (cget errno) (\<lambda>e.
          if e = EPROTO \<or> e = ECONNABORTED then Accept os fd
          else err_sys os ''accept error'')
     else creturn r) s"

definition Bind :: "os \<Rightarrow> int \<Rightarrow> sockaddr \<Rightarrow> nat \<Rightarrow> ('z proc_scheme, unit) cprog" where
  "Bind os fd sa salen = cbind (call os (C_bind fd sa salen)) (\<lambda>r.
     if rv r < 0 then err_sys os ''bind error'' else creturn ())"

definition Connect :: "os \<Rightarrow> int \<Rightarrow> sockaddr \<Rightarrow> nat \<Rightarrow> ('z proc_scheme, unit) cprog" where
  "Connect os fd sa salen = cbind (call os (C_connect fd sa salen)) (\<lambda>r.
     if rv r < 0 then err_sys os ''connect error'' else creturn ())"

definition Getpeername :: "os \<Rightarrow> int \<Rightarrow> ('z proc_scheme, sockaddr option) cprog" where
  "Getpeername os fd = cbind (call os (C_lib ''getpeername'' [V_int fd])) (\<lambda>r.
     if rv r < 0 then err_sys os ''getpeername error'' else creturn (out_addr r))"

definition Getsockname :: "os \<Rightarrow> int \<Rightarrow> ('z proc_scheme, sockaddr option) cprog" where
  "Getsockname os fd = cbind (call os (C_getsockname fd)) (\<lambda>r.
     if rv r < 0 then err_sys os ''getsockname error'' else creturn (out_addr r))"

definition Getsockopt :: "os \<Rightarrow> int \<Rightarrow> int \<Rightarrow> int \<Rightarrow> ('z proc_scheme, cval list) cprog" where
  "Getsockopt os fd level optname = cbind (call os (C_getsockopt fd level optname)) (\<lambda>r.
     if rv r < 0 then err_sys os ''getsockopt error'' else creturn (outs r))"

definition Inet6_rth_space :: "os \<Rightarrow> int \<Rightarrow> int \<Rightarrow> ('z proc_scheme, int) cprog" where
  "Inet6_rth_space os ty segments = cbind (call os (C_lib ''inet6_rth_space'' [V_int ty, V_int segments])) (\<lambda>r.
     if rv r < 0 then err_quit os ''inet6_rth_space error'' else creturn (rv r))"

definition Inet6_rth_init :: "os \<Rightarrow> nat \<Rightarrow> int \<Rightarrow> int \<Rightarrow> ('z proc_scheme, byte list) cprog" where
  "Inet6_rth_init os rthlen ty segments = cbind (call os (C_lib ''inet6_rth_init'' [V_int (int rthlen), V_int ty, V_int segments])) (\<lambda>r.
     if rv r = 0 then err_quit os ''inet6_rth_init error'' else creturn (out_bytes r))"

definition Inet6_rth_add :: "os \<Rightarrow> byte list \<Rightarrow> byte list \<Rightarrow> ('z proc_scheme, byte list) cprog" where
  "Inet6_rth_add os rthbuf addr = cbind (call os (C_lib ''inet6_rth_add'' [V_bytes rthbuf, V_bytes addr])) (\<lambda>r.
     if rv r < 0 then err_quit os ''inet6_rth_add error'' else creturn (out_bytes r))"

definition Inet6_rth_reverse :: "os \<Rightarrow> byte list \<Rightarrow> ('z proc_scheme, byte list) cprog" where
  "Inet6_rth_reverse os rthbuf = cbind (call os (C_lib ''inet6_rth_reverse'' [V_bytes rthbuf])) (\<lambda>r.
     if rv r < 0 then err_quit os ''inet6_rth_reverse error'' else creturn (out_bytes r))"

definition Inet6_rth_segments :: "os \<Rightarrow> byte list \<Rightarrow> ('z proc_scheme, int) cprog" where
  "Inet6_rth_segments os rthbuf = cbind (call os (C_lib ''inet6_rth_segments'' [V_bytes rthbuf])) (\<lambda>r.
     if rv r < 0 then err_quit os ''inet6_rth_segments error'' else creturn (rv r))"

definition Inet6_rth_getaddr :: "os \<Rightarrow> byte list \<Rightarrow> int \<Rightarrow> ('z proc_scheme, byte list) cprog" where
  "Inet6_rth_getaddr os rthbuf idx = cbind (call os (C_lib ''inet6_rth_getaddr'' [V_bytes rthbuf, V_int idx])) (\<lambda>r.
     if rv r = 0 then err_quit os ''inet6_rth_getaddr error'' else creturn (out_bytes r))"

definition Poll :: "os \<Rightarrow> int list \<Rightarrow> int list \<Rightarrow> int \<Rightarrow> ('z proc_scheme, sysret) cprog" where
  "Poll os fds events timeout = cbind (call os (C_lib ''poll'' [V_ints fds, V_ints events, V_int timeout])) (\<lambda>r.
     if rv r < 0 then err_sys os ''poll error'' else creturn r)"

definition Recv :: "os \<Rightarrow> int \<Rightarrow> nat \<Rightarrow> int \<Rightarrow> ('z proc_scheme, sysret) cprog" where
  "Recv os fd nbytes flags = cbind (call os (C_lib ''recv'' [V_int fd, V_int (int nbytes), V_int flags])) (\<lambda>r.
     if rv r < 0 then err_sys os ''recv error'' else creturn r)"

definition Recvfrom :: "os \<Rightarrow> int \<Rightarrow> nat \<Rightarrow> int \<Rightarrow> ('z proc_scheme, sysret) cprog" where
  "Recvfrom os fd nbytes flags = cbind (call os (C_recvfrom fd nbytes flags)) (\<lambda>r.
     if rv r < 0 then err_sys os ''recvfrom error'' else creturn r)"

definition Recvmsg :: "os \<Rightarrow> int \<Rightarrow> int \<Rightarrow> ('z proc_scheme, sysret) cprog" where
  "Recvmsg os fd flags = cbind (call os (C_lib ''recvmsg'' [V_int fd, V_int flags])) (\<lambda>r.
     if rv r < 0 then err_sys os ''recvmsg error'' else creturn r)"

definition Select :: "os \<Rightarrow> int \<Rightarrow> int list \<Rightarrow> int list \<Rightarrow> int list \<Rightarrow> (int \<times> int) option \<Rightarrow> ('z proc_scheme, sysret) cprog" where
  "Select os nfds readfds writefds exceptfds timeout = cbind (call os (C_select nfds readfds writefds exceptfds timeout)) (\<lambda>r.
     if rv r < 0 then err_sys os ''select error'' else creturn r)"

definition Send :: "os \<Rightarrow> int \<Rightarrow> byte list \<Rightarrow> int \<Rightarrow> ('z proc_scheme, unit) cprog" where
  "Send os fd bytes flags = cbind (call os (C_lib ''send'' [V_int fd, V_bytes bytes, V_int flags])) (\<lambda>r.
     if rv r \<noteq> int (length bytes) then err_sys os ''send error'' else creturn ())"

definition Sendto :: "os \<Rightarrow> int \<Rightarrow> byte list \<Rightarrow> int \<Rightarrow> sockaddr \<Rightarrow> nat \<Rightarrow> ('z proc_scheme, unit) cprog" where
  "Sendto os fd bytes flags sa salen = cbind (call os (C_sendto fd bytes flags sa salen)) (\<lambda>r.
     if rv r \<noteq> int (length bytes) then err_sys os ''sendto error'' else creturn ())"

definition Setsockopt :: "os \<Rightarrow> int \<Rightarrow> int \<Rightarrow> int \<Rightarrow> byte list \<Rightarrow> ('z proc_scheme, unit) cprog" where
  "Setsockopt os fd level optname optval = cbind (call os (C_setsockopt fd level optname optval)) (\<lambda>r.
     if rv r < 0 then err_sys os ''setsockopt error'' else creturn ())"

definition Shutdown :: "os \<Rightarrow> int \<Rightarrow> int \<Rightarrow> ('z proc_scheme, unit) cprog" where
  "Shutdown os fd how = cbind (call os (C_lib ''shutdown'' [V_int fd, V_int how])) (\<lambda>r.
     if rv r < 0 then err_sys os ''shutdown error'' else creturn ())"

definition Sockatmark :: "os \<Rightarrow> int \<Rightarrow> ('z proc_scheme, int) cprog" where
  "Sockatmark os fd = cbind (call os (C_lib ''sockatmark'' [V_int fd])) (\<lambda>r.
     if rv r < 0 then err_sys os ''sockatmark error'' else creturn (rv r))"

definition Socket :: "os \<Rightarrow> int \<Rightarrow> int \<Rightarrow> int \<Rightarrow> ('z proc_scheme, int) cprog" where
  "Socket os family ty protocol = cbind (call os (C_socket family ty protocol)) (\<lambda>r.
     if rv r < 0 then err_sys os ''socket error'' else creturn (rv r))"

definition Socketpair :: "os \<Rightarrow> int \<Rightarrow> int \<Rightarrow> int \<Rightarrow> ('z proc_scheme, int list) cprog" where
  "Socketpair os family ty protocol = cbind (call os (C_lib ''socketpair'' [V_int family, V_int ty, V_int protocol])) (\<lambda>r.
     if rv r < 0 then err_sys os ''socketpair error'' else creturn (out_ints 0 r))"

definition Listen :: "os \<Rightarrow> int \<Rightarrow> int \<Rightarrow> ('z proc_scheme, unit) cprog" where
  "Listen os fd backlog =
     cbind (call os (C_lib ''getenv'' [V_str ''LISTENQ''])) (\<lambda>p.
     let backlog' = (if rv p \<noteq> 0 then atoi (out_str p) else backlog) in
     cbind (call os (C_listen fd backlog')) (\<lambda>r.
     if rv r < 0 then err_sys os ''listen error'' else creturn ()))"

fun iov_total :: "byte list list \<Rightarrow> int" where
  "iov_total [] = 0"
| "iov_total (v # vs) = int (length v) + iov_total vs"

definition Sendmsg :: "os \<Rightarrow> int \<Rightarrow> byte list list \<Rightarrow> cval list \<Rightarrow> int \<Rightarrow> ('z proc_scheme, unit) cprog" where
  "Sendmsg os fd iov ctl flags =
     (let nbytes = iov_total iov in
      cbind (call os (C_lib ''sendmsg'' ([V_int fd, V_int flags] @ map V_bytes iov @ ctl))) (\<lambda>r.
      if rv r \<noteq> nbytes then err_sys os ''sendmsg error'' else creturn ()))"

section \<open>lib/wrapstdio.c\<close>

definition Fclose :: "os \<Rightarrow> int \<Rightarrow> ('z proc_scheme, unit) cprog" where
  "Fclose os fp = cbind (call os (C_lib ''fclose'' [V_int fp])) (\<lambda>r.
     if rv r \<noteq> 0 then err_sys os ''fclose error'' else creturn ())"

definition Fdopen :: "os \<Rightarrow> int \<Rightarrow> string \<Rightarrow> ('z proc_scheme, int) cprog" where
  "Fdopen os fd ty = cbind (call os (C_lib ''fdopen'' [V_int fd, V_str ty])) (\<lambda>r.
     if rv r = 0 then err_sys os ''fdopen error'' else creturn (rv r))"

definition Fopen :: "os \<Rightarrow> string \<Rightarrow> string \<Rightarrow> ('z proc_scheme, int) cprog" where
  "Fopen os filename mode = cbind (call os (C_lib ''fopen'' [V_str filename, V_str mode])) (\<lambda>r.
     if rv r = 0 then err_sys os ''fopen error'' else creturn (rv r))"

definition Fputs :: "os \<Rightarrow> string \<Rightarrow> int \<Rightarrow> ('z proc_scheme, unit) cprog" where
  "Fputs os ptr stream = cbind (call os (C_fputs ptr stream)) (\<lambda>r.
     if rv r = - 1 then err_sys os ''fputs error'' else creturn ())"

text \<open>\<open>Fgets\<close> returns the null pointer at end of file and dies only on a stream error.\<close>

definition Fgets :: "os \<Rightarrow> nat \<Rightarrow> int \<Rightarrow> ('z proc_scheme, string option) cprog" where
  "Fgets os n stream =
     cbind (call os (C_lib ''fgets'' [V_int (int n), V_int stream])) (\<lambda>r.
     if rv r = 0
     then cbind (call os (C_lib ''ferror'' [V_int stream])) (\<lambda>e.
          if rv e \<noteq> 0 then err_sys os ''fgets error'' else creturn None)
     else creturn (Some (out_str r)))"

section \<open>lib/wrappthread.c\<close>

text \<open>The pthread functions return the error number instead of setting \<open>errno\<close>.\<close>

definition Pthread_create :: "os \<Rightarrow> int \<Rightarrow> int \<Rightarrow> int \<Rightarrow> ('z proc_scheme, int) cprog" where
  "Pthread_create os attr func arg = cbind (call os (C_lib ''pthread_create'' [V_int attr, V_int func, V_int arg])) (\<lambda>r.
     if rv r = 0 then creturn (out_int r)
     else cbind (set_errno (rv r)) (\<lambda>_. err_sys os ''pthread_create error''))"

definition Pthread_join :: "os \<Rightarrow> int \<Rightarrow> ('z proc_scheme, int) cprog" where
  "Pthread_join os tid = cbind (call os (C_lib ''pthread_join'' [V_int tid])) (\<lambda>r.
     if rv r = 0 then creturn (out_int r)
     else cbind (set_errno (rv r)) (\<lambda>_. err_sys os ''pthread_join error''))"

definition Pthread_detach :: "os \<Rightarrow> int \<Rightarrow> ('z proc_scheme, unit) cprog" where
  "Pthread_detach os tid = cbind (call os (C_lib ''pthread_detach'' [V_int tid])) (\<lambda>r.
     if rv r = 0 then creturn ()
     else cbind (set_errno (rv r)) (\<lambda>_. err_sys os ''pthread_detach error''))"

definition Pthread_kill :: "os \<Rightarrow> int \<Rightarrow> int \<Rightarrow> ('z proc_scheme, unit) cprog" where
  "Pthread_kill os tid signo = cbind (call os (C_lib ''pthread_kill'' [V_int tid, V_int signo])) (\<lambda>r.
     if rv r = 0 then creturn ()
     else cbind (set_errno (rv r)) (\<lambda>_. err_sys os ''pthread_kill error''))"

definition Pthread_mutexattr_init :: "os \<Rightarrow> int \<Rightarrow> ('z proc_scheme, unit) cprog" where
  "Pthread_mutexattr_init os attr = cbind (call os (C_lib ''pthread_mutexattr_init'' [V_int attr])) (\<lambda>r.
     if rv r = 0 then creturn ()
     else cbind (set_errno (rv r)) (\<lambda>_. err_sys os ''pthread_mutexattr_init error''))"

definition Pthread_mutexattr_setpshared :: "os \<Rightarrow> int \<Rightarrow> int \<Rightarrow> ('z proc_scheme, unit) cprog" where
  "Pthread_mutexattr_setpshared os attr flag = cbind (call os (C_lib ''pthread_mutexattr_setpshared'' [V_int attr, V_int flag])) (\<lambda>r.
     if rv r = 0 then creturn ()
     else cbind (set_errno (rv r)) (\<lambda>_. err_sys os ''pthread_mutexattr_setpshared error''))"

definition Pthread_mutex_init :: "os \<Rightarrow> int \<Rightarrow> int \<Rightarrow> ('z proc_scheme, unit) cprog" where
  "Pthread_mutex_init os mptr attr = cbind (call os (C_lib ''pthread_mutex_init'' [V_int mptr, V_int attr])) (\<lambda>r.
     if rv r = 0 then creturn ()
     else cbind (set_errno (rv r)) (\<lambda>_. err_sys os ''pthread_mutex_init error''))"

definition Pthread_mutex_lock :: "os \<Rightarrow> int \<Rightarrow> ('z proc_scheme, unit) cprog" where
  "Pthread_mutex_lock os mptr = cbind (call os (C_lib ''pthread_mutex_lock'' [V_int mptr])) (\<lambda>r.
     if rv r = 0 then creturn ()
     else cbind (set_errno (rv r)) (\<lambda>_. err_sys os ''pthread_mutex_lock error''))"

definition Pthread_mutex_unlock :: "os \<Rightarrow> int \<Rightarrow> ('z proc_scheme, unit) cprog" where
  "Pthread_mutex_unlock os mptr = cbind (call os (C_lib ''pthread_mutex_unlock'' [V_int mptr])) (\<lambda>r.
     if rv r = 0 then creturn ()
     else cbind (set_errno (rv r)) (\<lambda>_. err_sys os ''pthread_mutex_unlock error''))"

definition Pthread_cond_broadcast :: "os \<Rightarrow> int \<Rightarrow> ('z proc_scheme, unit) cprog" where
  "Pthread_cond_broadcast os cptr = cbind (call os (C_lib ''pthread_cond_broadcast'' [V_int cptr])) (\<lambda>r.
     if rv r = 0 then creturn ()
     else cbind (set_errno (rv r)) (\<lambda>_. err_sys os ''pthread_cond_broadcast error''))"

definition Pthread_cond_signal :: "os \<Rightarrow> int \<Rightarrow> ('z proc_scheme, unit) cprog" where
  "Pthread_cond_signal os cptr = cbind (call os (C_lib ''pthread_cond_signal'' [V_int cptr])) (\<lambda>r.
     if rv r = 0 then creturn ()
     else cbind (set_errno (rv r)) (\<lambda>_. err_sys os ''pthread_cond_signal error''))"

definition Pthread_cond_wait :: "os \<Rightarrow> int \<Rightarrow> int \<Rightarrow> ('z proc_scheme, unit) cprog" where
  "Pthread_cond_wait os cptr mptr = cbind (call os (C_lib ''pthread_cond_wait'' [V_int cptr, V_int mptr])) (\<lambda>r.
     if rv r = 0 then creturn ()
     else cbind (set_errno (rv r)) (\<lambda>_. err_sys os ''pthread_cond_wait error''))"

definition Pthread_cond_timedwait :: "os \<Rightarrow> int \<Rightarrow> int \<Rightarrow> int \<Rightarrow> int \<Rightarrow> ('z proc_scheme, unit) cprog" where
  "Pthread_cond_timedwait os cptr mptr sec nsec = cbind (call os (C_lib ''pthread_cond_timedwait'' [V_int cptr, V_int mptr, V_int sec, V_int nsec])) (\<lambda>r.
     if rv r = 0 then creturn ()
     else cbind (set_errno (rv r)) (\<lambda>_. err_sys os ''pthread_cond_timedwait error''))"

definition Pthread_once :: "os \<Rightarrow> int \<Rightarrow> int \<Rightarrow> ('z proc_scheme, unit) cprog" where
  "Pthread_once os ptr func = cbind (call os (C_lib ''pthread_once'' [V_int ptr, V_int func])) (\<lambda>r.
     if rv r = 0 then creturn ()
     else cbind (set_errno (rv r)) (\<lambda>_. err_sys os ''pthread_once error''))"

definition Pthread_key_create :: "os \<Rightarrow> int \<Rightarrow> ('z proc_scheme, int) cprog" where
  "Pthread_key_create os func = cbind (call os (C_lib ''pthread_key_create'' [V_int func])) (\<lambda>r.
     if rv r = 0 then creturn (out_int r)
     else cbind (set_errno (rv r)) (\<lambda>_. err_sys os ''pthread_key_create error''))"

definition Pthread_setspecific :: "os \<Rightarrow> int \<Rightarrow> int \<Rightarrow> ('z proc_scheme, unit) cprog" where
  "Pthread_setspecific os key val = cbind (call os (C_lib ''pthread_setspecific'' [V_int key, V_int val])) (\<lambda>r.
     if rv r = 0 then creturn ()
     else cbind (set_errno (rv r)) (\<lambda>_. err_sys os ''pthread_setspecific error''))"

section \<open>The contract of a wrapper\<close>

text \<open>
  A client of a wrapper relies on this: one call is made, the wrapper returns exactly when that call
  succeeded and then with the call's result, and otherwise the process has ended with status 1.
\<close>

locale fatal_wrapper =
  fixes prog :: "'z proc_scheme \<Rightarrow> ('a outcome \<times> 'z proc_scheme) option"
    and os :: os and c :: ccall and bad :: "sysret \<Rightarrow> bool"
    and report :: "sysret \<Rightarrow> 'z proc_scheme \<Rightarrow> 'z proc_scheme" and res :: "sysret \<Rightarrow> 'a"
  assumes wraps: "prog s = (let r = os (calls s) c; t = after os c s in
                             if bad r then Some (Exit 1, report r t) else Some (Ret (res r), t))"
begin

lemma run_good [simp]: "\<not> bad (os (calls s) c) \<Longrightarrow> prog s = Some (Ret (res (os (calls s) c)), after os c s)"
  by (simp add: wraps Let_def)

lemma run_bad [simp]: "bad (os (calls s) c) \<Longrightarrow> prog s = Some (Exit 1, report (os (calls s) c) (after os c s))"
  by (simp add: wraps Let_def)

lemma returns_iff: "(\<exists>a t. prog s = Some (Ret a, t)) \<longleftrightarrow> \<not> bad (os (calls s) c)"
  by (simp add: wraps Let_def)

lemma returnsD:
  assumes "prog s = Some (Ret a, t)"
  shows "\<not> bad (os (calls s) c)" and "a = res (os (calls s) c)" and "t = after os c s"
  using assms by (auto simp: wraps Let_def split: if_splits)

lemma exitsD: "prog s = Some (Exit n, t) \<Longrightarrow> n = 1 \<and> bad (os (calls s) c)"
  by (auto simp: wraps Let_def split: if_splits)

lemma ends: "prog s \<noteq> None \<and> (\<forall>t. prog s \<noteq> Some (Abort, t))"
  by (simp add: wraps Let_def)

end

interpretation w_Calloc: fatal_wrapper "Calloc os n sz" os "C_lib ''calloc'' [V_int (int n), V_int (int sz)]" "\<lambda>r. rv r = 0"
    "\<lambda>_. err_state os True LOG_ERR ''calloc error''" "\<lambda>r. rv r" for os n sz
  by unfold_locales (simp add: Calloc_def Let_def)

interpretation w_Close: fatal_wrapper "Close os fd" os "C_close fd" "\<lambda>r. rv r = - 1"
    "\<lambda>_. err_state os True LOG_ERR ''close error''" "\<lambda>r. ()" for os fd
  by unfold_locales (simp add: Close_def Let_def)

interpretation w_Dup2: fatal_wrapper "Dup2 os fd1 fd2" os "C_lib ''dup2'' [V_int fd1, V_int fd2]" "\<lambda>r. rv r = - 1"
    "\<lambda>_. err_state os True LOG_ERR ''dup2 error''" "\<lambda>r. ()" for os fd1 fd2
  by unfold_locales (simp add: Dup2_def Let_def)

interpretation w_Fcntl: fatal_wrapper "Fcntl os fd cmd arg" os "C_fcntl fd cmd arg" "\<lambda>r. rv r = - 1"
    "\<lambda>_. err_state os True LOG_ERR ''fcntl error''" "\<lambda>r. rv r" for os fd cmd arg
  by unfold_locales (simp add: Fcntl_def Let_def)

interpretation w_Gettimeofday: fatal_wrapper "Gettimeofday os" os "C_gettimeofday" "\<lambda>r. rv r = - 1"
    "\<lambda>_. err_state os True LOG_ERR ''gettimeofday error''" "\<lambda>r. out_time r" for os
  by unfold_locales (simp add: Gettimeofday_def Let_def)

interpretation w_Ioctl: fatal_wrapper "Ioctl os fd request arg" os "C_lib ''ioctl'' [V_int fd, V_int request, V_bytes arg]" "\<lambda>r. rv r = - 1"
    "\<lambda>_. err_state os True LOG_ERR ''ioctl error''" "\<lambda>r. r" for os fd request arg
  by unfold_locales (simp add: Ioctl_def Let_def)

interpretation w_Fork: fatal_wrapper "Fork os" os "C_fork" "\<lambda>r. rv r = - 1"
    "\<lambda>_. err_state os True LOG_ERR ''fork error''" "\<lambda>r. rv r" for os
  by unfold_locales (simp add: Fork_def Let_def)

interpretation w_Malloc: fatal_wrapper "Malloc os sz" os "C_lib ''malloc'' [V_int (int sz)]" "\<lambda>r. rv r = 0"
    "\<lambda>_. err_state os True LOG_ERR ''malloc error''" "\<lambda>r. rv r" for os sz
  by unfold_locales (simp add: Malloc_def Let_def)

interpretation w_Mkstemp: fatal_wrapper "Mkstemp os template" os "C_lib ''mkstemp'' [V_str template]" "\<lambda>r. rv r < 0"
    "\<lambda>_. err_state os False LOG_ERR ''mkstemp error''" "\<lambda>r. rv r" for os template
  by unfold_locales (simp add: Mkstemp_def Let_def)

interpretation w_Mmap: fatal_wrapper "Mmap os addr len prot flags fd offset" os "C_lib ''mmap'' [V_int addr, V_int (int len), V_int prot, V_int flags, V_int fd, V_int offset]" "\<lambda>r. rv r = - 1"
    "\<lambda>_. err_state os True LOG_ERR ''mmap error''" "\<lambda>r. rv r" for os addr len prot flags fd offset
  by unfold_locales (simp add: Mmap_def Let_def)

interpretation w_Open: fatal_wrapper "Open os pathname oflag mode" os "C_lib ''open'' [V_str pathname, V_int oflag, V_int mode]" "\<lambda>r. rv r = - 1"
    "\<lambda>_. err_state os True LOG_ERR (''open error for '' @ pathname)" "\<lambda>r. rv r" for os pathname oflag mode
  by unfold_locales (simp add: Open_def Let_def)

interpretation w_Pipe: fatal_wrapper "Pipe os" os "C_lib ''pipe'' []" "\<lambda>r. rv r < 0"
    "\<lambda>_. err_state os True LOG_ERR ''pipe error''" "\<lambda>r. out_ints 0 r" for os
  by unfold_locales (simp add: Pipe_def Let_def)

interpretation w_Read: fatal_wrapper "Read os fd nbytes" os "C_read fd nbytes" "\<lambda>r. rv r = - 1"
    "\<lambda>_. err_state os True LOG_ERR ''read error''" "\<lambda>r. r" for os fd nbytes
  by unfold_locales (simp add: Read_def Let_def)

interpretation w_Sigaddset: fatal_wrapper "Sigaddset os sigs signo" os "C_lib ''sigaddset'' [V_ints sigs, V_int signo]" "\<lambda>r. rv r = - 1"
    "\<lambda>_. err_state os True LOG_ERR ''sigaddset error''" "\<lambda>r. out_ints 0 r" for os sigs signo
  by unfold_locales (simp add: Sigaddset_def Let_def)

interpretation w_Sigdelset: fatal_wrapper "Sigdelset os sigs signo" os "C_lib ''sigdelset'' [V_ints sigs, V_int signo]" "\<lambda>r. rv r = - 1"
    "\<lambda>_. err_state os True LOG_ERR ''sigdelset error''" "\<lambda>r. out_ints 0 r" for os sigs signo
  by unfold_locales (simp add: Sigdelset_def Let_def)

interpretation w_Sigemptyset: fatal_wrapper "Sigemptyset os" os "C_lib ''sigemptyset'' []" "\<lambda>r. rv r = - 1"
    "\<lambda>_. err_state os True LOG_ERR ''sigemptyset error''" "\<lambda>r. out_ints 0 r" for os
  by unfold_locales (simp add: Sigemptyset_def Let_def)

interpretation w_Sigfillset: fatal_wrapper "Sigfillset os" os "C_lib ''sigfillset'' []" "\<lambda>r. rv r = - 1"
    "\<lambda>_. err_state os True LOG_ERR ''sigfillset error''" "\<lambda>r. out_ints 0 r" for os
  by unfold_locales (simp add: Sigfillset_def Let_def)

interpretation w_Sigismember: fatal_wrapper "Sigismember os sigs signo" os "C_lib ''sigismember'' [V_ints sigs, V_int signo]" "\<lambda>r. rv r = - 1"
    "\<lambda>_. err_state os True LOG_ERR ''sigismember error''" "\<lambda>r. rv r" for os sigs signo
  by unfold_locales (simp add: Sigismember_def Let_def)

interpretation w_Sigpending: fatal_wrapper "Sigpending os" os "C_lib ''sigpending'' []" "\<lambda>r. rv r = - 1"
    "\<lambda>_. err_state os True LOG_ERR ''sigpending error''" "\<lambda>r. out_ints 0 r" for os
  by unfold_locales (simp add: Sigpending_def Let_def)

interpretation w_Sigprocmask: fatal_wrapper "Sigprocmask os how sigs" os "C_lib ''sigprocmask'' [V_int how, V_ints sigs]" "\<lambda>r. rv r = - 1"
    "\<lambda>_. err_state os True LOG_ERR ''sigprocmask error''" "\<lambda>r. out_ints 0 r" for os how sigs
  by unfold_locales (simp add: Sigprocmask_def Let_def)

interpretation w_Strdup: fatal_wrapper "Strdup os str" os "C_lib ''strdup'' [V_str str]" "\<lambda>r. rv r = 0"
    "\<lambda>_. err_state os True LOG_ERR ''strdup error''" "\<lambda>r. rv r" for os str
  by unfold_locales (simp add: Strdup_def Let_def)

interpretation w_Unlink: fatal_wrapper "Unlink os pathname" os "C_lib ''unlink'' [V_str pathname]" "\<lambda>r. rv r = - 1"
    "\<lambda>_. err_state os True LOG_ERR (''unlink error for '' @ pathname)" "\<lambda>r. ()" for os pathname
  by unfold_locales (simp add: Unlink_def Let_def)

interpretation w_Wait: fatal_wrapper "Wait os" os "C_lib ''wait'' []" "\<lambda>r. rv r = - 1"
    "\<lambda>_. err_state os True LOG_ERR ''wait error''" "\<lambda>r. (rv r, out_int r)" for os
  by unfold_locales (simp add: Wait_def Let_def)

interpretation w_Waitpid: fatal_wrapper "Waitpid os pid options" os "C_lib ''waitpid'' [V_int pid, V_int options]" "\<lambda>r. rv r = - 1"
    "\<lambda>_. err_state os True LOG_ERR ''waitpid error''" "\<lambda>r. (rv r, out_int r)" for os pid options
  by unfold_locales (simp add: Waitpid_def Let_def)

interpretation w_Write: fatal_wrapper "Write os fd bytes" os "C_write fd bytes" "\<lambda>r. rv r \<noteq> int (length bytes)"
    "\<lambda>_. err_state os True LOG_ERR ''write error''" "\<lambda>r. ()" for os fd bytes
  by unfold_locales (simp add: Write_def Let_def)

interpretation w_Bind: fatal_wrapper "Bind os fd sa salen" os "C_bind fd sa salen" "\<lambda>r. rv r < 0"
    "\<lambda>_. err_state os True LOG_ERR ''bind error''" "\<lambda>r. ()" for os fd sa salen
  by unfold_locales (simp add: Bind_def Let_def)

interpretation w_Connect: fatal_wrapper "Connect os fd sa salen" os "C_connect fd sa salen" "\<lambda>r. rv r < 0"
    "\<lambda>_. err_state os True LOG_ERR ''connect error''" "\<lambda>r. ()" for os fd sa salen
  by unfold_locales (simp add: Connect_def Let_def)

interpretation w_Getpeername: fatal_wrapper "Getpeername os fd" os "C_lib ''getpeername'' [V_int fd]" "\<lambda>r. rv r < 0"
    "\<lambda>_. err_state os True LOG_ERR ''getpeername error''" "\<lambda>r. out_addr r" for os fd
  by unfold_locales (simp add: Getpeername_def Let_def)

interpretation w_Getsockname: fatal_wrapper "Getsockname os fd" os "C_getsockname fd" "\<lambda>r. rv r < 0"
    "\<lambda>_. err_state os True LOG_ERR ''getsockname error''" "\<lambda>r. out_addr r" for os fd
  by unfold_locales (simp add: Getsockname_def Let_def)

interpretation w_Getsockopt: fatal_wrapper "Getsockopt os fd level optname" os "C_getsockopt fd level optname" "\<lambda>r. rv r < 0"
    "\<lambda>_. err_state os True LOG_ERR ''getsockopt error''" "\<lambda>r. outs r" for os fd level optname
  by unfold_locales (simp add: Getsockopt_def Let_def)

interpretation w_Inet6_rth_space: fatal_wrapper "Inet6_rth_space os ty segments" os "C_lib ''inet6_rth_space'' [V_int ty, V_int segments]" "\<lambda>r. rv r < 0"
    "\<lambda>_. err_state os False LOG_ERR ''inet6_rth_space error''" "\<lambda>r. rv r" for os ty segments
  by unfold_locales (simp add: Inet6_rth_space_def Let_def)

interpretation w_Inet6_rth_init: fatal_wrapper "Inet6_rth_init os rthlen ty segments" os "C_lib ''inet6_rth_init'' [V_int (int rthlen), V_int ty, V_int segments]" "\<lambda>r. rv r = 0"
    "\<lambda>_. err_state os False LOG_ERR ''inet6_rth_init error''" "\<lambda>r. out_bytes r" for os rthlen ty segments
  by unfold_locales (simp add: Inet6_rth_init_def Let_def)

interpretation w_Inet6_rth_add: fatal_wrapper "Inet6_rth_add os rthbuf addr" os "C_lib ''inet6_rth_add'' [V_bytes rthbuf, V_bytes addr]" "\<lambda>r. rv r < 0"
    "\<lambda>_. err_state os False LOG_ERR ''inet6_rth_add error''" "\<lambda>r. out_bytes r" for os rthbuf addr
  by unfold_locales (simp add: Inet6_rth_add_def Let_def)

interpretation w_Inet6_rth_reverse: fatal_wrapper "Inet6_rth_reverse os rthbuf" os "C_lib ''inet6_rth_reverse'' [V_bytes rthbuf]" "\<lambda>r. rv r < 0"
    "\<lambda>_. err_state os False LOG_ERR ''inet6_rth_reverse error''" "\<lambda>r. out_bytes r" for os rthbuf
  by unfold_locales (simp add: Inet6_rth_reverse_def Let_def)

interpretation w_Inet6_rth_segments: fatal_wrapper "Inet6_rth_segments os rthbuf" os "C_lib ''inet6_rth_segments'' [V_bytes rthbuf]" "\<lambda>r. rv r < 0"
    "\<lambda>_. err_state os False LOG_ERR ''inet6_rth_segments error''" "\<lambda>r. rv r" for os rthbuf
  by unfold_locales (simp add: Inet6_rth_segments_def Let_def)

interpretation w_Inet6_rth_getaddr: fatal_wrapper "Inet6_rth_getaddr os rthbuf idx" os "C_lib ''inet6_rth_getaddr'' [V_bytes rthbuf, V_int idx]" "\<lambda>r. rv r = 0"
    "\<lambda>_. err_state os False LOG_ERR ''inet6_rth_getaddr error''" "\<lambda>r. out_bytes r" for os rthbuf idx
  by unfold_locales (simp add: Inet6_rth_getaddr_def Let_def)

interpretation w_Poll: fatal_wrapper "Poll os fds events timeout" os "C_lib ''poll'' [V_ints fds, V_ints events, V_int timeout]" "\<lambda>r. rv r < 0"
    "\<lambda>_. err_state os True LOG_ERR ''poll error''" "\<lambda>r. r" for os fds events timeout
  by unfold_locales (simp add: Poll_def Let_def)

interpretation w_Recv: fatal_wrapper "Recv os fd nbytes flags" os "C_lib ''recv'' [V_int fd, V_int (int nbytes), V_int flags]" "\<lambda>r. rv r < 0"
    "\<lambda>_. err_state os True LOG_ERR ''recv error''" "\<lambda>r. r" for os fd nbytes flags
  by unfold_locales (simp add: Recv_def Let_def)

interpretation w_Recvfrom: fatal_wrapper "Recvfrom os fd nbytes flags" os "C_recvfrom fd nbytes flags" "\<lambda>r. rv r < 0"
    "\<lambda>_. err_state os True LOG_ERR ''recvfrom error''" "\<lambda>r. r" for os fd nbytes flags
  by unfold_locales (simp add: Recvfrom_def Let_def)

interpretation w_Recvmsg: fatal_wrapper "Recvmsg os fd flags" os "C_lib ''recvmsg'' [V_int fd, V_int flags]" "\<lambda>r. rv r < 0"
    "\<lambda>_. err_state os True LOG_ERR ''recvmsg error''" "\<lambda>r. r" for os fd flags
  by unfold_locales (simp add: Recvmsg_def Let_def)

interpretation w_Select: fatal_wrapper "Select os nfds readfds writefds exceptfds timeout" os "C_select nfds readfds writefds exceptfds timeout" "\<lambda>r. rv r < 0"
    "\<lambda>_. err_state os True LOG_ERR ''select error''" "\<lambda>r. r" for os nfds readfds writefds exceptfds timeout
  by unfold_locales (simp add: Select_def Let_def)

interpretation w_Send: fatal_wrapper "Send os fd bytes flags" os "C_lib ''send'' [V_int fd, V_bytes bytes, V_int flags]" "\<lambda>r. rv r \<noteq> int (length bytes)"
    "\<lambda>_. err_state os True LOG_ERR ''send error''" "\<lambda>r. ()" for os fd bytes flags
  by unfold_locales (simp add: Send_def Let_def)

interpretation w_Sendto: fatal_wrapper "Sendto os fd bytes flags sa salen" os "C_sendto fd bytes flags sa salen" "\<lambda>r. rv r \<noteq> int (length bytes)"
    "\<lambda>_. err_state os True LOG_ERR ''sendto error''" "\<lambda>r. ()" for os fd bytes flags sa salen
  by unfold_locales (simp add: Sendto_def Let_def)

interpretation w_Setsockopt: fatal_wrapper "Setsockopt os fd level optname optval" os "C_setsockopt fd level optname optval" "\<lambda>r. rv r < 0"
    "\<lambda>_. err_state os True LOG_ERR ''setsockopt error''" "\<lambda>r. ()" for os fd level optname optval
  by unfold_locales (simp add: Setsockopt_def Let_def)

interpretation w_Shutdown: fatal_wrapper "Shutdown os fd how" os "C_lib ''shutdown'' [V_int fd, V_int how]" "\<lambda>r. rv r < 0"
    "\<lambda>_. err_state os True LOG_ERR ''shutdown error''" "\<lambda>r. ()" for os fd how
  by unfold_locales (simp add: Shutdown_def Let_def)

interpretation w_Sockatmark: fatal_wrapper "Sockatmark os fd" os "C_lib ''sockatmark'' [V_int fd]" "\<lambda>r. rv r < 0"
    "\<lambda>_. err_state os True LOG_ERR ''sockatmark error''" "\<lambda>r. rv r" for os fd
  by unfold_locales (simp add: Sockatmark_def Let_def)

interpretation w_Socket: fatal_wrapper "Socket os family ty protocol" os "C_socket family ty protocol" "\<lambda>r. rv r < 0"
    "\<lambda>_. err_state os True LOG_ERR ''socket error''" "\<lambda>r. rv r" for os family ty protocol
  by unfold_locales (simp add: Socket_def Let_def)

interpretation w_Socketpair: fatal_wrapper "Socketpair os family ty protocol" os "C_lib ''socketpair'' [V_int family, V_int ty, V_int protocol]" "\<lambda>r. rv r < 0"
    "\<lambda>_. err_state os True LOG_ERR ''socketpair error''" "\<lambda>r. out_ints 0 r" for os family ty protocol
  by unfold_locales (simp add: Socketpair_def Let_def)

interpretation w_Fclose: fatal_wrapper "Fclose os fp" os "C_lib ''fclose'' [V_int fp]" "\<lambda>r. rv r \<noteq> 0"
    "\<lambda>_. err_state os True LOG_ERR ''fclose error''" "\<lambda>r. ()" for os fp
  by unfold_locales (simp add: Fclose_def Let_def)

interpretation w_Fdopen: fatal_wrapper "Fdopen os fd ty" os "C_lib ''fdopen'' [V_int fd, V_str ty]" "\<lambda>r. rv r = 0"
    "\<lambda>_. err_state os True LOG_ERR ''fdopen error''" "\<lambda>r. rv r" for os fd ty
  by unfold_locales (simp add: Fdopen_def Let_def)

interpretation w_Fopen: fatal_wrapper "Fopen os filename mode" os "C_lib ''fopen'' [V_str filename, V_str mode]" "\<lambda>r. rv r = 0"
    "\<lambda>_. err_state os True LOG_ERR ''fopen error''" "\<lambda>r. rv r" for os filename mode
  by unfold_locales (simp add: Fopen_def Let_def)

interpretation w_Fputs: fatal_wrapper "Fputs os ptr stream" os "C_fputs ptr stream" "\<lambda>r. rv r = - 1"
    "\<lambda>_. err_state os True LOG_ERR ''fputs error''" "\<lambda>r. ()" for os ptr stream
  by unfold_locales (simp add: Fputs_def Let_def)

interpretation w_Pthread_create: fatal_wrapper "Pthread_create os attr func arg" os "C_lib ''pthread_create'' [V_int attr, V_int func, V_int arg]" "\<lambda>r. rv r \<noteq> 0"
    "\<lambda>r s. err_state os True LOG_ERR ''pthread_create error'' (s\<lparr>errno := rv r\<rparr>)" "\<lambda>r. out_int r" for os attr func arg
  by unfold_locales (simp add: Pthread_create_def Let_def)

interpretation w_Pthread_join: fatal_wrapper "Pthread_join os tid" os "C_lib ''pthread_join'' [V_int tid]" "\<lambda>r. rv r \<noteq> 0"
    "\<lambda>r s. err_state os True LOG_ERR ''pthread_join error'' (s\<lparr>errno := rv r\<rparr>)" "\<lambda>r. out_int r" for os tid
  by unfold_locales (simp add: Pthread_join_def Let_def)

interpretation w_Pthread_detach: fatal_wrapper "Pthread_detach os tid" os "C_lib ''pthread_detach'' [V_int tid]" "\<lambda>r. rv r \<noteq> 0"
    "\<lambda>r s. err_state os True LOG_ERR ''pthread_detach error'' (s\<lparr>errno := rv r\<rparr>)" "\<lambda>r. ()" for os tid
  by unfold_locales (simp add: Pthread_detach_def Let_def)

interpretation w_Pthread_kill: fatal_wrapper "Pthread_kill os tid signo" os "C_lib ''pthread_kill'' [V_int tid, V_int signo]" "\<lambda>r. rv r \<noteq> 0"
    "\<lambda>r s. err_state os True LOG_ERR ''pthread_kill error'' (s\<lparr>errno := rv r\<rparr>)" "\<lambda>r. ()" for os tid signo
  by unfold_locales (simp add: Pthread_kill_def Let_def)

interpretation w_Pthread_mutexattr_init: fatal_wrapper "Pthread_mutexattr_init os attr" os "C_lib ''pthread_mutexattr_init'' [V_int attr]" "\<lambda>r. rv r \<noteq> 0"
    "\<lambda>r s. err_state os True LOG_ERR ''pthread_mutexattr_init error'' (s\<lparr>errno := rv r\<rparr>)" "\<lambda>r. ()" for os attr
  by unfold_locales (simp add: Pthread_mutexattr_init_def Let_def)

interpretation w_Pthread_mutexattr_setpshared: fatal_wrapper "Pthread_mutexattr_setpshared os attr flag" os "C_lib ''pthread_mutexattr_setpshared'' [V_int attr, V_int flag]" "\<lambda>r. rv r \<noteq> 0"
    "\<lambda>r s. err_state os True LOG_ERR ''pthread_mutexattr_setpshared error'' (s\<lparr>errno := rv r\<rparr>)" "\<lambda>r. ()" for os attr flag
  by unfold_locales (simp add: Pthread_mutexattr_setpshared_def Let_def)

interpretation w_Pthread_mutex_init: fatal_wrapper "Pthread_mutex_init os mptr attr" os "C_lib ''pthread_mutex_init'' [V_int mptr, V_int attr]" "\<lambda>r. rv r \<noteq> 0"
    "\<lambda>r s. err_state os True LOG_ERR ''pthread_mutex_init error'' (s\<lparr>errno := rv r\<rparr>)" "\<lambda>r. ()" for os mptr attr
  by unfold_locales (simp add: Pthread_mutex_init_def Let_def)

interpretation w_Pthread_mutex_lock: fatal_wrapper "Pthread_mutex_lock os mptr" os "C_lib ''pthread_mutex_lock'' [V_int mptr]" "\<lambda>r. rv r \<noteq> 0"
    "\<lambda>r s. err_state os True LOG_ERR ''pthread_mutex_lock error'' (s\<lparr>errno := rv r\<rparr>)" "\<lambda>r. ()" for os mptr
  by unfold_locales (simp add: Pthread_mutex_lock_def Let_def)

interpretation w_Pthread_mutex_unlock: fatal_wrapper "Pthread_mutex_unlock os mptr" os "C_lib ''pthread_mutex_unlock'' [V_int mptr]" "\<lambda>r. rv r \<noteq> 0"
    "\<lambda>r s. err_state os True LOG_ERR ''pthread_mutex_unlock error'' (s\<lparr>errno := rv r\<rparr>)" "\<lambda>r. ()" for os mptr
  by unfold_locales (simp add: Pthread_mutex_unlock_def Let_def)

interpretation w_Pthread_cond_broadcast: fatal_wrapper "Pthread_cond_broadcast os cptr" os "C_lib ''pthread_cond_broadcast'' [V_int cptr]" "\<lambda>r. rv r \<noteq> 0"
    "\<lambda>r s. err_state os True LOG_ERR ''pthread_cond_broadcast error'' (s\<lparr>errno := rv r\<rparr>)" "\<lambda>r. ()" for os cptr
  by unfold_locales (simp add: Pthread_cond_broadcast_def Let_def)

interpretation w_Pthread_cond_signal: fatal_wrapper "Pthread_cond_signal os cptr" os "C_lib ''pthread_cond_signal'' [V_int cptr]" "\<lambda>r. rv r \<noteq> 0"
    "\<lambda>r s. err_state os True LOG_ERR ''pthread_cond_signal error'' (s\<lparr>errno := rv r\<rparr>)" "\<lambda>r. ()" for os cptr
  by unfold_locales (simp add: Pthread_cond_signal_def Let_def)

interpretation w_Pthread_cond_wait: fatal_wrapper "Pthread_cond_wait os cptr mptr" os "C_lib ''pthread_cond_wait'' [V_int cptr, V_int mptr]" "\<lambda>r. rv r \<noteq> 0"
    "\<lambda>r s. err_state os True LOG_ERR ''pthread_cond_wait error'' (s\<lparr>errno := rv r\<rparr>)" "\<lambda>r. ()" for os cptr mptr
  by unfold_locales (simp add: Pthread_cond_wait_def Let_def)

interpretation w_Pthread_cond_timedwait: fatal_wrapper "Pthread_cond_timedwait os cptr mptr sec nsec" os "C_lib ''pthread_cond_timedwait'' [V_int cptr, V_int mptr, V_int sec, V_int nsec]" "\<lambda>r. rv r \<noteq> 0"
    "\<lambda>r s. err_state os True LOG_ERR ''pthread_cond_timedwait error'' (s\<lparr>errno := rv r\<rparr>)" "\<lambda>r. ()" for os cptr mptr sec nsec
  by unfold_locales (simp add: Pthread_cond_timedwait_def Let_def)

interpretation w_Pthread_once: fatal_wrapper "Pthread_once os ptr func" os "C_lib ''pthread_once'' [V_int ptr, V_int func]" "\<lambda>r. rv r \<noteq> 0"
    "\<lambda>r s. err_state os True LOG_ERR ''pthread_once error'' (s\<lparr>errno := rv r\<rparr>)" "\<lambda>r. ()" for os ptr func
  by unfold_locales (simp add: Pthread_once_def Let_def)

interpretation w_Pthread_key_create: fatal_wrapper "Pthread_key_create os func" os "C_lib ''pthread_key_create'' [V_int func]" "\<lambda>r. rv r \<noteq> 0"
    "\<lambda>r s. err_state os True LOG_ERR ''pthread_key_create error'' (s\<lparr>errno := rv r\<rparr>)" "\<lambda>r. out_int r" for os func
  by unfold_locales (simp add: Pthread_key_create_def Let_def)

interpretation w_Pthread_setspecific: fatal_wrapper "Pthread_setspecific os key val" os "C_lib ''pthread_setspecific'' [V_int key, V_int val]" "\<lambda>r. rv r \<noteq> 0"
    "\<lambda>r s. err_state os True LOG_ERR ''pthread_setspecific error'' (s\<lparr>errno := rv r\<rparr>)" "\<lambda>r. ()" for os key val
  by unfold_locales (simp add: Pthread_setspecific_def Let_def)

section \<open>Accept retries aborted connections\<close>

definition accept_transient :: "os \<Rightarrow> int \<Rightarrow> 'z proc_scheme \<Rightarrow> bool" where
  "accept_transient os fd s \<longleftrightarrow> rv (os (calls s) (C_accept fd)) < 0 \<and>
     errno (after os (C_accept fd) s) \<in> {EPROTO, ECONNABORTED}"

lemma Accept_transient:
  "accept_transient os fd s \<Longrightarrow> Accept os fd s = Accept os fd (after os (C_accept fd) s)"
  by (subst Accept.simps) (simp add: accept_transient_def)

lemma Accept_success:
  "0 \<le> rv (os (calls s) (C_accept fd)) \<Longrightarrow>
   Accept os fd s = Some (Ret (os (calls s) (C_accept fd)), after os (C_accept fd) s)"
  by (subst Accept.simps) simp

lemma Accept_failure:
  assumes "rv (os (calls s) (C_accept fd)) < 0" and "\<not> accept_transient os fd s"
  shows "Accept os fd s = Some (Exit 1, err_state os True LOG_ERR ''accept error'' (after os (C_accept fd) s))"
  using assms by (subst Accept.simps) (simp add: accept_transient_def)

lemma Accept_skip:
  "(\<And>i. i < k \<Longrightarrow> accept_transient os fd ((after os (C_accept fd) ^^ i) s)) \<Longrightarrow>
   Accept os fd s = Accept os fd ((after os (C_accept fd) ^^ k) s)"
proof (induction k)
  case 0
  then show ?case by simp
next
  case (Suc k)
  then have "Accept os fd s = Accept os fd ((after os (C_accept fd) ^^ k) s)" by simp
  also have "\<dots> = Accept os fd ((after os (C_accept fd) ^^ Suc k) s)"
    using Suc.prems[of k] by (simp add: Accept_transient)
  finally show ?case .
qed

text \<open>
  \<open>Accept\<close> hides every connection that was aborted before it was accepted (\<open>EPROTO\<close> or
  \<open>ECONNABORTED\<close>), however many there are, and then either returns the first established connection
  or, for any other error, ends the process with status 1 after reporting it.
\<close>

theorem Accept_retries:
  fixes s :: "'z proc_scheme"
  assumes "\<And>i. i < k \<Longrightarrow> accept_transient os fd ((after os (C_accept fd) ^^ i) s)"
    and "\<not> accept_transient os fd ((after os (C_accept fd) ^^ k) s)"
  defines "u \<equiv> (after os (C_accept fd) ^^ k) s"
  defines "r \<equiv> os (calls u) (C_accept fd)"
  shows "Accept os fd s =
    (if 0 \<le> rv r then Some (Ret r, after os (C_accept fd) u)
     else Some (Exit 1, err_state os True LOG_ERR ''accept error'' (after os (C_accept fd) u)))"
proof -
  have "Accept os fd s = Accept os fd u"
    unfolding u_def using assms(1) by (rule Accept_skip)
  then show ?thesis
    using assms(2) by (auto simp: r_def u_def Accept_success Accept_failure)
qed

theorem Accept_retries_witness:
  "Accept (scripted [fails EPROTO, fails ECONNABORTED, ok 7]) 3 fresh_proc =
   Some (Ret (ok 7), (after (scripted [fails EPROTO, fails ECONNABORTED, ok 7]) (C_accept 3) ^^ 3) fresh_proc)"
proof -
  let ?os = "scripted [fails EPROTO, fails ECONNABORTED, ok 7]"
  let ?u = "(after ?os (C_accept 3) ^^ 2) fresh_proc"
  have pre: "accept_transient ?os 3 ((after ?os (C_accept 3) ^^ i) fresh_proc)" if "i < 2" for i
  proof -
    from that have "i = 0 \<or> i = 1" by auto
    then show ?thesis
      by (auto simp: accept_transient_def scripted_def sysret_defs errno_after fresh_proc_def)
  qed
  have fin: "\<not> accept_transient ?os 3 ?u"
    by (simp add: accept_transient_def scripted_def sysret_defs fresh_proc_def numeral_2_eq_2)
  have r: "?os (calls ?u) (C_accept 3) = ok 7"
    by (simp add: scripted_def fresh_proc_def numeral_2_eq_2)
  show ?thesis
    using Accept_retries[of 2 ?os 3 fresh_proc, OF pre fin] r
    by (simp add: ok_def numeral_3_eq_3 numeral_2_eq_2)
qed

text \<open>
  The wrapper contract, for the socket and descriptor wrappers that the programs are built from:
  a wrapper returns if and only if its one call succeeded, it then returns what the call returned
  and has made no other call, and in every other case the process has ended with status 1. None of
  them can loop or abort.
\<close>

theorem wrapper_contract:
  fixes s :: "'z proc_scheme"
  shows "((Socket os fam ty pr s = Some (Ret n, t)) =
           (0 \<le> rv (os (calls s) (C_socket fam ty pr)) \<and> n = rv (os (calls s) (C_socket fam ty pr)) \<and>
            t = after os (C_socket fam ty pr) s)) \<and>
         ((Bind os fd sa l s = Some (Ret (), t)) =
           (0 \<le> rv (os (calls s) (C_bind fd sa l)) \<and> t = after os (C_bind fd sa l) s)) \<and>
         ((Connect os fd sa l s = Some (Ret (), t)) =
           (0 \<le> rv (os (calls s) (C_connect fd sa l)) \<and> t = after os (C_connect fd sa l) s)) \<and>
         ((Close os fd s = Some (Ret (), t)) =
           (rv (os (calls s) (C_close fd)) \<noteq> - 1 \<and> t = after os (C_close fd) s)) \<and>
         ((Write os fd bs s = Some (Ret (), t)) =
           (rv (os (calls s) (C_write fd bs)) = int (length bs) \<and> t = after os (C_write fd bs) s)) \<and>
         ((Read os fd m s = Some (Ret r, t)) =
           (rv (os (calls s) (C_read fd m)) \<noteq> - 1 \<and> r = os (calls s) (C_read fd m) \<and> t = after os (C_read fd m) s)) \<and>
         ((Pthread_mutex_lock os mp s = Some (Ret (), t)) =
           (rv (os (calls s) (C_lib ''pthread_mutex_lock'' [V_int mp])) = 0 \<and>
            t = after os (C_lib ''pthread_mutex_lock'' [V_int mp]) s)) \<and>
         ((\<exists>n t. Socket os fam ty pr s = Some (Ret n, t)) \<or> (\<exists>t. Socket os fam ty pr s = Some (Exit 1, t))) \<and>
         ((\<exists>r t. Read os fd m s = Some (Ret r, t)) \<or> (\<exists>t. Read os fd m s = Some (Exit 1, t))) \<and>
         ((\<exists>t. Write os fd bs s = Some (Ret (), t)) \<or> (\<exists>t. Write os fd bs s = Some (Exit 1, t))) \<and>
         ((\<exists>t. Pthread_mutex_lock os mp s = Some (Ret (), t)) \<or>
         (\<exists>t. Pthread_mutex_lock os mp s = Some (Exit 1, t) \<and>
              (let e = rv (os (calls s) (C_lib ''pthread_mutex_lock'' [V_int mp])) in
               t = err_state os True LOG_ERR ''pthread_mutex_lock error''
                     ((after os (C_lib ''pthread_mutex_lock'' [V_int mp]) s)\<lparr>errno := e\<rparr>))))"
  by (intro conjI) (auto simp: w_Socket.wraps w_Bind.wraps w_Connect.wraps w_Close.wraps w_Write.wraps w_Read.wraps
      w_Pthread_mutex_lock.wraps Let_def split: if_splits)

end
