(* ===== verification/Inet6.thy ===== *)
theory Inet6
  imports Inet4 Wrappers
begin

text \<open>
  IPv6 addresses in text and binary form: \<open>inet_pton6\<close> and \<open>inet_pton\<close> of libfree/inet_pton.c,
  \<open>inet_ntop6\<close> and \<open>inet_ntop\<close> of libfree/inet_ntop.c, and the wrappers of lib/wraplib.c. The arrays
  \<open>tmp\<close> are lists, the pointers \<open>tp\<close>, \<open>colonp\<close>, \<open>endp\<close> are indices into them (\<open>endp\<close> is 16), and
  the pointer \<open>curtok\<close> is the rest of the string at the current token.
\<close>

section \<open>inet_pton6\<close>

definition xdigit :: "char \<Rightarrow> nat option" where
  "xdigit ch = (case strchr xdigits_l ch of Some d \<Rightarrow> Some d | None \<Rightarrow> strchr xdigits_u ch)"

text \<open>Store a 16-bit group, most significant byte first.\<close>

definition store16 :: "byte list \<Rightarrow> nat \<Rightarrow> nat \<Rightarrow> byte list" where
  "store16 tmp tp val = tmp[tp := of_nat (val div 256), tp + 1 := of_nat (val mod 256)]"

fun store_bytes :: "byte list \<Rightarrow> nat \<Rightarrow> byte list \<Rightarrow> byte list" where
  "store_bytes tmp tp [] = tmp"
| "store_bytes tmp tp (b # bs) = store_bytes (tmp[tp := b]) (tp + 1) bs"

fun inet_pton6_loop ::
    "string \<Rightarrow> string \<Rightarrow> byte list \<Rightarrow> nat \<Rightarrow> nat option \<Rightarrow> bool \<Rightarrow> nat \<Rightarrow>
     (byte list \<times> nat \<times> nat option \<times> bool \<times> nat) option" where
  "inet_pton6_loop [] curtok tmp tp colonp saw_xdigit val = Some (tmp, tp, colonp, saw_xdigit, val)"
| "inet_pton6_loop (ch # src) curtok tmp tp colonp saw_xdigit val =
     (case xdigit ch of
        Some d \<Rightarrow>
          let val' = val * 16 + d in
          if val' > 0xffff then None else inet_pton6_loop src curtok tmp tp colonp True val'
      | None \<Rightarrow>
          if ch = CHR '':'' then
            if \<not> saw_xdigit then
              if colonp \<noteq> None then None
              else inet_pton6_loop src src tmp tp (Some tp) saw_xdigit val
            else if tp + 2 > 16 then None
            else inet_pton6_loop src src (store16 tmp tp val) (tp + 2) colonp False 0
          else if ch = CHR ''.'' \<and> tp + 4 \<le> 16 then
            (case inet_pton4 curtok of
               Some bs \<Rightarrow> Some (store_bytes tmp tp bs, tp + 4, colonp, False, val)
             | None \<Rightarrow> None)
          else None)"

text \<open>The shift that opens the gap of a double colon, one byte at a time from the end:
  \<open>endp[-i] = colonp[n - i]; colonp[n - i] = 0\<close> for \<open>i = 1, ..., n\<close>.\<close>

fun colon_shift :: "byte list \<Rightarrow> nat \<Rightarrow> nat \<Rightarrow> nat \<Rightarrow> nat \<Rightarrow> byte list" where
  "colon_shift tmp colonp n i 0 = tmp"
| "colon_shift tmp colonp n i (Suc k) =
     colon_shift (tmp[16 - i := tmp ! (colonp + n - i), colonp + n - i := 0]) colonp n (i + 1) k"

definition inet_pton6 :: "string \<Rightarrow> byte list option" where
  "inet_pton6 src0 =
     (let leading = (src0 \<noteq> [] \<and> hd src0 = CHR '':'');
          src = (if leading then tl src0 else src0) in
      if leading \<and> (src = [] \<or> hd src \<noteq> CHR '':'') then None
      else case inet_pton6_loop src src (replicate 16 0) 0 None False 0 of
        None \<Rightarrow> None
      | Some (tmp, tp, colonp, saw_xdigit, val) \<Rightarrow>
          if saw_xdigit \<and> tp + 2 > 16 then None
          else let tmp1 = (if saw_xdigit then store16 tmp tp val else tmp);
                   tp1 = (if saw_xdigit then tp + 2 else tp) in
               (case colonp of
                  Some c \<Rightarrow> Some (colon_shift tmp1 c (tp1 - c) 1 (tp1 - c))
                | None \<Rightarrow> if tp1 \<noteq> 16 then None else Some tmp1))"

section \<open>inet_ntop6\<close>

text \<open>The 16-bit groups of the address.\<close>

definition words_of :: "byte list \<Rightarrow> nat list" where
  "words_of src = map (\<lambda>i. unat (src ! (2 * i)) * 256 + unat (src ! (2 * i + 1))) [0..<8]"

text \<open>The search for the longest run of zero groups. A run is a pair of its base (-1 for none) and
  length.\<close>

type_synonym run = "int \<times> int"

definition best_of :: "run \<Rightarrow> run \<Rightarrow> run" where
  "best_of best cur = (if fst best = - 1 \<or> snd cur > snd best then cur else best)"

fun find_run :: "nat list \<Rightarrow> int \<Rightarrow> run \<Rightarrow> run \<Rightarrow> run" where
  "find_run [] i best cur = (if fst cur \<noteq> - 1 then best_of best cur else best)"
| "find_run (w # ws) i best cur =
     (if w = 0 then find_run ws (i + 1) best (if fst cur = - 1 then (i, 1) else (fst cur, snd cur + 1))
      else if fst cur \<noteq> - 1 then find_run ws (i + 1) (best_of best cur) (- 1, snd cur)
      else find_run ws (i + 1) best cur)"

definition best_run :: "nat list \<Rightarrow> run" where
  "best_run words = (let best = find_run words 0 (- 1, 0) (- 1, 0) in
     if fst best \<noteq> - 1 \<and> snd best < 2 then (- 1, snd best) else best)"

text \<open>The formatting loop, from group \<open>i\<close> on; the result is what it appends at \<open>tp\<close>. The nested call of
  \<open>inet_ntop4\<close> has \<open>sizeof tmp - (tp - tmp)\<close> bytes left, of which \<open>used\<close> are taken.\<close>

function format6 :: "byte list \<Rightarrow> nat list \<Rightarrow> run \<Rightarrow> nat \<Rightarrow> nat \<Rightarrow> int + string" where
  "format6 src words best i used =
     (if i \<ge> 8 then Inr []
      else if fst best \<noteq> - 1 \<and> int i \<ge> fst best \<and> int i < fst best + snd best
      then let out = (if int i = fst best then '':'' else []) in
           (case format6 src words best (i + 1) (used + length out) of Inl e \<Rightarrow> Inl e | Inr rest \<Rightarrow> Inr (out @ rest))
      else let out = (if i \<noteq> 0 then '':'' else []) in
           if i = 6 \<and> fst best = 0 \<and> (snd best = 6 \<or> snd best = 5 \<and> words ! 5 = 0xffff)
           then (case inet_ntop4 (drop 12 src) (46 - (used + length out)) of
                   Inl e \<Rightarrow> Inl e | Inr txt \<Rightarrow> Inr (out @ txt))
           else let out' = out @ print_radix 16 (words ! i) in
                (case format6 src words best (i + 1) (used + length out') of Inl e \<Rightarrow> Inl e | Inr rest \<Rightarrow> Inr (out' @ rest)))"
  by pat_completeness auto
termination
  by (relation "measure (\<lambda>(src, words, best, i, used). 8 - i)") auto

declare format6.simps [simp del]

definition inet_ntop6 :: "byte list \<Rightarrow> nat \<Rightarrow> int + string" where
  "inet_ntop6 src sz =
     (let words = words_of src; best = best_run words in
      case format6 src words best 0 0 of
        Inl e \<Rightarrow> Inl e
      | Inr txt \<Rightarrow>
          let tmp = txt @ (if fst best \<noteq> - 1 \<and> fst best + snd best = 8 then '':'' else []) in
          if length tmp + 1 > sz then Inl ENOSPC else Inr tmp)"

section \<open>inet_pton and inet_ntop\<close>

text \<open>\<open>Inl e\<close> is -1 (or a null pointer) with \<open>errno = e\<close>; for \<open>inet_pton\<close>, \<open>Inr None\<close> is 0.\<close>

definition inet_pton :: "int \<Rightarrow> string \<Rightarrow> int + byte list option" where
  "inet_pton af src = (if af = AF_INET then Inr (inet_pton4 src)
                       else if af = AF_INET6 then Inr (inet_pton6 src) else Inl EAFNOSUPPORT)"

definition inet_ntop :: "int \<Rightarrow> byte list \<Rightarrow> nat \<Rightarrow> int + string" where
  "inet_ntop af src sz = (if af = AF_INET then inet_ntop4 src sz
                          else if af = AF_INET6 then inet_ntop6 src sz else Inl EAFNOSUPPORT)"

text \<open>lib/wraplib.c. The destination of \<open>Inet_ntop\<close> is \<open>None\<close> for a null pointer, else its size.\<close>

definition Inet_ntop :: "os \<Rightarrow> int \<Rightarrow> byte list \<Rightarrow> nat option \<Rightarrow> ('z proc_scheme, string) cprog" where
  "Inet_ntop os family addr dst = (case dst of
       None \<Rightarrow> err_quit os ''NULL 3rd argument to inet_ntop''
     | Some len \<Rightarrow>
         (case inet_ntop family addr len of
            Inl e \<Rightarrow> cbind (set_errno e) (\<lambda>_. err_sys os ''inet_ntop error'')
          | Inr txt \<Rightarrow> creturn txt))"

definition Inet_pton :: "os \<Rightarrow> int \<Rightarrow> string \<Rightarrow> ('z proc_scheme, byte list) cprog" where
  "Inet_pton os family str = (case inet_pton family str of
       Inl e \<Rightarrow> cbind (set_errno e) (\<lambda>_. err_sys os (''inet_pton error for '' @ str))
     | Inr None \<Rightarrow> err_quit os (''inet_pton error for '' @ str)
     | Inr (Some bs) \<Rightarrow> creturn bs)"

section \<open>Parsing groups\<close>

lemma xdigit_nth: "d < 16 \<Longrightarrow> xdigit (xdigits_l ! d) = Some d"
  using strchr_nth[of xdigits_l d] by (simp add: xdigit_def xdigits_l_def)

lemma xdigit_colon [simp]: "xdigit CHR '':'' = None"
  by (simp add: xdigit_def xdigits_l_def xdigits_u_def)

lemma xdigit_dot [simp]: "xdigit CHR ''.'' = None"
  by (simp add: xdigit_def xdigits_l_def xdigits_u_def)

lemma loop_hex:
  "w \<le> 0xffff \<Longrightarrow>
   inet_pton6_loop (print_radix 16 w @ rest) ct tmp tp cp saw 0 = inet_pton6_loop rest ct tmp tp cp True w"
proof (induction w arbitrary: rest saw rule: less_induct)
  case (less w)
  show ?case
  proof (cases "w < 16")
    case True
    then show ?thesis by (simp add: print_radix_small xdigit_nth Let_def)
  next
    case False
    with less.prems less.IH[of "w div 16" "[xdigits_l ! (w mod 16)] @ rest" saw]
    show ?thesis by (simp add: print_radix_step xdigit_nth Let_def)
  qed
qed

text \<open>Digits of a decimal octet are hexadecimal digits, so the loop passes over them up to the dot.\<close>

lemma loop_decimal_digits:
  "n < 10 ^ k \<Longrightarrow> 0 < k \<Longrightarrow> k \<le> 4 \<Longrightarrow>
   \<exists>v < 16 ^ k. inet_pton6_loop (print_radix 10 n @ rest) ct tmp tp cp saw 0 = inet_pton6_loop rest ct tmp tp cp True v"
proof (induction k arbitrary: n rest)
  case (Suc k)
  show ?case
  proof (cases "n < 10")
    case True
    have "(16 :: nat) \<le> 16 ^ Suc k" by simp
    with True have "n < 16 ^ Suc k" by linarith
    with True show ?thesis by (intro exI[of _ n]) (simp add: print_radix_small xdigit_nth Let_def)
  next
    case False
    with Suc.prems have "n div 10 < 10 ^ k" "0 < k" by (auto intro!: gr0I)
    then obtain v where v: "v < 16 ^ k"
      "inet_pton6_loop (print_radix 10 (n div 10) @ [xdigits_l ! (n mod 10)] @ rest) ct tmp tp cp saw 0
        = inet_pton6_loop ([xdigits_l ! (n mod 10)] @ rest) ct tmp tp cp True v"
      using Suc.IH[of "n div 10" "[xdigits_l ! (n mod 10)] @ rest"] Suc.prems by auto
    have "n mod 10 < 16" using mod_less_divisor[of 10 n] by linarith
    then obtain d where d: "n mod 10 = d" "d < 16" by blast
    then have w: "v * 16 + d < 16 ^ Suc k" using v(1) by simp
    also have "16 ^ Suc k \<le> (16 :: nat) ^ 4" using Suc.prems by (intro power_increasing) simp_all
    finally show ?thesis
      using w v(2) False d by (intro exI[of _ "v * 16 + d"]) (simp add: print_radix_step xdigit_nth Let_def)
  qed
qed simp

lemma loop_decimal:
  "\<exists>v. inet_pton6_loop (print_radix 10 (unat (b :: byte)) @ rest) ct tmp tp cp saw 0 = inet_pton6_loop rest ct tmp tp cp True v"
  using loop_decimal_digits[of "unat b" 3 rest ct tmp tp cp saw] unat_byte_le[of b] by fastforce

section \<open>The address as groups\<close>

definition bytes16 :: "nat list \<Rightarrow> byte list" where
  "bytes16 ws = concat (map (\<lambda>w. [of_nat (w div 256), of_nat (w mod 256)]) ws)"

definition pad :: "byte list \<Rightarrow> byte list" where
  "pad bs = bs @ replicate (16 - length bs) 0"

definition colon_groups :: "nat list \<Rightarrow> string" where
  "colon_groups ws = concat (map (\<lambda>w. CHR '':'' # print_radix 16 w) ws)"

definition groups :: "nat list \<Rightarrow> string" where
  "groups ws = (case ws of [] \<Rightarrow> [] | w # ws' \<Rightarrow> print_radix 16 w @ colon_groups ws')"

lemma bytes16_simps [simp]:
  "bytes16 [] = []" "bytes16 (w # ws) = of_nat (w div 256) # of_nat (w mod 256) # bytes16 ws"
  "bytes16 (us @ vs) = bytes16 us @ bytes16 vs"
  by (simp_all add: bytes16_def)

lemma length_bytes16 [simp]: "length (bytes16 ws) = 2 * length ws"
  by (induction ws) simp_all

lemma bytes16_zeros: "bytes16 (replicate n 0) = replicate (2 * n) 0"
  by (induction n) simp_all

lemma colon_groups_simps [simp]:
  "colon_groups [] = []" "colon_groups (w # ws) = CHR '':'' # print_radix 16 w @ colon_groups ws"
  by (simp_all add: colon_groups_def)

lemma bytes16_words_of: "length src = 16 \<Longrightarrow> bytes16 (words_of src) = src"
proof -
  assume l: "length src = 16"
  have "[0..<8] = [0, 1, 2, 3, 4, 5, 6, 7::nat]" by (simp add: upt_rec)
  moreover have "of_nat ((unat a * 256 + unat b) div 256) = a" "of_nat ((unat a * 256 + unat b) mod 256) = b" for a b :: byte
    using unat_byte_le[of b] by simp_all
  ultimately have "bytes16 (words_of src) = map ((!) src) [0, 1, 2, 3, 4, 5, 6, 7, 8, 9, 10, 11, 12, 13, 14, 15]"
    by (simp add: words_of_def)
  also have "[0, 1, 2, 3, 4, 5, 6, 7, 8, 9, 10, 11, 12, 13, 14, 15] = [0..<length src]"
    unfolding l by (simp add: upt_rec)
  finally show ?thesis by (simp add: map_nth)
qed

lemma words_of_bound: "w \<in> set (words_of src) \<Longrightarrow> w \<le> 0xffff"
proof -
  have "unat (a :: byte) * 256 + unat (b :: byte) \<le> 0xffff" for a b
    using unat_byte_le[of a] unat_byte_le[of b] by simp
  then show "w \<in> set (words_of src) \<Longrightarrow> ?thesis" by (auto simp: words_of_def)
qed

lemma length_words_of [simp]: "length (words_of src) = 8"
  by (simp add: words_of_def)

lemma store16_pad:
  assumes "length bs + 2 \<le> 16"
  shows "store16 (pad bs) (length bs) w = pad (bs @ bytes16 [w])"
proof -
  obtain k where k: "16 - length bs = Suc (Suc k)" using assms by (intro that[of "14 - length bs"]) simp
  then have "16 - (2 + length bs) = k" by simp
  with k show ?thesis by (simp add: store16_def pad_def list_update_append nth_append)
qed

lemma store_bytes_at: "store_bytes (us @ ys @ zs) (length us) xs = us @ xs @ zs" if "length ys = length xs"
  using that
proof (induction xs arbitrary: us ys)
  case (Cons x xs)
  then obtain y ys' where ys: "ys = y # ys'" "length ys' = length xs" by (cases ys) auto
  then show ?case using Cons.IH[of ys' "us @ [x]"] by (simp add: list_update_append)
qed simp

lemma store_bytes_pad:
  assumes "length bs + length xs \<le> 16"
  shows "store_bytes (pad bs) (length bs) xs = pad (bs @ xs)"
proof -
  have "16 - length bs = length xs + (16 - (length bs + length xs))" using assms by simp
  then have "replicate (16 - length bs) (0::byte)
      = replicate (length xs) 0 @ replicate (16 - (length bs + length xs)) 0"
    by (metis replicate_add)
  then show ?thesis using store_bytes_at[of "replicate (length xs) 0" xs bs] by (simp add: pad_def)
qed

lemma loop_colon_groups:
  "length bs + 2 * length ws \<le> 16 \<Longrightarrow> \<forall>x\<in>set ws. x \<le> 0xffff \<Longrightarrow>
   \<exists>ct'. inet_pton6_loop (colon_groups ws @ rest) ct (pad bs) (length bs) cp True w
     = inet_pton6_loop rest ct' (pad (bs @ bytes16 (butlast (w # ws)))) (length bs + 2 * length ws) cp True (last (w # ws))"
proof (induction ws arbitrary: bs w ct)
  case Nil
  then show ?case by auto
next
  case (Cons x ws)
  let ?ct = "print_radix 16 x @ colon_groups ws @ rest"
  have "inet_pton6_loop (colon_groups (x # ws) @ rest) ct (pad bs) (length bs) cp True w
      = inet_pton6_loop (colon_groups ws @ rest) ?ct (pad (bs @ bytes16 [w])) (length (bs @ bytes16 [w])) cp True x"
    using Cons.prems by (simp add: store16_pad loop_hex)
  also obtain ct' where "\<dots> = inet_pton6_loop rest ct' (pad ((bs @ bytes16 [w]) @ bytes16 (butlast (x # ws))))
      (length (bs @ bytes16 [w]) + 2 * length ws) cp True (last (x # ws))"
    using Cons.IH[of "bs @ bytes16 [w]" ?ct x] Cons.prems by auto
  finally show ?case by (intro exI[of _ ct']) simp
qed

text \<open>What is left to do after the loop: the store of a last group.\<close>

definition finish :: "byte list \<times> nat \<times> nat option \<times> bool \<times> nat \<Rightarrow> (byte list \<times> nat \<times> nat option) option" where
  "finish = (\<lambda>(tmp, tp, colonp, saw_xdigit, val).
     if saw_xdigit \<and> tp + 2 > 16 then None
     else Some (if saw_xdigit then store16 tmp tp val else tmp, if saw_xdigit then tp + 2 else tp, colonp))"

lemma loop_groups:
  assumes "length bs + 2 * length ws \<le> 16" and "\<forall>x\<in>set ws. x \<le> 0xffff"
  shows "Option.bind (inet_pton6_loop (groups ws) ct (pad bs) (length bs) cp False 0) finish
    = Some (pad (bs @ bytes16 ws), length bs + 2 * length ws, cp)"
proof (cases ws)
  case Nil
  then show ?thesis by (simp add: groups_def finish_def)
next
  case (Cons w ws')
  have "inet_pton6_loop (groups ws) ct (pad bs) (length bs) cp False 0
      = inet_pton6_loop (colon_groups ws' @ []) ct (pad bs) (length bs) cp True w"
    using assms Cons by (simp add: groups_def loop_hex)
  also obtain ct' where "\<dots> = inet_pton6_loop [] ct' (pad (bs @ bytes16 (butlast ws))) (length bs + 2 * length ws') cp True (last ws)"
    using loop_colon_groups[of bs ws' "[]" ct cp w] assms Cons by auto
  finally have l: "inet_pton6_loop (groups ws) ct (pad bs) (length bs) cp False 0
      = Some (pad (bs @ bytes16 (butlast ws)), length (bs @ bytes16 (butlast ws)), cp, True, last ws)"
    using Cons by simp
  have "bytes16 ws = bytes16 (butlast ws) @ bytes16 [last ws]"
    using Cons by (metis append_butlast_last_id bytes16_simps(3) list.distinct(1))
  moreover have "length (bs @ bytes16 (butlast ws)) + 2 \<le> 16" using assms Cons by simp
  ultimately show ?thesis
    using l assms Cons store16_pad[of "bs @ bytes16 (butlast ws)" "last ws"] by (simp add: finish_def)
qed

lemma loop_groups_colon:
  assumes "length bs + 2 * length ws \<le> 16" and "\<forall>x\<in>set ws. x \<le> 0xffff" and "ws \<noteq> []"
  shows "inet_pton6_loop (groups ws @ CHR '':'' # rest) ct (pad bs) (length bs) cp False 0
    = inet_pton6_loop rest rest (pad (bs @ bytes16 ws)) (length bs + 2 * length ws) cp False 0"
proof -
  obtain w ws' where ws: "ws = w # ws'" using assms(3) by (cases ws) auto
  have "inet_pton6_loop (groups ws @ CHR '':'' # rest) ct (pad bs) (length bs) cp False 0
      = inet_pton6_loop (colon_groups ws' @ CHR '':'' # rest) ct (pad bs) (length bs) cp True w"
    using assms ws by (simp add: groups_def loop_hex)
  also obtain ct' where "\<dots> = inet_pton6_loop (CHR '':'' # rest) ct' (pad (bs @ bytes16 (butlast ws))) (length (bs @ bytes16 (butlast ws))) cp True (last ws)"
    using loop_colon_groups[of bs ws' "CHR '':'' # rest" ct cp w] assms ws by auto
  also have "bytes16 ws = bytes16 (butlast ws) @ bytes16 [last ws]"
    using ws by (metis append_butlast_last_id bytes16_simps(3) list.distinct(1))
  then have "inet_pton6_loop (CHR '':'' # rest) ct' (pad (bs @ bytes16 (butlast ws))) (length (bs @ bytes16 (butlast ws))) cp True (last ws)
      = inet_pton6_loop rest rest (pad (bs @ bytes16 ws)) (length bs + 2 * length ws) cp False 0"
    using assms ws store16_pad[of "bs @ bytes16 (butlast ws)" "last ws"] by simp
  finally show ?thesis .
qed

section \<open>The gap of a double colon\<close>

lemma colon_shift_gap:
  assumes "length bs + n + g = 16" and "0 < g" and "length post = n" and "k \<le> n"
  shows "colon_shift (bs @ take k post @ replicate g 0 @ drop k post) (length bs) n (n - k + 1) k
    = bs @ replicate g 0 @ post"
  using assms(4)
proof (induction k)
  case (Suc k)
  let ?tmp = "bs @ take (Suc k) post @ replicate g 0 @ drop (Suc k) post"
  have i: "16 - (n - Suc k + 1) = length bs + k + g" "length bs + n - (n - Suc k + 1) = length bs + k"
    using Suc.prems assms by simp_all
  have t: "take (Suc k) post = take k post @ [post ! k]" using Suc.prems assms by (simp add: take_Suc_conv_app_nth)
  obtain g' where g: "g = Suc g'" using assms(2) by (cases g) auto
  have r: "replicate g (0::byte) = replicate g' 0 @ [0]" by (simp add: g replicate_append_same)
  have nth: "?tmp ! (length bs + k) = post ! k" using Suc.prems assms by (simp add: nth_append t)
  have "?tmp[length bs + k + g := post ! k, length bs + k := 0]
      = bs @ take k post @ [0] @ replicate g' 0 @ [post ! k] @ drop (Suc k) post"
    using Suc.prems assms unfolding t r by (simp add: list_update_append g)
  also have "\<dots> = bs @ take k post @ replicate g 0 @ drop k post"
    using Suc.prems assms by (simp add: g Cons_nth_drop_Suc)
  finally show ?case
    using Suc.IH Suc.prems nth i by (simp add: Suc_diff_Suc)
qed simp

lemma colon_shift_pad:
  assumes "length bs + length post < 16"
  shows "colon_shift (pad (bs @ post)) (length bs) (length post) 1 (length post)
    = bs @ replicate (16 - (length bs + length post)) 0 @ post"
  using colon_shift_gap[of bs "length post" "16 - (length bs + length post)" post "length post"] assms
  by (simp add: pad_def)

section \<open>The longest run of zero groups\<close>

definition zrun :: "nat list \<Rightarrow> int \<Rightarrow> int \<Rightarrow> bool" where
  "zrun ws b l \<longleftrightarrow> 0 \<le> b \<and> 1 \<le> l \<and> b + l \<le> int (length ws) \<and>
     (\<forall>j. b \<le> int j \<and> int j < b + l \<longrightarrow> ws ! j = 0)"

definition run_inv :: "nat list \<Rightarrow> run \<Rightarrow> run \<Rightarrow> bool" where
  "run_inv ws best cur \<longleftrightarrow>
     (fst best \<noteq> - 1 \<longrightarrow> zrun ws (fst best) (snd best)) \<and>
     (fst cur \<noteq> - 1 \<longrightarrow> zrun ws (fst cur) (snd cur) \<and> fst cur + snd cur = int (length ws)) \<and>
     (\<forall>b l. zrun ws b l \<longrightarrow> (fst best \<noteq> - 1 \<and> l \<le> snd best) \<or> (fst cur \<noteq> - 1 \<and> fst cur \<le> b)) \<and>
     (\<forall>b l. zrun ws b l \<longrightarrow> b + l = int (length ws) \<longrightarrow> fst cur \<noteq> - 1 \<and> fst cur \<le> b)"

lemma zrun_append: "zrun ws b l \<Longrightarrow> zrun (ws @ [w]) b l"
  by (auto simp: zrun_def nth_append)

lemma zrun_append_shorter: "zrun (ws @ [w]) b l \<Longrightarrow> b + l \<le> int (length ws) \<Longrightarrow> zrun ws b l"
  unfolding zrun_def by (auto simp: nth_append split: if_splits)

lemma zrun_butlast: "zrun (ws @ [w]) b l \<Longrightarrow> 1 < l \<Longrightarrow> zrun ws b (l - 1)"
  unfolding zrun_def by (auto simp: nth_append split: if_splits)

lemma zrun_last: "zrun (ws @ [w]) b l \<Longrightarrow> b + l = int (length ws) + 1 \<Longrightarrow> w = 0"
  unfolding zrun_def by (elim conjE allE[of _ "length ws"]) simp

lemma zrun_grow: "zrun ws b l \<Longrightarrow> b + l = int (length ws) \<Longrightarrow> zrun (ws @ [0]) b (l + 1)"
  unfolding zrun_def by (auto simp: nth_append)

lemma zrun_new: "zrun (ws @ [0]) (int (length ws)) 1"
  unfolding zrun_def by (auto simp: nth_append)

lemma zrun_len: "zrun ws b l \<Longrightarrow> b + l \<le> int (length ws)"
  by (simp add: zrun_def)

lemma zrun_range: "zrun ws b l \<Longrightarrow> 0 \<le> b \<and> 1 \<le> l"
  by (simp add: zrun_def)

lemma run_inv_zero:
  assumes "run_inv ws best cur"
  shows "run_inv (ws @ [0]) best (if fst cur = - 1 then (int (length ws), 1) else (fst cur, snd cur + 1))"
proof -
  let ?cur = "if fst cur = - 1 then (int (length ws), 1) else (fst cur, snd cur + 1)"
  have ends: "fst ?cur \<noteq> - 1 \<and> fst ?cur \<le> b" if r: "zrun (ws @ [0]) b l" and e: "b + l = int (length (ws @ [0]))" for b l
  proof (cases "l = 1")
    case True
    with assms e zrun_len zrun_range show ?thesis by (fastforce simp: run_inv_def)
  next
    case False
    then have "zrun ws b (l - 1)" using r zrun_range[OF r] by (intro zrun_butlast) auto
    moreover have "b + (l - 1) = int (length ws)" using e by simp
    ultimately show ?thesis using assms by (auto simp: run_inv_def)
  qed
  have all: "(fst best \<noteq> - 1 \<and> l \<le> snd best) \<or> (fst ?cur \<noteq> - 1 \<and> fst ?cur \<le> b)" if r: "zrun (ws @ [0]) b l" for b l
  proof (cases "b + l = int (length (ws @ [0]))")
    case True
    then show ?thesis using ends[OF r] by simp
  next
    case False
    then have "zrun ws b l" using zrun_len[OF r] by (intro zrun_append_shorter[OF r]) simp
    then show ?thesis using assms by (auto simp: run_inv_def)
  qed
  show ?thesis
    unfolding run_inv_def using assms ends all
    by (auto simp: run_inv_def intro: zrun_append zrun_grow zrun_new)
qed

lemma run_inv_nonzero:
  assumes "run_inv ws best cur" and "w \<noteq> 0"
  shows "run_inv (ws @ [w]) (if fst cur \<noteq> - 1 then best_of best cur else best) (- 1, snd cur)"
proof -
  let ?best = "if fst cur \<noteq> - 1 then best_of best cur else best"
  have short: "zrun ws b l" if r: "zrun (ws @ [w]) b l" for b l
    using zrun_last[OF r] zrun_len[OF r] assms(2) by (intro zrun_append_shorter[OF r]) fastforce
  have "fst ?best \<noteq> - 1 \<and> l \<le> snd ?best" if "zrun ws b l" for b l
    using assms(1) that zrun_len[OF that] unfolding run_inv_def best_of_def by (smt (verit))
  with short have "\<forall>b l. zrun (ws @ [w]) b l \<longrightarrow> fst ?best \<noteq> - 1 \<and> l \<le> snd ?best" by blast
  moreover have "fst ?best \<noteq> - 1 \<longrightarrow> zrun (ws @ [w]) (fst ?best) (snd ?best)"
    using assms(1) by (auto simp: run_inv_def best_of_def intro: zrun_append)
  moreover have "\<not> zrun (ws @ [w]) b l" if "b + l = int (length (ws @ [w]))" for b l
    using zrun_last[of ws w b l] assms(2) that by auto
  ultimately show ?thesis by (auto simp: run_inv_def)
qed

definition longest_run :: "nat list \<Rightarrow> run \<Rightarrow> bool" where
  "longest_run ws best \<longleftrightarrow> (fst best \<noteq> - 1 \<longrightarrow> zrun ws (fst best) (snd best)) \<and>
     (\<forall>b l. zrun ws b l \<longrightarrow> fst best \<noteq> - 1 \<and> l \<le> snd best)"

lemma run_inv_end:
  assumes "run_inv ws best cur"
  shows "longest_run ws (if fst cur \<noteq> - 1 then best_of best cur else best)"
proof -
  let ?best = "if fst cur \<noteq> - 1 then best_of best cur else best"
  have "fst ?best \<noteq> - 1 \<and> l \<le> snd ?best" if "zrun ws b l" for b l
    using assms that zrun_len[OF that] unfolding run_inv_def best_of_def by (smt (verit))
  moreover have "fst ?best \<noteq> - 1 \<longrightarrow> zrun ws (fst ?best) (snd ?best)"
    using assms by (auto simp: run_inv_def best_of_def)
  ultimately show ?thesis by (simp add: longest_run_def)
qed

lemma find_run_longest:
  "run_inv pre best cur \<Longrightarrow> longest_run (pre @ ws) (find_run ws (int (length pre)) best cur)"
proof (induction ws arbitrary: pre best cur)
  case Nil
  then show ?case using run_inv_end[of pre best cur] by (simp split: if_splits)
next
  case (Cons w ws)
  have len: "int (length (pre @ [w])) = int (length pre) + 1" by simp
  show ?case
  proof (cases "w = 0")
    case True
    then show ?thesis
      using Cons.IH[OF run_inv_zero[OF Cons.prems]] len by (simp add: add.commute split: if_splits)
  next
    case False
    have "fst cur = - 1 \<Longrightarrow> (- 1, snd cur) = cur" by (metis prod.collapse)
    then show ?thesis
      using False Cons.IH[OF run_inv_nonzero[OF Cons.prems False]] len
      by (auto simp: add.commute split: if_splits)
  qed
qed

text \<open>The run chosen for a double colon: zero groups, at least two of them, and no longer run.\<close>

lemma best_run_spec:
  obtains "fst (best_run ws) = - 1" "\<And>b l. zrun ws b l \<Longrightarrow> l < 2"
  | b l where "best_run ws = (int b, int l)" "2 \<le> l" "zrun ws (int b) (int l)"
      "\<And>b' l'. zrun ws b' l' \<Longrightarrow> l' \<le> int l"
proof -
  let ?f = "find_run ws 0 (- 1, 0) (- 1, 0)"
  have "run_inv [] (- 1, 0) (- 1, 0)" by (auto simp: run_inv_def zrun_def)
  from find_run_longest[OF this, of ws] have f: "longest_run ws ?f" by simp
  show thesis
  proof (cases "fst ?f = - 1 \<or> snd ?f < 2")
    case True
    then have "fst (best_run ws) = - 1" by (auto simp: best_run_def Let_def)
    moreover have "l < 2" if "zrun ws b l" for b l using True f that by (fastforce simp: longest_run_def)
    ultimately show thesis by (rule that(1))
  next
    case False
    then have "best_run ws = ?f" by (auto simp: best_run_def Let_def)
    moreover have z: "zrun ws (fst ?f) (snd ?f)" using False f by (simp add: longest_run_def)
    then have "?f = (int (nat (fst ?f)), int (nat (snd ?f)))" using zrun_range[OF z] by (simp add: prod_eq_iff)
    moreover have "2 \<le> nat (snd ?f)" using False by linarith
    ultimately show thesis using that(2)[of "nat (fst ?f)" "nat (snd ?f)"] z zrun_range[OF z] f
      by (auto simp: longest_run_def)
  qed
qed

section \<open>The text of an address\<close>

definition is_mapped :: "nat list \<Rightarrow> run \<Rightarrow> bool" where
  "is_mapped words best \<longleftrightarrow> fst best = 0 \<and> (snd best = 6 \<or> snd best = 5 \<and> words ! 5 = 0xffff)"

lemma format6_group:
  assumes "i < 8" and "\<not> (fst best \<noteq> - 1 \<and> fst best \<le> int i \<and> int i < fst best + snd best)"
    and "\<not> is_mapped words best"
    and "\<And>u. format6 src words best (i + 1) u = Inr rest"
  shows "format6 src words best i used = Inr ((if i \<noteq> 0 then '':'' else []) @ print_radix 16 (words ! i) @ rest)"
  using assms by (subst format6.simps) (auto simp: Let_def is_mapped_def)

lemma format6_groups:
  assumes "\<not> is_mapped words best" and "length words = 8"
    and "\<And>u. format6 src words best k u = Inr rest" and "k \<le> 8"
    and "\<And>i. i < k \<Longrightarrow> m \<le> i \<Longrightarrow> \<not> (fst best \<noteq> - 1 \<and> fst best \<le> int i \<and> int i < fst best + snd best)"
  shows "0 < j \<Longrightarrow> m \<le> j \<Longrightarrow> j \<le> k \<Longrightarrow>
    format6 src words best j used = Inr (colon_groups (take (k - j) (drop j words)) @ rest)"
proof (induction "k - j" arbitrary: j used)
  case 0
  then show ?case using assms(3) by simp
next
  case (Suc d)
  then have j: "j < k" "j < 8" using assms(4) by simp_all
  have "format6 src words best (j + 1) u = Inr (colon_groups (take (k - (j + 1)) (drop (j + 1) words)) @ rest)" for u
    using Suc j by (intro Suc.hyps(1)) auto
  from format6_group[OF j(2) assms(5)[OF j(1)] assms(1) this] Suc.prems
  have "format6 src words best j used
      = Inr (CHR '':'' # print_radix 16 (words ! j) @ colon_groups (take (k - (j + 1)) (drop (j + 1) words)) @ rest)" by simp
  moreover have "take (k - j) (drop j words) = words ! j # take (k - (j + 1)) (drop (j + 1) words)"
    using j assms(2) by (metis Cons_nth_drop_Suc Suc_diff_Suc Suc_eq_plus1 take_Suc_Cons)
  ultimately show ?case by simp
qed

lemma format6_end: "format6 src words best 8 used = Inr []"
  by (subst format6.simps) simp

lemma format6_after:
  assumes "\<not> is_mapped words best" and "length words = 8" and "0 < j" "j \<le> 8"
    and "fst best = - 1 \<or> fst best + snd best \<le> int j"
  shows "format6 src words best j used = Inr (colon_groups (drop j words))"
  using format6_groups[OF assms(1,2) format6_end, where j = j and m = j] assms by auto

lemma format6_in_run:
  assumes "best = (int b, int l)" and "b + l \<le> 8"
  shows "b < i \<Longrightarrow> i \<le> b + l \<Longrightarrow> format6 src words best i used = format6 src words best (b + l) used"
proof (induction "b + l - i" arbitrary: i)
  case (Suc d)
  have i: "b < i" "i < b + l" "i < 8" using Suc.hyps(2) Suc.prems assms(2) by simp_all
  then have "format6 src words best i used = format6 src words best (i + 1) used"
    by (subst format6.simps) (simp add: assms(1) split: sum.splits)
  then show ?case using Suc.hyps(1)[of "i + 1"] Suc.hyps(2) Suc.prems by simp
qed simp

lemma format6_run:
  assumes "best = (int b, int l)" and "b + l \<le> 8" and "0 < l"
    and "format6 src words best (b + l) (used + 1) = Inr rest"
  shows "format6 src words best b used = Inr (CHR '':'' # rest)"
  using assms format6_in_run[OF assms(1,2), of "b + 1" src words "used + 1"]
  by (subst format6.simps) (simp add: Let_def)

lemma length_colon_groups: "\<forall>w\<in>set ws. w \<le> 0xffff \<Longrightarrow> length (colon_groups ws) \<le> 5 * length ws"
proof (induction ws)
  case (Cons w ws)
  then have "length (print_radix 16 w) \<le> 4" by (intro length_print_radix) auto
  with Cons show ?case by simp
qed simp

lemma length_groups: "\<forall>w\<in>set ws. w \<le> 0xffff \<Longrightarrow> length (groups ws) \<le> 5 * length ws"
proof (cases ws)
  case (Cons w ws')
  assume b: "\<forall>w\<in>set ws. w \<le> 0xffff"
  then have "length (print_radix 16 w) \<le> 4" using Cons by (intro length_print_radix) auto
  with Cons b length_colon_groups[of ws'] show ?thesis by (simp add: groups_def)
qed (simp add: groups_def)

lemma inet_pton6_unfold:
  assumes "src = [] \<or> hd src \<noteq> CHR '':''"
  shows "inet_pton6 src = Option.bind (Option.bind (inet_pton6_loop src src (replicate 16 0) 0 None False 0) finish)
    (\<lambda>(tmp, tp, colonp). case colonp of Some c \<Rightarrow> Some (colon_shift tmp c (tp - c) 1 (tp - c))
                                     | None \<Rightarrow> if tp \<noteq> 16 then None else Some tmp)"
  using assms by (auto simp: inet_pton6_def Let_def finish_def split: option.splits prod.splits)

lemma inet_pton6_unfold_colons:
  "inet_pton6 (CHR '':'' # CHR '':'' # src) =
   Option.bind (Option.bind (inet_pton6_loop src src (replicate 16 0) 0 (Some 0) False 0) finish)
    (\<lambda>(tmp, tp, colonp). case colonp of Some c \<Rightarrow> Some (colon_shift tmp c (tp - c) 1 (tp - c))
                                     | None \<Rightarrow> if tp \<noteq> 16 then None else Some tmp)"
  by (auto simp: inet_pton6_def Let_def finish_def split: option.splits prod.splits)

lemma pad_Nil: "pad [] = replicate 16 0"
  by (simp add: pad_def)

lemma hd_groups: "ws \<noteq> [] \<Longrightarrow> \<forall>w\<in>set ws. w \<le> 0xffff \<Longrightarrow> groups ws @ rest = [] \<or> hd (groups ws @ rest) \<noteq> CHR '':''"
proof -
  have "hd (print_radix 16 w) \<noteq> CHR '':''" for w
  proof (induction w rule: less_induct)
    case (less w)
    show ?case
    proof (cases "w < 16")
      case True
      then have "xdigit (xdigits_l ! w) = Some w" by (rule xdigit_nth)
      then show ?thesis using True by (auto simp: print_radix_small)
    next
      case False
      then show ?thesis using less.IH[of "w div 16"] by (simp add: print_radix_step print_radix_nonempty)
    qed
  qed
  moreover assume "ws \<noteq> []"
  ultimately show ?thesis by (cases ws) (auto simp: groups_def print_radix_nonempty)
qed

lemma parse_plain:
  assumes "length ws = 8" and "\<forall>w\<in>set ws. w \<le> 0xffff"
  shows "inet_pton6 (groups ws) = Some (bytes16 ws)"
proof -
  have "ws \<noteq> []" using assms(1) by auto
  from hd_groups[OF this assms(2), of "[]"] loop_groups[of "[]" ws "groups ws" None] assms
  show ?thesis by (simp add: inet_pton6_unfold pad_Nil) (simp add: pad_def)
qed

lemma parse_colons:
  assumes "length us + length vs \<le> 8" and "\<forall>w\<in>set us. w \<le> 0xffff" and "\<forall>w\<in>set vs. w \<le> 0xffff"
  shows "inet_pton6 (groups us @ ''::'' @ groups vs)
    = Some (colon_shift (pad (bytes16 us @ bytes16 vs)) (2 * length us) (2 * length vs) 1 (2 * length vs))"
proof -
  have fin: "Option.bind (inet_pton6_loop (groups vs) ct (pad (bytes16 us)) (2 * length us) (Some (2 * length us)) False 0) finish
      = Some (pad (bytes16 us @ bytes16 vs), 2 * length us + 2 * length vs, Some (2 * length us))" for ct
    using loop_groups[of "bytes16 us" vs ct "Some (2 * length us)"] assms by simp
  show ?thesis
  proof (cases us)
    case Nil
    then show ?thesis using fin[of "groups vs"]
      by (simp add: groups_def[of "[]"] inet_pton6_unfold_colons pad_Nil)
  next
    case (Cons u us')
    then have ne: "us \<noteq> []" by simp
    have "inet_pton6_loop (groups us @ CHR '':'' # CHR '':'' # groups vs) (groups us @ ''::'' @ groups vs) (pad []) (length []) None False 0
      = inet_pton6_loop (groups vs) (groups vs) (pad (bytes16 us)) (2 * length us) (Some (2 * length us)) False 0"
      using loop_groups_colon[of "[]" us "CHR '':'' # groups vs" "groups us @ ''::'' @ groups vs" None] assms ne by simp
    then show ?thesis
      using inet_pton6_unfold[OF hd_groups[OF ne assms(2), of "''::'' @ groups vs"]] fin[of "groups vs"]
      by (simp add: pad_Nil)
  qed
qed

lemma parse_gap:
  assumes "length us + length vs < 8" and "\<forall>w\<in>set us. w \<le> 0xffff" and "\<forall>w\<in>set vs. w \<le> 0xffff"
  shows "inet_pton6 (groups us @ ''::'' @ groups vs) = Some (bytes16 (us @ replicate (8 - (length us + length vs)) 0 @ vs))"
proof -
  have "colon_shift (pad (bytes16 us @ bytes16 vs)) (2 * length us) (2 * length vs) 1 (2 * length vs)
      = bytes16 (us @ replicate (8 - (length us + length vs)) 0 @ vs)"
    using colon_shift_pad[of "bytes16 us" "bytes16 vs"] assms(1) by (simp add: bytes16_zeros right_diff_distrib')
  with parse_colons[of us vs] assms show ?thesis by simp
qed

text \<open>With eight groups there is no gap: every moved byte is overwritten by the zero stored after it.\<close>

lemma colon_shift_full:
  assumes "length bs + n = 16" and "length post = n"
  shows "k \<le> n \<Longrightarrow> colon_shift (bs @ take k post @ replicate (n - k) 0) (length bs) n (n - k + 1) k = bs @ replicate n 0"
proof (induction k)
  case (Suc k)
  let ?tmp = "bs @ take (Suc k) post @ replicate (n - Suc k) 0"
  have i: "16 - (n - Suc k + 1) = length bs + k" "length bs + n - (n - Suc k + 1) = length bs + k"
    using Suc.prems assms by simp_all
  have t: "take (Suc k) post = take k post @ [post ! k]" using Suc.prems assms by (simp add: take_Suc_conv_app_nth)
  have n: "n - k = Suc (n - Suc k)" using Suc.prems by simp
  have "?tmp[length bs + k := ?tmp ! (length bs + k), length bs + k := 0] = bs @ take k post @ replicate (n - k) 0"
    using Suc.prems assms unfolding t n by (simp add: list_update_append)
  then show ?case using Suc.IH Suc.prems i n by simp
qed simp

lemma parse_full:
  assumes "length us + length vs = 8" and "\<forall>w\<in>set us. w \<le> 0xffff" and "\<forall>w\<in>set vs. w \<le> 0xffff"
  shows "inet_pton6 (groups us @ ''::'' @ groups vs) = Some (bytes16 (us @ replicate (length vs) 0))"
proof -
  have "length (bytes16 us) + 2 * length vs = 16" using assms(1) by simp
  then have "colon_shift (pad (bytes16 us @ bytes16 vs)) (2 * length us) (2 * length vs) 1 (2 * length vs)
      = bytes16 (us @ replicate (length vs) 0)"
    using colon_shift_full[of "bytes16 us" "2 * length vs" "bytes16 vs" "2 * length vs"]
    by (simp add: pad_def bytes16_zeros)
  with parse_colons[of us vs] assms show ?thesis by simp
qed

lemma parse_trailing_colon:
  assumes "length us = 8" and "\<forall>w\<in>set us. w \<le> 0xffff"
  shows "inet_pton6 (groups us @ '':'') = Some (bytes16 us)"
proof -
  have ne: "us \<noteq> []" using assms(1) by auto
  have "inet_pton6_loop (groups us @ '':'') (groups us @ '':'') (pad []) (length []) None False 0
      = Some (pad (bytes16 us), 16, None, False, 0)"
    using loop_groups_colon[of "[]" us "[]" "groups us @ '':''" None] assms ne by simp
  then show ?thesis
    using inet_pton6_unfold[OF hd_groups[OF ne assms(2), of "'':''"]] assms by (simp add: pad_Nil finish_def) (simp add: pad_def)
qed

lemma loop_dotted:
  assumes "length bs + 4 \<le> 16" and "length a = 4"
  shows "\<exists>v. inet_pton6_loop (dotted a) (dotted a) (pad bs) (length bs) cp False 0
    = Some (pad (bs @ a), length bs + 4, cp, False, v)"
proof -
  let ?rest = "print_radix 10 (unat (a ! 1)) @ ''.'' @ print_radix 10 (unat (a ! 2)) @ ''.'' @ print_radix 10 (unat (a ! 3))"
  obtain v where "inet_pton6_loop (print_radix 10 (unat (a ! 0)) @ CHR ''.'' # ?rest) (dotted a) (pad bs) (length bs) cp False 0
      = inet_pton6_loop (CHR ''.'' # ?rest) (dotted a) (pad bs) (length bs) cp True v"
    using loop_decimal by blast
  moreover have "print_radix 10 (unat (a ! 0)) @ CHR ''.'' # ?rest = dotted a" by (simp add: dotted_def)
  ultimately show ?thesis
    using assms by (simp add: inet_pton4_dotted store_bytes_pad)
qed

lemma parse_mapped:
  assumes "\<forall>w\<in>set vs. w \<le> 0xffff" and "length a = 4" and "length vs < 6"
  shows "inet_pton6 (''::'' @ groups vs @ (if vs = [] then [] else '':'') @ dotted a)
    = Some (bytes16 (replicate (6 - length vs) 0 @ vs) @ a)"
proof -
  let ?src = "groups vs @ (if vs = [] then [] else '':'') @ dotted a"
  have "inet_pton6_loop ?src ?src (pad []) (length []) (Some 0) False 0
      = inet_pton6_loop (dotted a) (dotted a) (pad (bytes16 vs)) (length (bytes16 vs)) (Some 0) False 0"
    using loop_groups_colon[of "[]" vs "dotted a" ?src "Some 0"] assms by (cases vs) (simp_all add: groups_def[of "[]"])
  also obtain v where "\<dots> = Some (pad (bytes16 vs @ a), length (bytes16 vs) + 4, Some 0, False, v)"
    using loop_dotted[of "bytes16 vs" a "Some 0"] assms by auto
  finally have "Option.bind (inet_pton6_loop ?src ?src (replicate 16 0) 0 (Some 0) False 0) finish
      = Some (pad (bytes16 vs @ a), 2 * length vs + 4, Some 0)" by (simp add: finish_def pad_Nil)
  moreover have "colon_shift (pad (bytes16 vs @ a)) 0 (2 * length vs + 4) 1 (2 * length vs + 4)
      = bytes16 (replicate (6 - length vs) 0 @ vs) @ a"
    using colon_shift_pad[of "[]" "bytes16 vs @ a"] assms by (simp add: bytes16_zeros right_diff_distrib')
  ultimately show ?thesis using inet_pton6_unfold_colons[of ?src] by simp
qed

section \<open>Round trip\<close>

lemma zrun_split:
  assumes "zrun ws (int b) (int l)"
  shows "ws = take b ws @ replicate l 0 @ drop (b + l) ws"
proof -
  have len: "b + l \<le> length ws" using assms by (simp add: zrun_def)
  have "take l (drop b ws) = replicate l 0"
    using assms len by (intro nth_equalityI) (auto simp: zrun_def)
  then show ?thesis by (metis append_take_drop_id drop_drop add.commute)
qed

lemma text_plain:
  assumes "length words = 8" and "fst best = - 1"
  shows "format6 src words best 0 0 = Inr (groups words)"
proof -
  have m: "\<not> is_mapped words best" using assms by (simp add: is_mapped_def)
  from format6_group[of 0 best words src "colon_groups (drop 1 words)" 0] format6_after[OF m assms(1), of 1 src] assms m
  have "format6 src words best 0 0 = Inr (print_radix 16 (words ! 0) @ colon_groups (drop 1 words))" by simp
  then show ?thesis using assms(1) by (cases words) (simp_all add: groups_def)
qed

lemma text_gap:
  assumes len: "length words = 8" and best: "best = (int b, int l)" and r: "0 < l" "b + l \<le> 8"
    and m: "\<not> is_mapped words best"
  shows "\<exists>txt. format6 src words best 0 0 = Inr txt \<and>
    txt @ (if b + l = 8 then '':'' else []) = groups (take b words) @ ''::'' @ groups (drop (b + l) words)"
proof -
  let ?tail = "CHR '':'' # colon_groups (drop (b + l) words)"
  have run: "format6 src words best b u = Inr ?tail" for u
    using format6_after[OF m len, of "b + l" src "u + 1"] format6_run[OF best r(2,1), of src words u] best r by simp
  have tail: "?tail @ (if b + l = 8 then '':'' else []) = ''::'' @ groups (drop (b + l) words)"
    using r len by (cases "drop (b + l) words") (auto simp: groups_def)
  show ?thesis
  proof (cases b)
    case 0
    then show ?thesis using run[of 0] tail by (simp add: groups_def[of "[]"])
  next
    case (Suc b')
    have before: "\<not> (fst best \<noteq> - 1 \<and> fst best \<le> int i \<and> int i < fst best + snd best)" if "i < b" for i
      using that best by simp
    have one: "format6 src words best 1 u = Inr (colon_groups (take (b - 1) (drop 1 words)) @ ?tail)" for u
      using format6_groups[OF m len run, where m = 0 and j = 1] before Suc r by simp
    from format6_group[of 0 best words src, OF _ before m] one Suc
    have "format6 src words best 0 0 = Inr (print_radix 16 (words ! 0) @ colon_groups (take (b - 1) (drop 1 words)) @ ?tail)"
      by simp
    moreover have "groups (take b words) = print_radix 16 (words ! 0) @ colon_groups (take (b - 1) (drop 1 words))"
      using Suc len by (cases words) (simp_all add: groups_def)
    ultimately show ?thesis using tail by auto
  qed
qed

lemma text_mapped:
  assumes len: "length words = 8" and best: "best = (int b, int l)"
    and z: "zrun words (int b) (int l)" and m: "is_mapped words best"
  shows "format6 src words best 0 0
    = Inr (''::'' @ groups (take (6 - l) (drop l words)) @ (if l = 6 then [] else '':'') @ dotted (drop 12 src)) \<and> b = 0 \<and> (l = 5 \<or> l = 6)"
proof -
  have b: "b = 0" "l = 5 \<or> l = 6" using best m by (auto simp: is_mapped_def)
  have at6: "format6 src words best 6 used = Inr (CHR '':'' # dotted (drop 12 src))" if "used \<le> 10" for used
    using length_dotted[of "drop 12 src"] that best b m
    by (subst format6.simps) (auto simp: is_mapped_def inet_ntop4_def Let_def)
  have "format6 src words best 5 used = Inr (CHR '':'' # print_radix 16 (words ! 5) @ CHR '':'' # dotted (drop 12 src))"
    if "l = 5" "used \<le> 1" for used
  proof -
    have "length (print_radix 16 (words ! 5)) \<le> 4" using that best m by (intro length_print_radix) (auto simp: is_mapped_def)
    with that best at6[of "Suc (used + length (print_radix 16 (words ! 5)))"] show ?thesis using b
      by (subst format6.simps) (simp add: Let_def)
  qed
  moreover have "take 1 (drop 5 words) = [words ! 5]"
    using len by (intro nth_equalityI) simp_all
  ultimately show ?thesis
    using b format6_run[OF best, of src words 0] at6[of 1] by (auto simp: groups_def)
qed

lemma inet6_text:
  assumes "length src = 16"
  shows "\<exists>txt. inet_ntop6 src 46 = Inr txt \<and> length txt < 46 \<and> inet_pton6 txt = Some src"
proof -
  let ?ws = "words_of src" and ?best = "best_run (words_of src)"
  have bound: "\<forall>w\<in>set ?ws. w \<le> 0xffff" using words_of_bound by blast
  then have tb: "\<forall>w\<in>set (take n ?ws). w \<le> 0xffff" and db: "\<forall>w\<in>set (drop n ?ws). w \<le> 0xffff"
    and tdb: "\<forall>w\<in>set (take n (drop k ?ws)). w \<le> 0xffff" for n k
    by (meson in_set_takeD in_set_dropD)+
  have src: "bytes16 ?ws = src" by (rule bytes16_words_of[OF assms])
  show ?thesis
  proof (rule best_run_spec[of ?ws])
    assume best: "fst ?best = - 1"
    have "inet_ntop6 src 46 = Inr (groups ?ws)"
      using length_groups[OF bound] text_plain[OF length_words_of best, of src] best by (simp add: inet_ntop6_def Let_def)
    then show ?thesis using length_groups[OF bound] parse_plain[OF length_words_of bound] src by simp
  next
    fix b l assume best: "?best = (int b, int l)" and l: "2 \<le> l" and z: "zrun ?ws (int b) (int l)"
    have bl: "b + l \<le> 8" using z by (simp add: zrun_def)
    note sp = zrun_split[OF z]
    show ?thesis
    proof (cases "is_mapped ?ws ?best")
      case False
      let ?txt = "groups (take b ?ws) @ ''::'' @ groups (drop (b + l) ?ws)"
      obtain t0 where t0: "format6 src ?ws ?best 0 0 = Inr t0" "t0 @ (if b + l = 8 then '':'' else []) = ?txt"
        using text_gap[OF length_words_of best _ bl False, of src] l by auto
      have len: "length ?txt \<le> 42"
        using length_groups[OF tb[of b]] length_groups[OF db[of "b + l"]] bl l by simp
      moreover have "t0 @ (if fst ?best \<noteq> - 1 \<and> fst ?best + snd ?best = 8 then '':'' else []) = ?txt"
        using t0(2) best by auto
      then have "inet_ntop6 src 46 = Inr ?txt"
        using t0(1) len by (simp add: inet_ntop6_def Let_def del: length_append)
      moreover have "8 - (length (take b ?ws) + length (drop (b + l) ?ws)) = l" using bl by simp
      then have "inet_pton6 ?txt = Some src"
        using parse_gap[OF _ tb[of b] db[of "b + l"]] l bl sp src by simp
      ultimately show ?thesis by simp
    next
      case True
      let ?vs = "take (6 - l) (drop l ?ws)" and ?a = "drop 12 src"
      let ?txt = "''::'' @ groups ?vs @ (if l = 6 then [] else '':'') @ dotted ?a"
      have t: "format6 src ?ws ?best 0 0 = Inr ?txt" and b: "b = 0" "l = 5 \<or> l = 6"
        using text_mapped[OF length_words_of best z True, of src] by auto
      have len: "length ?txt < 46"
        using length_groups[OF tdb[of "6 - l" l]] length_dotted[of ?a] b by auto
      have n: "inet_ntop6 src 46 = Inr ?txt"
        using t len b best by (auto simp: inet_ntop6_def Let_def simp del: length_append)
      have "take 12 src = bytes16 (replicate l 0 @ ?vs)"
      proof -
        have "?ws = (replicate l 0 @ ?vs) @ drop 6 ?ws"
        proof -
          have "drop (6 - l) (drop l ?ws) = drop 6 ?ws" using b(2) by auto
          then have "drop l ?ws = ?vs @ drop 6 ?ws" by (metis append_take_drop_id)
          then show ?thesis using sp b(1) by simp
        qed
        then have "src = bytes16 (replicate l 0 @ ?vs) @ bytes16 (drop 6 ?ws)" using src bytes16_simps(3) by metis
        moreover have "length (bytes16 (replicate l 0 @ ?vs)) = 12" using b(2) by auto
        ultimately show ?thesis by (metis append_eq_conv_conj)
      qed
      moreover have "inet_pton6 ?txt = Some (bytes16 (replicate l 0 @ ?vs) @ ?a)"
        using parse_mapped[OF tdb[of "6 - l" l], of ?a] assms b(2) by auto
      ultimately have "inet_pton6 ?txt = Some src" by (metis append_take_drop_id)
      with n len show ?thesis by blast
    qed
  qed
qed

text \<open>
  C5. Every IPv6 address survives printing and parsing: for 16 bytes and the buffer of
  \<open>INET6_ADDRSTRLEN\<close> (46) bytes, \<open>inet_ntop6\<close> succeeds, its text with the null byte fits, and
  \<open>inet_pton6\<close> of that text is the address (compressed runs and embedded IPv4 addresses included).
\<close>

theorem inet6_roundtrip:
  assumes "length src = 16"
  shows "\<exists>str. inet_ntop AF_INET6 src 46 = Inr str \<and> length str + 1 \<le> 46 \<and>
    inet_pton AF_INET6 str = Inr (Some src)"
  using inet6_text[OF assms] by (auto simp: inet_ntop_def inet_pton_def)

theorem inet6_roundtrip_witness:
  "\<exists>str. inet_ntop AF_INET6 [0x20, 1, 0x0d, 0xb8, 0, 0, 0, 0, 0, 0, 0, 0, 0, 0, 0, 1] 46 = Inr str \<and>
    length str + 1 \<le> 46 \<and>
    inet_pton AF_INET6 str = Inr (Some [0x20, 1, 0x0d, 0xb8, 0, 0, 0, 0, 0, 0, 0, 0, 0, 0, 0, 1])"
  by (rule inet6_roundtrip) simp

text \<open>
  The run of groups that \<open>inet_ntop6\<close> replaces by a double colon consists of zero groups, has at
  least two of them and is a longest such run; there is none exactly when no two neighbouring groups
  are zero.
\<close>

theorem best_run_longest:
  "if fst (best_run ws) = - 1 then \<not> (\<exists>b l. 2 \<le> l \<and> zrun ws b l)
   else zrun ws (fst (best_run ws)) (snd (best_run ws)) \<and> 2 \<le> snd (best_run ws) \<and>
        \<not> (\<exists>b l. snd (best_run ws) < l \<and> zrun ws b l)"
  by (rule best_run_spec[of ws]) fastforce+

text \<open>
  Texts that are not IPv6 addresses are accepted by \<open>inet_pton6\<close>: eight groups followed by a
  single colon, and eight groups with a double colon among them, which is not ignored, as the comment
  says, but overwrites every group after it with zeros.
\<close>

theorem inet_pton6_accepts_invalid:
  assumes "length us + length vs = 8" and "\<forall>w\<in>set (us @ vs). w \<le> 0xffff"
  shows "inet_pton6 (groups (us @ vs) @ '':'') = Some (bytes16 (us @ vs)) \<and>
    inet_pton6 (groups us @ ''::'' @ groups vs) = Some (bytes16 (us @ replicate (length vs) 0))"
  using parse_trailing_colon[of "us @ vs"] parse_full[of us vs] assms by auto

theorem inet_pton6_accepts_invalid_witness:
  "inet_pton6 ''1:2:3:4:5:6:7:8:'' = Some [0, 1, 0, 2, 0, 3, 0, 4, 0, 5, 0, 6, 0, 7, 0, 8] \<and>
   inet_pton6 ''1:2:3:4::5:6:7:8'' = Some [0, 1, 0, 2, 0, 3, 0, 4, 0, 0, 0, 0, 0, 0, 0, 0]"
  using inet_pton6_accepts_invalid[of "[1, 2, 3, 4]" "[5, 6, 7, 8]"]
  by (simp add: groups_def print_radix_small xdigits_l_def)

end
