(* ===== verification/Sock_Addr.thy ===== *)
theory Sock_Addr
  imports Inet6
begin

text \<open>
  Protocol-independent handling of socket addresses: \<open>sock_ntop\<close>, \<open>sock_ntop_host\<close>,
  \<open>sock_cmp_addr\<close>, \<open>sock_cmp_port\<close>, \<open>sock_get_port\<close>, \<open>sock_set_addr\<close>, \<open>sock_set_port\<close>,
  \<open>sock_set_wild\<close>, \<open>sock_bind_wild\<close>, \<open>sockfd_to_family\<close> and \<open>family_to_level\<close> of lib/. The two
  printing functions return the text in their static buffer (\<open>Inl e\<close> is the null pointer with
  \<open>errno = e\<close>). A function that changes the caller's address structure returns the changed one.
\<close>

section \<open>Byte order and comparison\<close>

text \<open>The host is little endian, so \<open>ntohs\<close> swaps the two bytes of the field as stored.\<close>

definition ntohs :: "u16 \<Rightarrow> u16" where
  "ntohs w = word_of_nat (unat w div 256 + (unat w mod 256) * 256)"

text \<open>\<open>memcmp\<close> and \<open>strcmp\<close>: the difference of the first bytes that differ. A shorter string differs by
  its terminating null byte.\<close>

fun memcmp :: "byte list \<Rightarrow> byte list \<Rightarrow> int" where
  "memcmp (a # as) (b # bs) = (if a = b then memcmp as bs else uint a - uint b)"
| "memcmp _ _ = 0"

fun strcmp :: "string \<Rightarrow> string \<Rightarrow> int" where
  "strcmp [] [] = 0"
| "strcmp (a # as) [] = of_char a"
| "strcmp [] (b # bs) = - of_char b"
| "strcmp (a # as) (b # bs) = (if a = b then strcmp as bs else of_char a - of_char b)"

section \<open>Printing\<close>

fun sock_ntop :: "sockaddr \<Rightarrow> nat \<Rightarrow> int + string" where
  "sock_ntop (Sockaddr_in port addr) salen =
     (case inet_ntop AF_INET addr 128 of
        Inl e \<Rightarrow> Inl e
      | Inr str \<Rightarrow>
          if ntohs port \<noteq> 0
          then Inr (str @ snprintf_text 8 ('':'' @ print_int (uint (ntohs port)))) else Inr str)"
| "sock_ntop (Sockaddr_in6 port addr) salen =
     (case inet_ntop AF_INET6 addr 127 of
        Inl e \<Rightarrow> Inl e
      | Inr str \<Rightarrow>
          if ntohs port \<noteq> 0
          then Inr (''['' @ str @ snprintf_text 8 ('']:'' @ print_int (uint (ntohs port)))) else Inr str)"
| "sock_ntop (Sockaddr_un path) salen =
     (if path = [] then Inr ''(no pathname bound)'' else Inr (snprintf_text 128 path))"
| "sock_ntop (Sockaddr_other family data) salen =
     Inr (snprintf_text 128 (''sock_ntop: unknown AF_xxx: '' @ print_int family @ '', len '' @ print_radix 10 salen))"

definition Sock_ntop :: "os \<Rightarrow> sockaddr \<Rightarrow> nat \<Rightarrow> ('z proc_scheme, string) cprog" where
  "Sock_ntop os sa salen = (case sock_ntop sa salen of
       Inl e \<Rightarrow> cbind (set_errno e) (\<lambda>_. err_sys os ''sock_ntop error'')
     | Inr str \<Rightarrow> creturn str)"

fun sock_ntop_host :: "sockaddr \<Rightarrow> nat \<Rightarrow> int + string" where
  "sock_ntop_host (Sockaddr_in port addr) salen = inet_ntop AF_INET addr 128"
| "sock_ntop_host (Sockaddr_in6 port addr) salen = inet_ntop AF_INET6 addr 128"
| "sock_ntop_host (Sockaddr_un path) salen =
     (if path = [] then Inr ''(no pathname bound)'' else Inr (snprintf_text 128 path))"
| "sock_ntop_host (Sockaddr_other family data) salen =
     Inr (snprintf_text 128 (''sock_ntop_host: unknown AF_xxx: '' @ print_int family @ '', len '' @ print_radix 10 salen))"

definition Sock_ntop_host :: "os \<Rightarrow> sockaddr \<Rightarrow> nat \<Rightarrow> ('z proc_scheme, string) cprog" where
  "Sock_ntop_host os sa salen = (case sock_ntop_host sa salen of
       Inl e \<Rightarrow> cbind (set_errno e) (\<lambda>_. err_sys os ''sock_ntop_host error'')
     | Inr str \<Rightarrow> creturn str)"

section \<open>Comparing, reading and writing the fields\<close>

fun sock_cmp_addr :: "sockaddr \<Rightarrow> sockaddr \<Rightarrow> nat \<Rightarrow> int" where
  "sock_cmp_addr (Sockaddr_in p1 a1) (Sockaddr_in p2 a2) salen = memcmp a1 a2"
| "sock_cmp_addr (Sockaddr_in6 p1 a1) (Sockaddr_in6 p2 a2) salen = memcmp a1 a2"
| "sock_cmp_addr (Sockaddr_un p1) (Sockaddr_un p2) salen = strcmp p1 p2"
| "sock_cmp_addr sa1 sa2 salen = - 1"

fun sock_cmp_port :: "sockaddr \<Rightarrow> sockaddr \<Rightarrow> nat \<Rightarrow> int" where
  "sock_cmp_port (Sockaddr_in p1 a1) (Sockaddr_in p2 a2) salen = (if p1 = p2 then 1 else 0)"
| "sock_cmp_port (Sockaddr_in6 p1 a1) (Sockaddr_in6 p2 a2) salen = (if p1 = p2 then 1 else 0)"
| "sock_cmp_port sa1 sa2 salen = - 1"

fun sock_get_port :: "sockaddr \<Rightarrow> nat \<Rightarrow> int" where
  "sock_get_port (Sockaddr_in port addr) salen = uint port"
| "sock_get_port (Sockaddr_in6 port addr) salen = uint port"
| "sock_get_port sa salen = - 1"

text \<open>\<open>addr\<close> is the memory the pointer argument refers to.\<close>

fun sock_set_addr :: "sockaddr \<Rightarrow> nat \<Rightarrow> byte list \<Rightarrow> sockaddr" where
  "sock_set_addr (Sockaddr_in port old) salen addr = Sockaddr_in port (take 4 addr)"
| "sock_set_addr (Sockaddr_in6 port old) salen addr = Sockaddr_in6 port (take 16 addr)"
| "sock_set_addr sa salen addr = sa"

fun sock_set_port :: "sockaddr \<Rightarrow> nat \<Rightarrow> int \<Rightarrow> sockaddr" where
  "sock_set_port (Sockaddr_in old addr) salen port = Sockaddr_in (word_of_int port) addr"
| "sock_set_port (Sockaddr_in6 old addr) salen port = Sockaddr_in6 (word_of_int port) addr"
| "sock_set_port sa salen port = sa"

definition in6addr_any :: "byte list" where
  "in6addr_any = replicate 16 0"

fun sock_set_wild :: "sockaddr \<Rightarrow> nat \<Rightarrow> sockaddr" where
  "sock_set_wild (Sockaddr_in port addr) salen = sock_set_addr (Sockaddr_in port addr) salen (replicate 4 0)"
| "sock_set_wild (Sockaddr_in6 port addr) salen = sock_set_addr (Sockaddr_in6 port addr) salen in6addr_any"
| "sock_set_wild sa salen = sa"

section \<open>Functions on descriptors\<close>

text \<open>The 16 bits at offset 2 of a socket address structure, where both internet families have their port
  and the others their first two bytes of data.\<close>

fun port_field :: "sockaddr \<Rightarrow> u16" where
  "port_field (Sockaddr_in port addr) = port"
| "port_field (Sockaddr_in6 port addr) = port"
| "port_field (Sockaddr_un path) = (let bs = map of_char path @ [0, 0] in of_nat (bs ! 0 + 256 * bs ! 1))"
| "port_field (Sockaddr_other family data) = (let bs = map unat data @ [0, 0] in of_nat (bs ! 0 + 256 * bs ! 1))"

text \<open>\<open>getsockname\<close> overwrites the structure that \<open>bind\<close> was given, whose port was 0.\<close>

definition sock_bind_wild :: "os \<Rightarrow> int \<Rightarrow> int \<Rightarrow> ('z proc_scheme, int) cprog" where
  "sock_bind_wild os sockfd family =
     (if family = AF_INET then
        cbind (call os (C_bind sockfd (Sockaddr_in 0 (replicate 4 0)) 16)) (\<lambda>r.
        if rv r < 0 then creturn (- 1)
        else cbind (call os (C_getsockname sockfd)) (\<lambda>r2.
             if rv r2 < 0 then creturn (- 1)
             else creturn (case out_addr r2 of Some sa \<Rightarrow> uint (port_field sa) | None \<Rightarrow> 0)))
      else if family = AF_INET6 then
        cbind (call os (C_bind sockfd (Sockaddr_in6 0 in6addr_any) 28)) (\<lambda>r.
        if rv r < 0 then creturn (- 1)
        else cbind (call os (C_getsockname sockfd)) (\<lambda>r2.
             if rv r2 < 0 then creturn (- 1)
             else creturn (case out_addr r2 of Some sa \<Rightarrow> uint (port_field sa) | None \<Rightarrow> 0)))
      else creturn (- 1))"

definition Sock_bind_wild :: "os \<Rightarrow> int \<Rightarrow> int \<Rightarrow> ('z proc_scheme, int) cprog" where
  "Sock_bind_wild os sockfd family = cbind (sock_bind_wild os sockfd family) (\<lambda>port.
     if port < 0 then err_sys os ''sock_bind_wild error'' else creturn port)"

definition sockfd_to_family :: "os \<Rightarrow> int \<Rightarrow> ('z proc_scheme, int) cprog" where
  "sockfd_to_family os sockfd = cbind (call os (C_getsockname sockfd)) (\<lambda>r.
     if rv r < 0 then creturn (- 1)
     else creturn (case out_addr r of Some sa \<Rightarrow> sa_family sa | None \<Rightarrow> AF_UNSPEC))"

definition Sockfd_to_family :: "os \<Rightarrow> int \<Rightarrow> ('z proc_scheme, int) cprog" where
  "Sockfd_to_family os sockfd = cbind (sockfd_to_family os sockfd) (\<lambda>rc.
     if rc < 0 then err_sys os ''sockfd_to_family error'' else creturn rc)"

definition family_to_level :: "int \<Rightarrow> int" where
  "family_to_level family = (if family = AF_INET then IPPROTO_IP
                             else if family = AF_INET6 then IPPROTO_IPV6 else - 1)"

definition Family_to_level :: "os \<Rightarrow> int \<Rightarrow> ('z proc_scheme, int) cprog" where
  "Family_to_level os family = (let rc = family_to_level family in
     if rc < 0 then err_sys os ''family_to_level error'' else creturn rc)"

section \<open>The fields of an address\<close>

text \<open>The port and the address of the two internet families.\<close>

fun sa_addr :: "sockaddr \<Rightarrow> byte list" where
  "sa_addr (Sockaddr_in port addr) = addr"
| "sa_addr (Sockaddr_in6 port addr) = addr"
| "sa_addr sa = []"

definition inet_sa :: "int \<Rightarrow> sockaddr \<Rightarrow> bool" where
  "inet_sa family sa \<longleftrightarrow> sockaddr_wf sa \<and> sa_family sa = family \<and> (family = AF_INET \<or> family = AF_INET6)"

lemma inet_sa_cases:
  assumes "inet_sa family sa"
  obtains p a where "sa = Sockaddr_in p a" "length a = 4" "family = AF_INET"
    | p a where "sa = Sockaddr_in6 p a" "length a = 16" "family = AF_INET6"
  using assms by (cases sa) (auto simp: inet_sa_def)

lemma uint_u16: "0 \<le> uint (w :: u16) \<and> uint w \<le> 0xffff"
  using uint_lt2p[of w] by simp

section \<open>Comparison\<close>

lemma memcmp_0: "length as = length bs \<Longrightarrow> memcmp as bs = 0 \<longleftrightarrow> as = bs"
  by (induction as bs rule: memcmp.induct) (auto simp flip: word_uint_eq_iff)

lemma of_char_0: "of_char c = (0 :: int) \<longleftrightarrow> c = CHR 0x00"
  using of_char_eq_iff[where 'a = int, of c "CHR 0x00"] by (simp del: of_char_eq_iff)

lemma strcmp_0: "CHR 0x00 \<notin> set as \<union> set bs \<Longrightarrow> strcmp as bs = 0 \<longleftrightarrow> as = bs"
  by (induction as bs rule: strcmp.induct) (auto simp: of_char_0)

text \<open>
  \<open>sock_cmp_addr\<close> is 0 exactly for two addresses of the same supported family with the same
  address part (the path of a Unix domain address); the port does not matter.
\<close>

theorem sock_cmp_addr_zero:
  assumes "sockaddr_wf sa1" and "sockaddr_wf sa2"
  shows "sock_cmp_addr sa1 sa2 salen = 0 \<longleftrightarrow>
    sa_family sa1 = sa_family sa2 \<and> sa_family sa1 \<in> {AF_INET, AF_INET6, AF_UNIX} \<and>
    sa_addr sa1 = sa_addr sa2 \<and> (sa_family sa1 = AF_UNIX \<longrightarrow> sa1 = sa2)"
  using assms by (cases sa1; cases sa2) (auto simp: memcmp_0 strcmp_0)

theorem sock_cmp_addr_zero_witness:
  "sock_cmp_addr (Sockaddr_in 80 [10, 0, 0, 1]) (Sockaddr_in 443 [10, 0, 0, 1]) 16 = 0"
  using sock_cmp_addr_zero[of "Sockaddr_in 80 [10, 0, 0, 1]" "Sockaddr_in 443 [10, 0, 0, 1]" 16] by simp

section \<open>Printing\<close>

lemma inet_ntop6_mono:
  assumes "inet_ntop6 src sz = Inr str" and "sz \<le> sz'"
  shows "inet_ntop6 src sz' = Inr str"
  using assms by (auto simp: inet_ntop6_def Let_def split: sum.splits if_splits)

lemma print_radix_chars: "2 \<le> b \<Longrightarrow> b \<le> 16 \<Longrightarrow> set (print_radix b n) \<subseteq> set xdigits_l"
proof (induction n rule: less_induct)
  case (less n)
  have nth: "d < b \<Longrightarrow> xdigits_l ! d \<in> set xdigits_l" for d
    using less.prems by (intro nth_mem) (simp add: xdigits_l_def)
  show ?case
  proof (cases "n < b")
    case True
    then show ?thesis using nth by (simp add: print_radix_small)
  next
    case False
    moreover have "n mod b < b" using less.prems by simp
    ultimately show ?thesis using less.IH[of "n div b"] less.prems nth by (simp add: print_radix_step)
  qed
qed

definition addr_chars :: "char set" where
  "addr_chars = set xdigits_l \<union> {CHR ''.'', CHR '':''}"

lemma dotted_chars: "set (dotted a) \<subseteq> addr_chars - {CHR '':''}"
  using print_radix_chars[of 10] by (auto simp: dotted_def addr_chars_def) (auto simp: xdigits_l_def)

lemma format6_chars: "format6 src words best i used = Inr str \<Longrightarrow> set str \<subseteq> addr_chars"
proof (induction src words best i used arbitrary: str rule: format6.induct)
  case (1 src words best i used)
  have h: "set (print_radix 16 n) \<subseteq> addr_chars" for n
    using print_radix_chars[of 16 n] by (auto simp: addr_chars_def)
  have c: "CHR '':'' \<in> addr_chars" by (simp add: addr_chars_def)
  have d: "inet_ntop4 a sz = Inr t \<Longrightarrow> set t \<subseteq> addr_chars" for a sz t
    using dotted_chars[of a] by (auto simp: inet_ntop4_def Let_def split: if_splits)
  show ?case
    using "1.prems" h c d "1.IH"
    by (subst (asm) format6.simps) (fastforce simp: Let_def split: if_splits sum.splits)
qed

lemma unat_ntohs: "unat (ntohs w) = unat w div 256 + (unat w mod 256) * 256"
proof -
  have "unat w < 65536" using unsigned_less[where 'a = nat, of w] by simp
  then have "unat w div 256 + (unat w mod 256) * 256 < 2 ^ LENGTH(16)"
    by (intro less_le_trans[OF add_less_le_mono[of _ 256 _ "255 * 256"]]) auto
  then show ?thesis unfolding ntohs_def by (simp only: unat_of_nat mod_less)
qed

lemma ntohs_ntohs [simp]: "ntohs (ntohs w) = w"
proof -
  have "unat w div 256 < 256" using unsigned_less[where 'a = nat, of w] by simp
  then have "unat (ntohs (ntohs w)) = unat w" by (simp add: unat_ntohs)
  then show ?thesis by (simp add: word_unat_eq_iff)
qed

lemma ntohs_inject: "ntohs v = ntohs w \<longleftrightarrow> v = w"
  by (metis ntohs_ntohs)

text \<open>The port suffix is at most seven characters, so \<open>portstr\<close> holds it untruncated.\<close>

definition port_text :: "u16 \<Rightarrow> string" where
  "port_text port = (if ntohs port \<noteq> 0 then print_radix 10 (unat (ntohs port)) else [])"

lemma print_int_port: "print_int (uint (w :: u16)) = print_radix 10 (unat w)"
  by (simp add: print_int_def)

lemma length_port: "length (print_radix 10 (unat (w :: u16))) \<le> 5"
  using unsigned_less[where 'a = nat, of w] by (intro length_print_radix) auto

lemma snprintf_port: "length pre \<le> 2 \<Longrightarrow> snprintf_text 8 (pre @ print_radix 10 (unat (w :: u16))) = pre @ print_radix 10 (unat w)"
  using length_port[of w] by (simp add: snprintf_text_def)

lemma sock_ntop_in:
  assumes "length a = 4"
  shows "sock_ntop (Sockaddr_in p a) salen = Inr (dotted a @ (if ntohs p \<noteq> 0 then CHR '':'' # port_text p else []))"
proof -
  have "inet_ntop AF_INET a 128 = Inr (dotted a)"
    using length_dotted[of a] by (simp add: inet_ntop_def inet_ntop4_def Let_def)
  then show ?thesis using snprintf_port[of "'':''" "ntohs p"] by (simp add: port_text_def print_int_port)
qed

lemma inet_ntop6_ok:
  assumes "length a = 16" and "46 \<le> sz"
  obtains str where "inet_ntop AF_INET6 a sz = Inr str" "length str \<le> 45" "inet_pton6 str = Some a"
    "set str \<subseteq> addr_chars"
proof -
  obtain t where t: "inet_ntop6 a 46 = Inr t" "length t < 46" "inet_pton6 t = Some a"
    using inet6_text[OF assms(1)] by blast
  then have "set t \<subseteq> addr_chars"
    using format6_chars by (fastforce simp: inet_ntop6_def Let_def addr_chars_def split: sum.splits if_splits)
  with t that[of t] inet_ntop6_mono[OF t(1) assms(2)] show thesis by (simp add: inet_ntop_def)
qed

lemma sock_ntop_in6:
  assumes "length a = 16"
  obtains str where "sock_ntop (Sockaddr_in6 p a) salen
      = Inr (if ntohs p \<noteq> 0 then ''['' @ str @ '']:'' @ port_text p else str)"
    "length str \<le> 45" "inet_pton6 str = Some a" "set str \<subseteq> addr_chars"
proof -
  obtain str where s: "inet_ntop AF_INET6 a 127 = Inr str" "length str \<le> 45" "inet_pton6 str = Some a" "set str \<subseteq> addr_chars"
    using inet_ntop6_ok[OF assms, of 127] by auto
  with that[of str] snprintf_port[of "'']:''" "ntohs p"] show thesis by (simp add: port_text_def print_int_port)
qed

text \<open>
  For a well-formed address whose path, if it is a Unix domain address, fits \<open>sun_path\<close> (108 bytes
  with its null byte), \<open>sock_ntop\<close> succeeds and its text with the null byte fits the static
  buffer of 128 bytes; a Unix domain path is not truncated.
\<close>

theorem sock_ntop_fits:
  assumes "sockaddr_wf sa" and "\<And>path. sa = Sockaddr_un path \<Longrightarrow> length path < 108"
  shows "\<exists>str. sock_ntop sa salen = Inr str \<and> length str + 1 \<le> 128 \<and>
    (\<forall>path. sa = Sockaddr_un path \<longrightarrow> path \<noteq> [] \<longrightarrow> str = path)"
proof (cases sa)
  case (Sockaddr_in p a)
  then show ?thesis
    using assms sock_ntop_in[of a p salen] length_dotted[of a] length_port[of "ntohs p"] by (simp add: port_text_def)
next
  case (Sockaddr_in6 p a)
  then obtain str where "sock_ntop sa salen = Inr (if ntohs p \<noteq> 0 then ''['' @ str @ '']:'' @ port_text p else str)" "length str \<le> 45"
    using assms sock_ntop_in6[of a p salen] by auto
  then show ?thesis using Sockaddr_in6 length_port[of "ntohs p"] by (simp add: port_text_def)
next
  case (Sockaddr_un path)
  with assms(2) have "length path < 108" by simp
  then show ?thesis using Sockaddr_un by (simp add: snprintf_text_def)
next
  case (Sockaddr_other f d)
  then show ?thesis by (simp add: snprintf_text_def)
qed

theorem sock_ntop_fits_witness:
  "\<exists>str. sock_ntop (Sockaddr_un ''/tmp/sock'') 110 = Inr str \<and> length str + 1 \<le> 128 \<and>
    (\<forall>path. Sockaddr_un ''/tmp/sock'' = Sockaddr_un path \<longrightarrow> path \<noteq> [] \<longrightarrow> str = path)"
  by (rule sock_ntop_fits) auto

lemma print_decimal_inject: "print_radix 10 m = print_radix 10 n \<Longrightarrow> m = n"
  by (metis print_decimal)

lemma port_text_inject: "ntohs p \<noteq> 0 \<Longrightarrow> ntohs q \<noteq> 0 \<Longrightarrow> port_text p = port_text q \<Longrightarrow> p = q"
  using print_decimal_inject[of "unat (ntohs p)" "unat (ntohs q)"]
  by (simp add: port_text_def ntohs_inject flip: word_unat_eq_iff)

lemma port_zero_unique: "ntohs p = 0 \<Longrightarrow> ntohs q = 0 \<Longrightarrow> p = q"
  by (metis ntohs_ntohs)

lemma split_at: "c \<notin> set xs \<Longrightarrow> c \<notin> set ys \<Longrightarrow> xs @ c # us = ys @ c # vs \<longleftrightarrow> xs = ys \<and> us = vs"
  by (induction xs arbitrary: ys) (case_tac ys; auto)+

lemma not_split: "c \<notin> set ys \<Longrightarrow> xs @ c # us \<noteq> ys"
  by auto

lemma sock_ntop_in_inject:
  assumes "length a = 4" and "length b = 4"
    and "sock_ntop (Sockaddr_in p a) m = sock_ntop (Sockaddr_in q b) n"
  shows "Sockaddr_in p a = Sockaddr_in q b"
proof -
  have c: "CHR '':'' \<notin> set (dotted x)" for x using dotted_chars[of x] by auto
  have d: "dotted a = dotted b \<Longrightarrow> a = b" using inet_pton4_dotted[OF assms(1)] inet_pton4_dotted[OF assms(2)] by (metis option.inject)
  have e: "dotted a @ (if ntohs p \<noteq> 0 then CHR '':'' # port_text p else []) =
    dotted b @ (if ntohs q \<noteq> 0 then CHR '':'' # port_text q else [])"
    using assms(3) unfolding sock_ntop_in[OF assms(1)] sock_ntop_in[OF assms(2)] by (rule sum.inject(2)[THEN iffD1])
  show ?thesis
    using e c d split_at[OF c c] not_split[OF c] port_text_inject[of p q] port_zero_unique[of p q]
    by (auto split: if_splits dest: sym)
qed

lemma sock_ntop_in6_inject:
  assumes "length a = 16" and "length b = 16"
    and "sock_ntop (Sockaddr_in6 p a) m = sock_ntop (Sockaddr_in6 q b) n"
  shows "Sockaddr_in6 p a = Sockaddr_in6 q b"
proof -
  obtain s where s: "sock_ntop (Sockaddr_in6 p a) m = Inr (if ntohs p \<noteq> 0 then ''['' @ s @ '']:'' @ port_text p else s)"
    "inet_pton6 s = Some a" "set s \<subseteq> addr_chars" using sock_ntop_in6[OF assms(1)] by blast
  obtain t where t: "sock_ntop (Sockaddr_in6 q b) n = Inr (if ntohs q \<noteq> 0 then ''['' @ t @ '']:'' @ port_text q else t)"
    "inet_pton6 t = Some b" "set t \<subseteq> addr_chars" using sock_ntop_in6[OF assms(2)] by blast
  have no: "CHR '']'' \<notin> addr_chars" "CHR ''['' \<notin> addr_chars" by (auto simp: addr_chars_def xdigits_l_def)
  then have c: "CHR '']'' \<notin> set s" "CHR '']'' \<notin> set t" "CHR ''['' \<notin> set s" "CHR ''['' \<notin> set t" using s t by auto
  have e: "(if ntohs p \<noteq> 0 then ''['' @ s @ '']:'' @ port_text p else s) = (if ntohs q \<noteq> 0 then ''['' @ t @ '']:'' @ port_text q else t)"
    using assms(3) unfolding s(1) t(1) by (rule sum.inject(2)[THEN iffD1])
  have ab: "s = t \<Longrightarrow> a = b" using s(2) t(2) by simp
  show ?thesis
  proof (cases "ntohs p = 0"; cases "ntohs q = 0")
    assume z: "ntohs p = 0" "ntohs q = 0"
    then show ?thesis using e ab port_zero_unique[OF z] by simp
  next
    assume z: "ntohs p \<noteq> 0" "ntohs q \<noteq> 0"
    then have "s @ CHR '']'' # CHR '':'' # port_text p = t @ CHR '']'' # CHR '':'' # port_text q" using e by simp
    then have "s = t" "port_text p = port_text q" using split_at[OF c(1,2)] by auto
    then show ?thesis using ab port_text_inject[OF z] by simp
  next
    assume "ntohs p = 0" "ntohs q \<noteq> 0"
    then have "s = CHR ''['' # t @ '']:'' @ port_text q" using e by simp
    then have "CHR ''['' \<in> set s" by simp
    with c show ?thesis by blast
  next
    assume "ntohs p \<noteq> 0" "ntohs q = 0"
    then have "t = CHR ''['' # s @ '']:'' @ port_text p" using e by simp
    then have "CHR ''['' \<in> set t" by simp
    with c show ?thesis by blast
  qed
qed

lemma inet_pton6_dotted: "inet_pton6 (dotted a @ rest) = None"
proof -
  obtain us where us: "dotted a @ rest = print_radix 10 (unat (a ! 0)) @ CHR ''.'' # us" by (simp add: dotted_def)
  let ?src = "print_radix 10 (unat (a ! 0)) @ CHR ''.'' # us"
  have "hd (print_radix 10 (unat (a ! 0))) \<in> set xdigits_l"
    using print_radix_chars[of 10 "unat (a ! 0)"] hd_in_set[OF print_radix_nonempty] by auto
  then have hd: "?src = [] \<or> hd ?src \<noteq> CHR '':''"
    by (auto simp: print_radix_nonempty) (auto simp: xdigits_l_def)
  obtain v where "inet_pton6_loop ?src ?src (replicate 16 0) 0 None False 0
      = inet_pton6_loop (CHR ''.'' # us) ?src (replicate 16 0) 0 None True v"
    using loop_decimal by blast
  then show ?thesis
    unfolding us inet_pton6_unfold[OF hd] by (simp add: finish_def split: option.split)
qed

text \<open>
  C34. The text of \<open>sock_ntop\<close> determines an internet address completely: two well-formed IPv4 or IPv6
  socket addresses with the same text have the same family, address and port.
\<close>

theorem sock_ntop_injective:
  assumes "inet_sa f sa" and "inet_sa g sb" and "sock_ntop sa m = sock_ntop sb n"
  shows "sa = sb"
proof -
  have mixed: "sock_ntop (Sockaddr_in p a) k \<noteq> sock_ntop (Sockaddr_in6 q b) l" if la: "length a = 4" and lb: "length b = 16" for p a k q b l
  proof
    assume e: "sock_ntop (Sockaddr_in p a) k = sock_ntop (Sockaddr_in6 q b) l"
    obtain t where t: "sock_ntop (Sockaddr_in6 q b) l = Inr (if ntohs q \<noteq> 0 then ''['' @ t @ '']:'' @ port_text q else t)"
      "inet_pton6 t = Some b" using sock_ntop_in6[OF lb] by blast
    let ?u = "if ntohs p \<noteq> 0 then CHR '':'' # port_text p else []"
    have d: "dotted a @ ?u = (if ntohs q \<noteq> 0 then ''['' @ t @ '']:'' @ port_text q else t)"
      using e unfolding sock_ntop_in[OF la] t(1) by (rule sum.inject(2)[THEN iffD1])
    show False
    proof (cases "ntohs q = 0")
      case True
      then show False using d t(2) inet_pton6_dotted[of a ?u] by simp
    next
      case False
      have ne: "dotted a \<noteq> []" by (simp add: dotted_def)
      from hd_in_set[OF ne] dotted_chars[of a] have "hd (dotted a) \<in> addr_chars" by blast
      then have "hd (dotted a @ ?u) \<in> addr_chars" using ne by simp
      moreover have "hd (dotted a @ ?u) = CHR ''[''" unfolding d using False by simp
      ultimately show False by (simp add: addr_chars_def xdigits_l_def)
    qed
  qed
  show ?thesis
    using assms mixed mixed[symmetric] sock_ntop_in_inject sock_ntop_in6_inject by (elim inet_sa_cases) metis+
qed

theorem sock_ntop_injective_witness:
  "sock_ntop (Sockaddr_in 0x5000 [10, 0, 0, 1]) 16 \<noteq> sock_ntop (Sockaddr_in6 0x5000 (replicate 15 0 @ [1])) 28"
  using sock_ntop_injective[of AF_INET "Sockaddr_in 0x5000 [10, 0, 0, 1]" AF_INET6 "Sockaddr_in6 0x5000 (replicate 15 0 @ [1])" 16 28]
  by (auto simp: inet_sa_def simp del: sock_ntop.simps)

text \<open>
  \<open>sock_cmp_port\<close> answers the opposite of \<open>sock_cmp_addr\<close> and of every comparison function
  of the C library: for two internet addresses of one family it is 1 when the ports are equal and 0
  when they differ.
\<close>

theorem sock_cmp_port_inverted:
  assumes "inet_sa family sa" and "inet_sa family sb"
  shows "sock_cmp_port sa sb salen = (if sock_get_port sa salen = sock_get_port sb salen then 1 else 0) \<and>
    (sa = sb \<longrightarrow> sock_cmp_addr sa sb salen = 0 \<and> sock_cmp_port sa sb salen \<noteq> 0)"
  using assms by (auto elim!: inet_sa_cases simp: memcmp_0 simp flip: word_uint_eq_iff)

theorem sock_cmp_port_inverted_witness:
  "sock_cmp_port (Sockaddr_in 80 [10, 0, 0, 1]) (Sockaddr_in 80 [10, 0, 0, 1]) 16 \<noteq> 0 \<and>
   sock_cmp_addr (Sockaddr_in 80 [10, 0, 0, 1]) (Sockaddr_in 80 [10, 0, 0, 1]) 16 = 0"
  using sock_cmp_port_inverted[of AF_INET "Sockaddr_in 80 [10, 0, 0, 1]" "Sockaddr_in 80 [10, 0, 0, 1]" 16]
  by (simp add: inet_sa_def)

end
