(* ===== verification/Sock_Util.thy ===== *)
theory Sock_Util
  imports Sock_Addr
begin

text \<open>
  Setting up sockets: \<open>host_serv\<close>, \<open>tcp_connect\<close>, \<open>tcp_listen\<close>, \<open>udp_client\<close>,
  \<open>udp_connect\<close>, \<open>udp_server\<close>, \<open>connect_nonb\<close>, \<open>connect_timeo\<close>, \<open>readable_timeo\<close>,
  \<open>writable_timeo\<close>, \<open>signal\<close> and \<open>signal_intr\<close> of lib/. \<open>getaddrinfo\<close> is a call of the
  environment that answers with the list of address structures. Its result list is walked by
  \<open>try_each\<close>, the loop that five of the functions share; what they do with one socket is the
  argument \<open>attempt\<close>. A null pointer in the place of the list would be dereferenced, which is the
  outcome \<open>Abort\<close> here.
\<close>

unbundle bit_operations_syntax

abbreviation (input) AI_PASSIVE :: int where "AI_PASSIVE \<equiv> 1"
abbreviation (input) AI_CANONNAME :: int where "AI_CANONNAME \<equiv> 2"
abbreviation (input) SIGHUP :: int where "SIGHUP \<equiv> 1"
abbreviation (input) SIGALRM :: int where "SIGALRM \<equiv> 14"
abbreviation (input) SA_INTERRUPT :: int where "SA_INTERRUPT \<equiv> 0x20000000"
abbreviation (input) SA_RESTART :: int where "SA_RESTART \<equiv> 0x10000000"
abbreviation (input) SIG_ERR :: int where "SIG_ERR \<equiv> - 1"

definition null_addr :: sockaddr where
  "null_addr = Sockaddr_other 0 []"

definition hints :: "int \<Rightarrow> int \<Rightarrow> int \<Rightarrow> addrinfo" where
  "hints flags family socktype = \<lparr>ai_flags = flags, ai_family = family, ai_socktype = socktype,
     ai_protocol = 0, ai_addrlen = 0, ai_canonname = None, ai_addr = null_addr\<rparr>"

section \<open>host_serv\<close>

definition host_serv :: "os \<Rightarrow> string option \<Rightarrow> string option \<Rightarrow> int \<Rightarrow> int \<Rightarrow> ('z proc_scheme, addrinfo list option) cprog" where
  "host_serv os host serv family socktype =
     cbind (call os (C_getaddrinfo host serv (hints AI_CANONNAME family socktype))) (\<lambda>r.
     if rv r \<noteq> 0 then creturn None else creturn (Some (out_infos r)))"

definition gai_quit :: "os \<Rightarrow> string \<Rightarrow> string \<Rightarrow> string \<Rightarrow> int \<Rightarrow> ('z proc_scheme, 'a) cprog" where
  "gai_quit os who host serv n =
     cbind (call os (C_lib ''gai_strerror'' [V_int n])) (\<lambda>m.
     err_quit os (who @ '' error for '' @ host @ '', '' @ serv @ '': '' @ out_str m))"

definition Host_serv :: "os \<Rightarrow> string option \<Rightarrow> string option \<Rightarrow> int \<Rightarrow> int \<Rightarrow> ('z proc_scheme, addrinfo list) cprog" where
  "Host_serv os host serv family socktype =
     cbind (call os (C_getaddrinfo host serv (hints AI_CANONNAME family socktype))) (\<lambda>r.
     if rv r \<noteq> 0
     then gai_quit os ''host_serv'' (case host of None \<Rightarrow> ''(no hostname)'' | Some h \<Rightarrow> h)
            (case serv of None \<Rightarrow> ''(no service name)'' | Some v \<Rightarrow> v) (rv r)
     else creturn (out_infos r))"

section \<open>The loop over the addresses\<close>

fun try_each :: "os \<Rightarrow> (int \<Rightarrow> addrinfo \<Rightarrow> ('z proc_scheme, bool) cprog) \<Rightarrow> addrinfo list \<Rightarrow>
    ('z proc_scheme, (int \<times> addrinfo) option) cprog" where
  "try_each os attempt [] = creturn None"
| "try_each os attempt (res # rest) =
     cbind (call os (C_socket (ai_family res) (ai_socktype res) (ai_protocol res))) (\<lambda>r.
     if rv r < 0 then try_each os attempt rest
     else cbind (attempt (rv r) res) (\<lambda>success.
          if success then creturn (Some (rv r, res))
          else cbind (Close os (rv r)) (\<lambda>_. try_each os attempt rest)))"

definition resolve_and_try :: "os \<Rightarrow> string \<Rightarrow> addrinfo \<Rightarrow> (int \<Rightarrow> addrinfo \<Rightarrow> ('z proc_scheme, bool) cprog) \<Rightarrow>
    string \<Rightarrow> string \<Rightarrow> (int \<Rightarrow> addrinfo \<Rightarrow> ('z proc_scheme, 'a) cprog) \<Rightarrow> ('z proc_scheme, 'a) cprog" where
  "resolve_and_try os who hint attempt host serv fin =
     cbind (call os (C_getaddrinfo (Some host) (Some serv) hint)) (\<lambda>r.
     if rv r \<noteq> 0 then gai_quit os who host serv (rv r)
     else if out_infos r = [] then cabort
     else cbind (try_each os attempt (out_infos r)) (\<lambda>found.
       case found of
         None \<Rightarrow> err_sys os (who @ '' error for '' @ host @ '', '' @ serv)
       | Some (sockfd, res) \<Rightarrow>
           cbind (fin sockfd res) (\<lambda>a.
           cbind (call os (C_lib ''freeaddrinfo'' [V_infos (out_infos r)])) (\<lambda>_. creturn a))))"

definition attempt_connect :: "os \<Rightarrow> int \<Rightarrow> addrinfo \<Rightarrow> ('z proc_scheme, bool) cprog" where
  "attempt_connect os sockfd res = cbind (call os (C_connect sockfd (ai_addr res) (ai_addrlen res))) (\<lambda>c.
     creturn (rv c = 0))"

definition attempt_bind :: "os \<Rightarrow> int \<Rightarrow> addrinfo \<Rightarrow> ('z proc_scheme, bool) cprog" where
  "attempt_bind os sockfd res = cbind (call os (C_bind sockfd (ai_addr res) (ai_addrlen res))) (\<lambda>c.
     creturn (rv c = 0))"

definition attempt_reuse_bind :: "os \<Rightarrow> int \<Rightarrow> addrinfo \<Rightarrow> ('z proc_scheme, bool) cprog" where
  "attempt_reuse_bind os listenfd res =
     cbind (Setsockopt os listenfd SOL_SOCKET SO_REUSEADDR [1, 0, 0, 0]) (\<lambda>_. attempt_bind os listenfd res)"

definition attempt_none :: "int \<Rightarrow> addrinfo \<Rightarrow> ('z proc_scheme, bool) cprog" where
  "attempt_none sockfd res = creturn True"

section \<open>Clients and servers\<close>

definition tcp_connect :: "os \<Rightarrow> string \<Rightarrow> string \<Rightarrow> ('z proc_scheme, int) cprog" where
  "tcp_connect os host serv =
     resolve_and_try os ''tcp_connect'' (hints 0 AF_UNSPEC SOCK_STREAM) (attempt_connect os) host serv
       (\<lambda>sockfd res. creturn sockfd)"

definition Tcp_connect :: "os \<Rightarrow> string \<Rightarrow> string \<Rightarrow> ('z proc_scheme, int) cprog" where
  "Tcp_connect os host serv = tcp_connect os host serv"

text \<open>The second component is what is stored through \<open>addrlenp\<close> when that is not null.\<close>

definition tcp_listen :: "os \<Rightarrow> string \<Rightarrow> string \<Rightarrow> ('z proc_scheme, int \<times> nat) cprog" where
  "tcp_listen os host serv =
     resolve_and_try os ''tcp_listen'' (hints AI_PASSIVE AF_UNSPEC SOCK_STREAM) (attempt_reuse_bind os) host serv
       (\<lambda>listenfd res. cbind (Listen os listenfd LISTENQ) (\<lambda>_. creturn (listenfd, ai_addrlen res)))"

definition Tcp_listen :: "os \<Rightarrow> string \<Rightarrow> string \<Rightarrow> ('z proc_scheme, int \<times> nat) cprog" where
  "Tcp_listen os host serv = tcp_listen os host serv"

text \<open>The results stored through \<open>saptr\<close> and \<open>lenp\<close> are the second and third component.\<close>

definition udp_client :: "os \<Rightarrow> string \<Rightarrow> string \<Rightarrow> ('z proc_scheme, int \<times> sockaddr \<times> nat) cprog" where
  "udp_client os host serv =
     resolve_and_try os ''udp_client'' (hints 0 AF_UNSPEC SOCK_DGRAM) attempt_none host serv
       (\<lambda>sockfd res. cbind (Malloc os (ai_addrlen res)) (\<lambda>_. creturn (sockfd, ai_addr res, ai_addrlen res)))"

definition Udp_client :: "os \<Rightarrow> string \<Rightarrow> string \<Rightarrow> ('z proc_scheme, int \<times> sockaddr \<times> nat) cprog" where
  "Udp_client os host serv = udp_client os host serv"

definition udp_connect :: "os \<Rightarrow> string \<Rightarrow> string \<Rightarrow> ('z proc_scheme, int) cprog" where
  "udp_connect os host serv =
     resolve_and_try os ''udp_connect'' (hints 0 AF_UNSPEC SOCK_DGRAM) (attempt_connect os) host serv
       (\<lambda>sockfd res. creturn sockfd)"

definition Udp_connect :: "os \<Rightarrow> string \<Rightarrow> string \<Rightarrow> ('z proc_scheme, int) cprog" where
  "Udp_connect os host serv = cbind (udp_connect os host serv) (\<lambda>n.
     if n < 0 then gai_quit os ''udp_connect'' host serv (- n) else creturn n)"

definition udp_server :: "os \<Rightarrow> string \<Rightarrow> string \<Rightarrow> ('z proc_scheme, int \<times> nat) cprog" where
  "udp_server os host serv =
     resolve_and_try os ''udp_server'' (hints AI_PASSIVE AF_UNSPEC SOCK_DGRAM) (attempt_bind os) host serv
       (\<lambda>sockfd res. creturn (sockfd, ai_addrlen res))"

definition Udp_server :: "os \<Rightarrow> string \<Rightarrow> string \<Rightarrow> ('z proc_scheme, int \<times> nat) cprog" where
  "Udp_server os host serv = udp_server os host serv"

section \<open>Timeouts\<close>

definition readable_timeo :: "os \<Rightarrow> int \<Rightarrow> int \<Rightarrow> ('z proc_scheme, int) cprog" where
  "readable_timeo os fd sec = cbind (call os (C_select (fd + 1) [fd] [] [] (Some (sec, 0)))) (\<lambda>r. creturn (rv r))"

definition Readable_timeo :: "os \<Rightarrow> int \<Rightarrow> int \<Rightarrow> ('z proc_scheme, int) cprog" where
  "Readable_timeo os fd sec = cbind (readable_timeo os fd sec) (\<lambda>n.
     if n < 0 then err_sys os ''readable_timeo error'' else creturn n)"

definition writable_timeo :: "os \<Rightarrow> int \<Rightarrow> int \<Rightarrow> ('z proc_scheme, int) cprog" where
  "writable_timeo os fd sec = cbind (call os (C_select (fd + 1) [] [fd] [] (Some (sec, 0)))) (\<lambda>r. creturn (rv r))"

definition Writable_timeo :: "os \<Rightarrow> int \<Rightarrow> int \<Rightarrow> ('z proc_scheme, int) cprog" where
  "Writable_timeo os fd sec = cbind (writable_timeo os fd sec) (\<lambda>n.
     if n < 0 then err_sys os ''writable_timeo error'' else creturn n)"


section \<open>Signals\<close>

text \<open>A handler is its address; \<open>sigaction\<close> answers with the previous one. Both flags exist on
  Linux. \<open>sigemptyset\<close> leaves the empty mask.\<close>

definition signal :: "os \<Rightarrow> int \<Rightarrow> int \<Rightarrow> ('z proc_scheme, int) cprog" where
  "signal os signo func =
     (let sa_flags = (if signo = SIGALRM then 0 OR SA_INTERRUPT else 0 OR SA_RESTART) in
      cbind (call os (C_lib ''sigaction'' [V_int signo, V_int func, V_ints [], V_int sa_flags])) (\<lambda>r.
      if rv r < 0 then creturn SIG_ERR else creturn (out_int r)))"

definition Signal :: "os \<Rightarrow> int \<Rightarrow> int \<Rightarrow> ('z proc_scheme, int) cprog" where
  "Signal os signo func = cbind (signal os signo func) (\<lambda>sigfunc.
     if sigfunc = SIG_ERR then err_sys os ''signal error'' else creturn sigfunc)"

definition signal_intr :: "os \<Rightarrow> int \<Rightarrow> int \<Rightarrow> ('z proc_scheme, int) cprog" where
  "signal_intr os signo func =
     cbind (call os (C_lib ''sigaction'' [V_int signo, V_int func, V_ints [], V_int (0 OR SA_INTERRUPT)])) (\<lambda>r.
     if rv r < 0 then creturn SIG_ERR else creturn (out_int r))"

definition Signal_intr :: "os \<Rightarrow> int \<Rightarrow> int \<Rightarrow> ('z proc_scheme, int) cprog" where
  "Signal_intr os signo func = cbind (signal_intr os signo func) (\<lambda>sigfunc.
     if sigfunc = SIG_ERR then err_sys os ''signal_intr error'' else creturn sigfunc)"

text \<open>\<open>connect_alarm\<close> does nothing, so its address is all that matters.\<close>

definition connect_timeo :: "os \<Rightarrow> int \<Rightarrow> int \<Rightarrow> sockaddr \<Rightarrow> nat \<Rightarrow> int \<Rightarrow> ('z proc_scheme, int) cprog" where
  "connect_timeo os connect_alarm sockfd saptr salen nsec =
     cbind (Signal os SIGALRM connect_alarm) (\<lambda>sigfunc.
     cbind (call os (C_lib ''alarm'' [V_int nsec])) (\<lambda>a.
     cbind (if rv a \<noteq> 0 then err_msg os ''connect_timeo: alarm was already set'' else creturn ()) (\<lambda>_.
     cbind (call os (C_connect sockfd saptr salen)) (\<lambda>n.
     cbind (if rv n < 0
            then cbind (call os (C_close sockfd)) (\<lambda>_.
                 cbind (cget errno) (\<lambda>e. if e = EINTR then set_errno ETIMEDOUT else creturn ()))
            else creturn ()) (\<lambda>_.
     cbind (call os (C_lib ''alarm'' [V_int 0])) (\<lambda>_.
     cbind (Signal os SIGALRM sigfunc) (\<lambda>_. creturn (rv n))))))))"

definition Connect_timeo :: "os \<Rightarrow> int \<Rightarrow> int \<Rightarrow> sockaddr \<Rightarrow> nat \<Rightarrow> int \<Rightarrow> ('z proc_scheme, unit) cprog" where
  "Connect_timeo os connect_alarm fd sa salen sec =
     cbind (connect_timeo os connect_alarm fd sa salen sec) (\<lambda>n.
     if n < 0 then err_sys os ''connect_timeo error'' else creturn ())"

section \<open>What one attempt promises\<close>

text \<open>\<open>getaddrinfo(3)\<close>: with success comes at least one address.\<close>

definition gai_ok :: "os \<Rightarrow> bool" where
  "gai_ok os \<longleftrightarrow> (\<forall>h host serv hint. rv (os h (C_getaddrinfo host serv hint)) = 0 \<longrightarrow>
     out_infos (os h (C_getaddrinfo host serv hint)) \<noteq> [])"

text \<open>
  \<open>trace fd res evs b\<close>: the calls \<open>evs\<close> are what an attempt on the descriptor \<open>fd\<close> did, and \<open>b\<close> is
  whether it succeeded. An attempt neither opens nor closes descriptors.
\<close>

definition opened :: "hist \<Rightarrow> int list" where
  "opened h = concat (map (\<lambda>(c, r). case c of C_socket _ _ _ \<Rightarrow> if rv r < 0 then [] else [rv r] | _ \<Rightarrow> []) h)"

definition closed :: "hist \<Rightarrow> int list" where
  "closed h = concat (map (\<lambda>(c, r). case c of C_close fd \<Rightarrow> if rv r = - 1 then [] else [fd] | _ \<Rightarrow> []) h)"

lemma opened_simps [simp]:
  "opened [] = []" "opened (h @ k) = opened h @ opened k"
  "opened ((c, r) # h) = (case c of C_socket _ _ _ \<Rightarrow> if rv r < 0 then [] else [rv r] | _ \<Rightarrow> []) @ opened h"
  by (simp_all add: opened_def)

lemma closed_simps [simp]:
  "closed [] = []" "closed (h @ k) = closed h @ closed k"
  "closed ((c, r) # h) = (case c of C_close fd \<Rightarrow> if rv r = - 1 then [] else [fd] | _ \<Rightarrow> []) @ closed h"
  by (simp_all add: closed_def)

text \<open>The calls of an address that was given up: no socket, or one that was closed again.\<close>

definition given_up :: "(int \<Rightarrow> addrinfo \<Rightarrow> hist \<Rightarrow> bool \<Rightarrow> bool) \<Rightarrow> addrinfo \<Rightarrow> hist \<Rightarrow> bool" where
  "given_up trace res evs \<longleftrightarrow>
     (\<exists>r. evs = [(C_socket (ai_family res) (ai_socktype res) (ai_protocol res), r)] \<and> rv r < 0) \<or>
     (\<exists>r tr c. evs = (C_socket (ai_family res) (ai_socktype res) (ai_protocol res), r) # tr @ [(C_close (rv r), c)] \<and>
        0 \<le> rv r \<and> trace (rv r) res tr False \<and> rv c \<noteq> - 1)"

text \<open>The outcome of the loop: the first address whose attempt succeeded, after those before it were
  given up.\<close>

definition tried :: "(int \<Rightarrow> addrinfo \<Rightarrow> hist \<Rightarrow> bool \<Rightarrow> bool) \<Rightarrow> addrinfo list \<Rightarrow> hist \<Rightarrow> (int \<times> addrinfo) option \<Rightarrow> bool" where
  "tried trace infos evs found \<longleftrightarrow> (case found of
       None \<Rightarrow> \<exists>evss. list_all2 (given_up trace) infos evss \<and> evs = concat evss
     | Some (fd, res) \<Rightarrow> \<exists>pre post evss r tr.
         infos = pre @ res # post \<and> list_all2 (given_up trace) pre evss \<and>
         evs = concat evss @ (C_socket (ai_family res) (ai_socktype res) (ai_protocol res), r) # tr \<and>
         rv r = fd \<and> 0 \<le> fd \<and> trace fd res tr True)"

lemma tried_here: "0 \<le> rv r \<Longrightarrow> trace (rv r) res tr True \<Longrightarrow>
    tried trace (res # rest) ((C_socket (ai_family res) (ai_socktype res) (ai_protocol res), r) # tr) (Some (rv r, res))"
  unfolding tried_def by (simp, intro exI[of _ "[]"] exI[of _ rest]) auto

lemma tried_later:
  assumes "given_up trace res evs" and "tried trace rest evs' found"
  shows "tried trace (res # rest) (evs @ evs') found"
proof (cases found)
  case None
  with assms(2) obtain evss where "list_all2 (given_up trace) rest evss" "evs' = concat evss" by (auto simp: tried_def)
  with assms(1) None show ?thesis by (auto simp: tried_def intro!: exI[of _ "evs # evss"])
next
  case (Some p)
  obtain fd ai where p: "p = (fd, ai)" by (cases p)
  with assms(2) Some obtain pre post evss r tr where "rest = pre @ ai # post" "list_all2 (given_up trace) pre evss"
    "evs' = concat evss @ (C_socket (ai_family ai) (ai_socktype ai) (ai_protocol ai), r) # tr"
    "rv r = fd" "0 \<le> fd" "trace fd ai tr True" by (auto simp: tried_def)
  with assms(1) Some p show ?thesis
    unfolding tried_def by (simp, intro exI[of _ "res # pre"] exI[of _ post] conjI exI[of _ "evs # evss"]) auto
qed

locale socket_attempt =
  fixes os :: os and attempt :: "int \<Rightarrow> addrinfo \<Rightarrow> ('z proc_scheme, bool) cprog"
    and trace :: "int \<Rightarrow> addrinfo \<Rightarrow> hist \<Rightarrow> bool \<Rightarrow> bool"
  assumes attempt_wp: "wp (attempt fd res) (\<lambda>r t. case r of
         Ret b \<Rightarrow> \<exists>evs. calls t = calls s @ evs \<and> trace fd res evs b | Exit n \<Rightarrow> n = 1 | Abort \<Rightarrow> False) s"
    and no_descriptors: "trace fd res evs b \<Longrightarrow> opened evs = [] \<and> closed evs = []"
begin

lemma try_each_wp:
  "wp (try_each os attempt infos) (\<lambda>r t. case r of
       Ret found \<Rightarrow> \<exists>evs. calls t = calls s @ evs \<and> tried trace infos evs found | Exit n \<Rightarrow> n = 1 | Abort \<Rightarrow> False) s"
proof (induction infos arbitrary: s)
  case Nil
  show ?case by (simp only: try_each.simps wp_simps) (simp add: tried_def)
next
  case (Cons res rest)
  let ?c = "C_socket (ai_family res) (ai_socktype res) (ai_protocol res)"
  let ?r = "os (calls s) ?c" and ?s1 = "after os (C_socket (ai_family res) (ai_socktype res) (ai_protocol res)) s"
  let ?Q = "\<lambda>r t. case r of Ret found \<Rightarrow> \<exists>evs. calls t = calls s @ evs \<and> tried trace (res # rest) evs found
                      | Exit n \<Rightarrow> n = 1 | Abort \<Rightarrow> False"
  have later: "wp (try_each os attempt rest) ?Q t" if g: "given_up trace res evs" and t: "calls t = calls s @ evs" for t evs
    using Cons.IH[of t] t tried_later[OF g] by (auto elim!: wp_mono split: outcome.splits)
  show ?case
  proof (cases "rv ?r < 0")
    case True
    then have "given_up trace res [(?c, ?r)]" by (simp add: given_up_def)
    from later[OF this, of ?s1] True show ?thesis by (simp only: try_each.simps wp_simps) simp
  next
    case False
    have go: "wp (cbind (Close os (rv ?r)) (\<lambda>_. try_each os attempt rest)) ?Q t"
      if tr: "trace (rv ?r) res evs False" and t: "calls t = ((calls s @ [(?c, ?r)]) @ evs)" for t evs
    proof -
      let ?d = "os (calls t) (C_close (rv ?r))"
      have "given_up trace res ((?c, ?r) # evs @ [(C_close (rv ?r), ?d)])" if "rv ?d \<noteq> - 1"
        using that tr False by (auto simp: given_up_def)
      from later[OF this, of "after os (C_close (rv ?r)) t"] t show ?thesis
        by (simp only: Close_def wp_simps) simp
    qed
    let ?k = "\<lambda>success. if success then creturn (Some (rv ?r, res)) else cbind (Close os (rv ?r)) (\<lambda>_. try_each os attempt rest)"
    have k: "wp (?k b) ?Q t" if "trace (rv ?r) res evs b" "calls t = (calls s @ [(?c, ?r)]) @ evs" for b evs t
      using tried_here[of ?r trace res evs rest] go[of evs t] that False by (cases b) (auto simp: wp_basic)
    have "wp (attempt (rv ?r) res)
        (\<lambda>r t. case r of Ret b \<Rightarrow> wp (?k b) ?Q t | Exit n \<Rightarrow> ?Q (Exit n) t | Abort \<Rightarrow> ?Q Abort t) ?s1"
    proof (rule wp_mono[OF attempt_wp[of "rv ?r" res ?s1]])
      fix r and t :: "'z proc_scheme"
      assume r: "case r of Ret b \<Rightarrow> \<exists>evs. calls t = calls ?s1 @ evs \<and> trace (rv ?r) res evs b
                       | Exit n \<Rightarrow> n = 1 | Abort \<Rightarrow> False"
      show "case r of Ret b \<Rightarrow> wp (?k b) ?Q t | Exit n \<Rightarrow> ?Q (Exit n) t | Abort \<Rightarrow> ?Q Abort t"
      proof (cases r)
        case (Ret b)
        then obtain evs where "calls t = calls ?s1 @ evs" "trace (rv ?r) res evs b" using r by auto
        then show ?thesis unfolding Ret outcome.case by (intro k[of evs b t]) simp_all
      qed (use r in simp_all)
    qed
    then show ?thesis by (simp only: try_each.simps wp_bind wp_call outcome.case False if_False)
  qed
qed

lemma given_up_balance: "given_up trace res evs \<Longrightarrow> opened evs = closed evs"
  by (auto simp: given_up_def dest!: no_descriptors)

lemma all_given_up_balance: "list_all2 (given_up trace) infos evss \<Longrightarrow> opened (concat evss) = closed (concat evss)"
  by (induction rule: list_all2_induct) (auto dest: given_up_balance)

lemma tried_balance: "tried trace infos evs found \<Longrightarrow>
    opened evs = closed evs @ (case found of None \<Rightarrow> [] | Some (fd, res) \<Rightarrow> [fd])"
  by (auto simp: tried_def dest!: all_given_up_balance no_descriptors split: option.splits)

lemma resolve_and_try_wp:
  assumes fin: "\<And>fd res s. wp (fin fd res) (\<lambda>r t. case r of
      Ret a \<Rightarrow> \<exists>evs. calls t = calls s @ evs \<and> P fd res evs a | Exit n \<Rightarrow> n = 1 | Abort \<Rightarrow> False) s"
  shows "wp (resolve_and_try os who hint attempt host serv fin) (\<lambda>r t. case r of
      Ret a \<Rightarrow> \<exists>g evs fd res fevs f.
        calls t = calls s @ (C_getaddrinfo (Some host) (Some serv) hint, g) # evs @ fevs @ [(C_lib ''freeaddrinfo'' [V_infos (out_infos g)], f)] \<and>
        rv g = 0 \<and> tried trace (out_infos g) evs (Some (fd, res)) \<and> P fd res fevs a
    | Exit n \<Rightarrow> n = 1 | Abort \<Rightarrow> \<not> gai_ok os) s"
    (is "wp _ ?Q s")
proof -
  let ?c = "C_getaddrinfo (Some host) (Some serv) hint"
  let ?g = "os (calls s) ?c" and ?s1 = "after os ?c s"
  let ?free = "C_lib ''freeaddrinfo'' [V_infos (out_infos ?g)]"
  let ?k = "\<lambda>found. case found of
         None \<Rightarrow> err_sys os (who @ '' error for '' @ host @ '', '' @ serv)
       | Some (sockfd, res) \<Rightarrow> cbind (fin sockfd res) (\<lambda>a. cbind (call os ?free) (\<lambda>_. creturn a))"
  have k: "wp (?k found) ?Q t" if found: "tried trace (out_infos ?g) evs found" and t: "calls t = calls ?s1 @ evs"
    and g: "rv ?g = 0" for found evs and t :: "'z proc_scheme"
  proof (cases found)
    case None
    then show ?thesis by (simp add: wp_err)
  next
    case (Some p)
    obtain fd res where p: "p = (fd, res)" by (cases p)
    have "wp (fin fd res) (\<lambda>r t. case r of Ret a \<Rightarrow> wp (cbind (call os ?free) (\<lambda>_. creturn a)) ?Q t
        | Exit n \<Rightarrow> ?Q (Exit n) t | Abort \<Rightarrow> ?Q Abort t) t"
    proof (rule wp_mono[OF fin[of fd res t]])
      fix r and u :: "'z proc_scheme"
      assume r: "case r of Ret a \<Rightarrow> \<exists>evs. calls u = calls t @ evs \<and> P fd res evs a | Exit n \<Rightarrow> n = 1 | Abort \<Rightarrow> False"
      show "case r of Ret a \<Rightarrow> wp (cbind (call os ?free) (\<lambda>_. creturn a)) ?Q u
        | Exit n \<Rightarrow> ?Q (Exit n) u | Abort \<Rightarrow> ?Q Abort u"
      proof (cases r)
        case (Ret a)
        then obtain fevs where u: "calls u = calls t @ fevs" "P fd res fevs a" using r by auto
        have "calls (after os ?free u) = calls s @ (?c, ?g) # evs @ fevs @ [(?free, os (calls u) ?free)]"
          using u t by simp
        then show ?thesis
          unfolding Ret outcome.case wp_bind wp_call wp_basic using u(2) found g Some p by blast
      qed (use r in simp_all)
    qed
    then show ?thesis using Some p by (simp only: wp_bind option.case prod.case)
  qed
  have "wp (try_each os attempt (out_infos ?g))
      (\<lambda>r t. case r of Ret found \<Rightarrow> wp (?k found) ?Q t | Exit n \<Rightarrow> ?Q (Exit n) t | Abort \<Rightarrow> ?Q Abort t) ?s1" if "rv ?g = 0"
  proof (rule wp_mono[OF try_each_wp[of "out_infos ?g" ?s1]])
    fix r and u :: "'z proc_scheme"
    assume r: "case r of Ret found \<Rightarrow> \<exists>evs. calls u = calls ?s1 @ evs \<and> tried trace (out_infos ?g) evs found
        | Exit n \<Rightarrow> n = 1 | Abort \<Rightarrow> False"
    show "case r of Ret found \<Rightarrow> wp (?k found) ?Q u | Exit n \<Rightarrow> ?Q (Exit n) u | Abort \<Rightarrow> ?Q Abort u"
    proof (cases r)
      case (Ret found)
      then obtain evs where "tried trace (out_infos ?g) evs found" "calls u = calls ?s1 @ evs" using r by auto
      then show ?thesis unfolding Ret outcome.case using that by (rule k)
    qed (use r in simp_all)
  qed
  moreover have "\<not> gai_ok os" if "rv ?g = 0" "out_infos ?g = []" using that by (auto simp: gai_ok_def)
  ultimately show ?thesis
    by (simp only: resolve_and_try_def gai_quit_def wp_simps outcome.case) simp
qed

end

definition connect_trace :: "int \<Rightarrow> addrinfo \<Rightarrow> hist \<Rightarrow> bool \<Rightarrow> bool" where
  "connect_trace fd res evs b \<longleftrightarrow> (\<exists>r. evs = [(C_connect fd (ai_addr res) (ai_addrlen res), r)] \<and> b = (rv r = 0))"

definition bind_trace :: "int \<Rightarrow> addrinfo \<Rightarrow> hist \<Rightarrow> bool \<Rightarrow> bool" where
  "bind_trace fd res evs b \<longleftrightarrow> (\<exists>r. evs = [(C_bind fd (ai_addr res) (ai_addrlen res), r)] \<and> b = (rv r = 0))"

definition reuse_bind_trace :: "int \<Rightarrow> addrinfo \<Rightarrow> hist \<Rightarrow> bool \<Rightarrow> bool" where
  "reuse_bind_trace fd res evs b \<longleftrightarrow> (\<exists>o1 tr. evs = (C_setsockopt fd SOL_SOCKET SO_REUSEADDR [1, 0, 0, 0], o1) # tr \<and>
     0 \<le> rv o1 \<and> bind_trace fd res tr b)"

definition none_trace :: "int \<Rightarrow> addrinfo \<Rightarrow> hist \<Rightarrow> bool \<Rightarrow> bool" where
  "none_trace fd res evs b \<longleftrightarrow> evs = [] \<and> b"

interpretation by_connect: socket_attempt os "attempt_connect os" connect_trace for os
  by unfold_locales (auto simp: attempt_connect_def connect_trace_def wp_bind wp_call wp_basic)

interpretation by_bind: socket_attempt os "attempt_bind os" bind_trace for os
  by unfold_locales (auto simp: attempt_bind_def bind_trace_def wp_bind wp_call wp_basic)

interpretation by_reuse_bind: socket_attempt os "attempt_reuse_bind os" reuse_bind_trace for os
  by unfold_locales (auto simp: attempt_reuse_bind_def attempt_bind_def Setsockopt_def reuse_bind_trace_def bind_trace_def
      wp_bind wp_call wp_basic wp_if wp_err)

interpretation by_none: socket_attempt os attempt_none none_trace for os
  by unfold_locales (auto simp: attempt_none_def none_trace_def wp_basic)


text \<open>The descriptors of the calls that a function added to the history.\<close>

definition new_calls :: "'z proc_scheme \<Rightarrow> 'y proc_scheme \<Rightarrow> hist" where
  "new_calls s t = drop (length (calls s)) (calls t)"

definition keeps_only :: "('a \<Rightarrow> int) \<Rightarrow> ('z proc_scheme, 'a) cprog \<Rightarrow> 'z proc_scheme \<Rightarrow> bool" where
  "keeps_only fd_of m s \<longleftrightarrow> wp m (\<lambda>r t. case r of
      Ret a \<Rightarrow> calls t = calls s @ new_calls s t \<and> opened (new_calls s t) = closed (new_calls s t) @ [fd_of a]
    | Exit n \<Rightarrow> n = 1 | Abort \<Rightarrow> True) s"

context socket_attempt
begin

lemma resolve_keeps_only:
  assumes "\<And>fd res s. wp (fin fd res) (\<lambda>r t. case r of
      Ret a \<Rightarrow> \<exists>evs. calls t = calls s @ evs \<and> (opened evs = [] \<and> closed evs = [] \<and> fd_of a = fd) | Exit n \<Rightarrow> n = 1 | Abort \<Rightarrow> False) s"
  shows "keeps_only fd_of (resolve_and_try os who hint attempt host serv fin) s"
  unfolding keeps_only_def
  by (rule wp_mono[OF resolve_and_try_wp[OF assms]])
    (auto simp: new_calls_def dest!: tried_balance split: outcome.splits)

end

text \<open>
  C8. No descriptor is leaked: each of \<open>tcp_connect\<close>, \<open>tcp_listen\<close>, \<open>udp_client\<close>,
  \<open>udp_connect\<close> and \<open>udp_server\<close> ends, and when it returns, the sockets that it opened are those it
  closed, in the same order, and at last the one it returns.
\<close>

theorem sockets_not_leaked:
  "keeps_only id (tcp_connect os host serv) s \<and> keeps_only fst (tcp_listen os host serv) s \<and>
   keeps_only fst (udp_client os host serv) s \<and> keeps_only id (udp_connect os host serv) s \<and>
   keeps_only fst (udp_server os host serv) s"
proof (intro conjI)
  show "keeps_only id (tcp_connect os host serv) s" unfolding tcp_connect_def
    by (rule by_connect.resolve_keeps_only) (simp add: wp_basic)
  show "keeps_only id (udp_connect os host serv) s" unfolding udp_connect_def
    by (rule by_connect.resolve_keeps_only) (simp add: wp_basic)
  show "keeps_only fst (udp_server os host serv) s" unfolding udp_server_def
    by (rule by_bind.resolve_keeps_only) (simp add: wp_basic)
  show "keeps_only fst (tcp_listen os host serv) s" unfolding tcp_listen_def
    by (rule by_reuse_bind.resolve_keeps_only) (simp add: Listen_def Let_def wp_bind wp_call wp_basic wp_if wp_err)
  show "keeps_only fst (udp_client os host serv) s" unfolding udp_client_def
    by (rule by_none.resolve_keeps_only) (simp add: Malloc_def wp_bind wp_call wp_basic wp_if wp_err)
qed

section \<open>Connecting with a timeout\<close>




end
