(* ===== verification/Gai.thy ===== *)
theory Gai
  imports Sock_Util
begin

text \<open>
  The implementation of \<open>getaddrinfo\<close>, \<open>freeaddrinfo\<close>, \<open>getnameinfo\<close> and \<open>gai_strerror\<close> in libgai/. The
  linked list of \<open>addrinfo\<close> structures is a list; a structure also records the memory it, its address and
  its canonical name occupy, as the pointers the allocator returned (0 is the null pointer), so that
  what is freed can be compared with what was allocated. Allocation can fail at every call. The resolver,
  the services database and the allocator are calls of the environment; the option bits of the resolver
  extend the state of the process. Error numbers and the flags of \<open>getnameinfo\<close> are symbolic, since their
  values depend on which header is used.
\<close>

section \<open>Data\<close>

datatype eai = EAI_ADDRFAMILY | EAI_AGAIN | EAI_BADFLAGS | EAI_FAIL | EAI_FAMILY | EAI_MEMORY | EAI_NODATA
  | EAI_NONAME | EAI_SERVICE | EAI_SOCKTYPE | EAI_SYSTEM | EAI_other int

datatype ni_flag = NI_NOFQDN | NI_NUMERICHOST | NI_NAMEREQD | NI_NUMERICSERV | NI_DGRAM

record gai = addrinfo +
  ai_mem :: int
  addr_mem :: int
  canon_mem :: int

record search =
  shost :: string
  sfamily :: int

record res_proc = proc +
  res_options :: int

abbreviation (input) AI_CLONE :: int where "AI_CLONE \<equiv> 4"
abbreviation (input) AF_LOCAL :: int where "AF_LOCAL \<equiv> AF_UNIX"
abbreviation (input) SOCK_RAW' :: int where "SOCK_RAW' \<equiv> 3"
abbreviation (input) RES_INIT :: int where "RES_INIT \<equiv> 1"
abbreviation (input) RES_USE_INET6 :: int where "RES_USE_INET6 \<equiv> 0x2000"

text \<open>The memory an address argument points to: the bytes of an internet address or a path name.\<close>

datatype addr_arg = Addr_bytes "byte list" | Addr_path string

definition is_null :: "string option \<Rightarrow> bool" where
  "is_null x = (case x of None \<Rightarrow> True | Some t \<Rightarrow> t = [])"

definition isdigit_first :: "string \<Rightarrow> bool" where
  "isdigit_first t = (t \<noteq> [] \<and> is_digit (hd t))"

definition isxdigit_first :: "string \<Rightarrow> bool" where
  "isxdigit_first t = (isdigit_first t \<or> t \<noteq> [] \<and> (65 \<le> (of_char (hd t) :: nat) \<and> (of_char (hd t) :: nat) \<le> 70 \<or>
     97 \<le> (of_char (hd t) :: nat) \<and> (of_char (hd t) :: nat) \<le> 102))"

section \<open>Errors and searches\<close>

fun gai_strerror :: "eai \<Rightarrow> string" where
  "gai_strerror EAI_ADDRFAMILY = ''address family for host not supported''"
| "gai_strerror EAI_AGAIN = ''temporary failure in name resolution''"
| "gai_strerror EAI_BADFLAGS = ''invalid flags value''"
| "gai_strerror EAI_FAIL = ''non-recoverable failure in name resolution''"
| "gai_strerror EAI_FAMILY = ''address family not supported''"
| "gai_strerror EAI_MEMORY = ''memory allocation failure''"
| "gai_strerror EAI_NODATA = ''no address associated with host''"
| "gai_strerror EAI_NONAME = ''host nor service provided, or not known''"
| "gai_strerror EAI_SERVICE = ''service not supported for socket type''"
| "gai_strerror EAI_SOCKTYPE = ''socket type not supported''"
| "gai_strerror EAI_SYSTEM = ''system error''"
| "gai_strerror (EAI_other n) = ''unknown getaddrinfo() error''"

definition ga_echeck :: "string option \<Rightarrow> string option \<Rightarrow> int \<Rightarrow> int \<Rightarrow> int \<Rightarrow> int \<Rightarrow> eai option" where
  "ga_echeck hostname servname flags family socktype protocol =
     (if flags AND NOT (AI_PASSIVE OR AI_CANONNAME) \<noteq> 0 then Some EAI_BADFLAGS
      else if is_null hostname \<and> is_null servname then Some EAI_NONAME
      else if family = AF_UNSPEC then None
      else if family = AF_INET \<or> family = AF_INET6 then
        if socktype \<noteq> 0 \<and> socktype \<noteq> SOCK_STREAM \<and> socktype \<noteq> SOCK_DGRAM \<and> socktype \<noteq> SOCK_RAW' then Some EAI_SOCKTYPE else None
      else if family = AF_LOCAL then
        if socktype \<noteq> 0 \<and> socktype \<noteq> SOCK_STREAM \<and> socktype \<noteq> SOCK_DGRAM then Some EAI_SOCKTYPE else None
      else Some EAI_FAMILY)"

definition search_v4 :: "string \<Rightarrow> search" where "search_v4 h = \<lparr>shost = h, sfamily = AF_INET\<rparr>"
definition search_v6 :: "string \<Rightarrow> search" where "search_v6 h = \<lparr>shost = h, sfamily = AF_INET6\<rparr>"

definition ga_search :: "string option \<Rightarrow> int \<Rightarrow> int \<Rightarrow> search list" where
  "ga_search hostname flags fam =
     (if is_null hostname then
        if flags AND AI_PASSIVE \<noteq> 0 then
          if fam = AF_INET then [search_v4 ''0.0.0.0'']
          else if fam = AF_INET6 then [search_v6 ''0::0'']
          else if fam = AF_UNSPEC then [search_v6 ''0::0'', search_v4 ''0.0.0.0'']
          else []
        else
          if fam = AF_INET then [search_v4 ''localhost'']
          else if fam = AF_INET6 then [search_v6 ''0::1'']
          else if fam = AF_UNSPEC then [search_v6 ''0::1'', search_v4 ''localhost'']
          else []
      else
        let h = the hostname in
        if fam = AF_INET then [search_v4 h]
        else if fam = AF_INET6 then [search_v6 h]
        else if fam = AF_UNSPEC then [search_v6 h, search_v4 h]
        else [])"

definition ga_nsearch :: "os \<Rightarrow> string option \<Rightarrow> ('a addrinfo_scheme) \<Rightarrow> ('z proc_scheme, search list) cprog" where
  "ga_nsearch os hostname hint =
     (let search = ga_search hostname (ai_flags hint) (ai_family hint); nsearch = length search in
      if nsearch < 1 \<or> nsearch > 2 then err_quit os (''nsearch = '' @ print_radix 10 nsearch) else creturn search)"

section \<open>Structures\<close>

text \<open>\<open>ga_aistruct\<close> appends to the list; with an error the list has what was appended before it.\<close>

definition ga_aistruct ::
    "os \<Rightarrow> ('a addrinfo_scheme) \<Rightarrow> addr_arg \<Rightarrow> int \<Rightarrow> gai list \<Rightarrow> ('z proc_scheme, eai option \<times> gai list) cprog" where
  "ga_aistruct os hint addr fam ais =
     cbind (call os (C_lib ''calloc'' [V_int 1, V_int 48])) (\<lambda>p.
     if rv p = 0 then creturn (Some EAI_MEMORY, ais)
     else
     let ai = \<lparr>ai_flags = (if ai_socktype hint = 0 then AI_CLONE else 0), ai_family = fam, ai_socktype = ai_socktype hint,
          ai_protocol = ai_protocol hint, ai_addrlen = 0, ai_canonname = None, ai_addr = null_addr,
          ai_mem = rv p, addr_mem = 0, canon_mem = 0\<rparr> in
     if fam = AF_INET then
       cbind (call os (C_lib ''calloc'' [V_int 1, V_int 16])) (\<lambda>q.
       if rv q = 0 then creturn (Some EAI_MEMORY, ais @ [ai])
       else creturn (None, ais @ [ai\<lparr>ai_addr := Sockaddr_in 0 (case addr of Addr_bytes bs \<Rightarrow> take 4 bs | _ \<Rightarrow> []),
              ai_addrlen := 16, addr_mem := rv q\<rparr>]))
     else if fam = AF_INET6 then
       cbind (call os (C_lib ''calloc'' [V_int 1, V_int 28])) (\<lambda>q.
       if rv q = 0 then creturn (Some EAI_MEMORY, ais @ [ai])
       else creturn (None, ais @ [ai\<lparr>ai_addr := Sockaddr_in6 0 (case addr of Addr_bytes bs \<Rightarrow> take 16 bs | _ \<Rightarrow> []),
              ai_addrlen := 28, addr_mem := rv q\<rparr>]))
     else if fam = AF_LOCAL then
       let path = (case addr of Addr_path x \<Rightarrow> x | _ \<Rightarrow> []) in
       if length path \<ge> 108 then creturn (Some EAI_SERVICE, ais @ [ai])
       else
       cbind (call os (C_lib ''calloc'' [V_int 1, V_int 110])) (\<lambda>q.
       if rv q = 0 then creturn (Some EAI_MEMORY, ais @ [ai])
       else
       cbind (if ai_flags hint AND AI_PASSIVE \<noteq> 0 then call os (C_lib ''unlink'' [V_str path]) else creturn (ok 0)) (\<lambda>_.
       creturn (None, ais @ [ai\<lparr>ai_addr := Sockaddr_un path, ai_addrlen := 110, addr_mem := rv q\<rparr>])))
     else creturn (None, ais @ [ai]))"

text \<open>The copy, or \<open>None\<close> for the null pointer; the second component is what was linked into the list behind
  the original.\<close>

definition ga_clone :: "os \<Rightarrow> gai \<Rightarrow> ('z proc_scheme, gai option \<times> gai list) cprog" where
  "ga_clone os ai =
     cbind (call os (C_lib ''calloc'' [V_int 1, V_int 48])) (\<lambda>p.
     if rv p = 0 then creturn (None, [])
     else
     let new = ai\<lparr>ai_flags := 0, ai_canonname := None, ai_addr := null_addr, ai_mem := rv p, addr_mem := 0, canon_mem := 0\<rparr> in
     cbind (call os (C_lib ''malloc'' [V_int (int (ai_addrlen ai))])) (\<lambda>q.
     if rv q = 0 then creturn (None, [new])
     else let new = new\<lparr>ai_addr := ai_addr ai, addr_mem := rv q\<rparr> in creturn (Some new, [new])))"

definition set_port_type :: "int \<Rightarrow> int \<Rightarrow> gai \<Rightarrow> gai" where
  "set_port_type port socktype ai =
     (if ai_family ai = AF_INET \<or> ai_family ai = AF_INET6
      then ai\<lparr>ai_socktype := socktype, ai_addr := sock_set_port (ai_addr ai) (ai_addrlen ai) port\<rparr>
      else ai\<lparr>ai_socktype := socktype\<rparr>)"

definition counted :: "gai \<Rightarrow> int" where
  "counted ai = (if ai_family ai = AF_INET \<or> ai_family ai = AF_INET6 then 1 else 0)"

text \<open>The loop over the structures: the list and \<open>nfound\<close>, -1 when a copy cannot be made.\<close>

fun ga_port :: "os \<Rightarrow> gai list \<Rightarrow> int \<Rightarrow> int \<Rightarrow> ('z proc_scheme, gai list \<times> int) cprog" where
  "ga_port os [] port socktype = creturn ([], 0)"
| "ga_port os (ai # rest) port socktype =
     (if ai_flags ai AND AI_CLONE \<noteq> 0 then
        if ai_socktype ai \<noteq> 0 then
          cbind (ga_clone os ai) (\<lambda>(new, linked).
          case new of
            None \<Rightarrow> creturn (ai # linked @ rest, - 1)
          | Some new \<Rightarrow>
              cbind (ga_port os rest port socktype) (\<lambda>(rest', n).
              creturn (ai # set_port_type port socktype new # rest', if n < 0 then n else counted new + n)))
        else
          cbind (ga_port os rest port socktype) (\<lambda>(rest', n).
          creturn (set_port_type port socktype ai # rest', if n < 0 then n else counted ai + n))
      else if ai_socktype ai \<noteq> socktype then
        cbind (ga_port os rest port socktype) (\<lambda>(rest', n). creturn (ai # rest', n))
      else
        cbind (ga_port os rest port socktype) (\<lambda>(rest', n).
        creturn (set_port_type port socktype ai # rest', if n < 0 then n else counted ai + n)))"

text \<open>The service name for one protocol, when the caller's socket type allows it.\<close>

definition ga_try_service :: "os \<Rightarrow> gai list \<Rightarrow> ('a addrinfo_scheme) \<Rightarrow> string \<Rightarrow> string \<Rightarrow> int \<Rightarrow>
    ('z proc_scheme, gai list \<times> int) cprog" where
  "ga_try_service os ais hint serv proto socktype =
     (if ai_socktype hint = 0 \<or> ai_socktype hint = socktype then
        cbind (call os (C_lib ''getservbyname'' [V_str serv, V_str proto])) (\<lambda>sptr.
        if rv sptr \<noteq> 0 then ga_port os ais (out_int sptr) socktype else creturn (ais, 0))
      else creturn (ais, 0))"

definition ga_serv ::
    "os \<Rightarrow> gai list \<Rightarrow> ('a addrinfo_scheme) \<Rightarrow> string \<Rightarrow> ('z proc_scheme, eai option \<times> gai list) cprog" where
  "ga_serv os ais hint serv =
     cbind (if isdigit_first serv then
              let port = uint (ntohs (word_of_int (atoi serv))) in
              if ai_socktype hint \<noteq> 0 then ga_port os ais port (ai_socktype hint)
              else cbind (ga_port os ais port SOCK_STREAM) (\<lambda>(ais, rc).
                   if rc < 0 then creturn (ais, rc)
                   else cbind (ga_port os ais port SOCK_DGRAM) (\<lambda>(ais, rc2).
                        creturn (ais, if rc2 < 0 then rc2 else rc + rc2)))
            else
              cbind (ga_try_service os ais hint serv ''tcp'' SOCK_STREAM) (\<lambda>(ais, rc).
              if rc < 0 then creturn (ais, rc)
              else cbind (ga_try_service os ais hint serv ''udp'' SOCK_DGRAM) (\<lambda>(ais, rc2).
                   creturn (ais, if rc2 < 0 then rc2 else rc + rc2)))) (\<lambda>(ais, nfound).
     if nfound < 0 then creturn (Some EAI_MEMORY, ais)
     else if nfound = 0 then creturn (Some (if ai_socktype hint = 0 then EAI_NONAME else EAI_SERVICE), ais)
     else creturn (None, ais))"

section \<open>freeaddrinfo and getaddrinfo\<close>

fun freeaddrinfo :: "os \<Rightarrow> gai list \<Rightarrow> ('z proc_scheme, unit) cprog" where
  "freeaddrinfo os [] = creturn ()"
| "freeaddrinfo os (ai # rest) =
     cbind (if addr_mem ai \<noteq> 0 then call os (C_lib ''free'' [V_int (addr_mem ai)]) else creturn (ok 0)) (\<lambda>_.
     cbind (if canon_mem ai \<noteq> 0 then call os (C_lib ''free'' [V_int (canon_mem ai)]) else creturn (ok 0)) (\<lambda>_.
     cbind (call os (C_lib ''free'' [V_int (ai_mem ai)])) (\<lambda>_.
     freeaddrinfo os rest)))"

text \<open>\<open>strdup\<close>: the copy and its memory.\<close>

definition strdup :: "os \<Rightarrow> string \<Rightarrow> ('z proc_scheme, (string \<times> int) option) cprog" where
  "strdup os t = cbind (call os (C_lib ''strdup'' [V_str t])) (\<lambda>r. creturn (if rv r = 0 then None else Some (t, rv r)))"

definition set_canon :: "string \<times> int \<Rightarrow> gai list \<Rightarrow> gai list" where
  "set_canon c ais = (case ais of [] \<Rightarrow> [] | ai # rest \<Rightarrow> ai\<lparr>ai_canonname := Some (fst c), canon_mem := snd c\<rparr> # rest)"

definition ga_unix :: "os \<Rightarrow> string \<Rightarrow> addrinfo \<Rightarrow> ('z proc_scheme, eai + gai list) cprog" where
  "ga_unix os path hint =
     (if ai_family hint \<noteq> AF_UNSPEC \<and> ai_family hint \<noteq> AF_LOCAL then creturn (Inl EAI_ADDRFAMILY)
      else
      cbind (if ai_socktype hint = 0
             then cbind (ga_aistruct os (hint\<lparr>ai_socktype := SOCK_STREAM\<rparr>) (Addr_path path) AF_LOCAL []) (\<lambda>(rc, ais).
                  creturn (rc, ais, hint\<lparr>ai_socktype := SOCK_DGRAM\<rparr>))
             else creturn (None, [], hint)) (\<lambda>(rc, ais, hint).
      if rc \<noteq> None then creturn (Inl (the rc))
      else
      cbind (ga_aistruct os hint (Addr_path path) AF_LOCAL ais) (\<lambda>(rc, ais).
      if rc \<noteq> None then creturn (Inl (the rc))
      else if ai_flags hint AND AI_CANONNAME \<noteq> 0 then
        cbind (call os (C_lib ''uname'' [])) (\<lambda>u.
        if rv u < 0 then creturn (Inl EAI_SYSTEM)
        else cbind (strdup os (out_str u)) (\<lambda>c.
             case c of None \<Rightarrow> creturn (Inl EAI_MEMORY) | Some c \<Rightarrow> creturn (Inr (set_canon c ais))))
      else creturn (Inr ais))))"

text \<open>A \<open>struct hostent\<close>: the name, the type and the addresses; a failure answers with \<open>h_errno\<close>.\<close>

definition h_name :: "sysret \<Rightarrow> string" where "h_name r = out_str r"
definition h_addrtype :: "sysret \<Rightarrow> int" where
  "h_addrtype r = (case outs r of _ # V_int t # _ \<Rightarrow> t | _ \<Rightarrow> 0)"
definition h_addr_list :: "sysret \<Rightarrow> byte list list" where
  "h_addr_list r = concat (map (\<lambda>v. case v of V_bytes a \<Rightarrow> [a] | _ \<Rightarrow> []) (drop 2 (outs r)))"

definition h_error :: "int \<Rightarrow> eai" where
  "h_error h_errno = (if h_errno = 1 then EAI_NONAME else if h_errno = 2 then EAI_AGAIN
     else if h_errno = 3 then EAI_FAIL else if h_errno = 4 then EAI_NODATA else EAI_NONAME)"

fun ga_addresses :: "os \<Rightarrow> addrinfo \<Rightarrow> int \<Rightarrow> byte list list \<Rightarrow> gai list \<Rightarrow> ('z proc_scheme, eai option \<times> gai list) cprog" where
  "ga_addresses os hint ty [] ais = creturn (None, ais)"
| "ga_addresses os hint ty (a # as) ais =
     cbind (ga_aistruct os hint (Addr_bytes a) ty ais) (\<lambda>(rc, ais).
     if rc \<noteq> None then creturn (rc, ais) else ga_addresses os hint ty as ais)"

text \<open>Looking a name up, with the option bits of the resolver set for the family.\<close>

definition ga_gethost :: "os \<Rightarrow> nat \<Rightarrow> search \<Rightarrow> ('z res_proc_scheme, sysret) cprog" where
  "ga_gethost os nsearch sptr =
     cbind (cget res_options) (\<lambda>opts.
     cbind (if opts AND RES_INIT = 0
            then cbind (call os (C_lib ''res_init'' [])) (\<lambda>r. cupd (\<lambda>s. s\<lparr>res_options := out_int r\<rparr>)) else creturn ()) (\<lambda>_.
     if nsearch = 2 then
       cbind (cupd (\<lambda>s. s\<lparr>res_options := res_options s AND NOT RES_USE_INET6\<rparr>)) (\<lambda>_.
       call os (C_lib ''gethostbyname2'' [V_str (shost sptr), V_int (sfamily sptr)]))
     else
       cbind (cupd (\<lambda>s. s\<lparr>res_options := (if sfamily sptr = AF_INET6 then res_options s OR RES_USE_INET6
                                          else res_options s AND NOT RES_USE_INET6)\<rparr>)) (\<lambda>_.
       call os (C_lib ''gethostbyname'' [V_str (shost sptr)]))))"

type_synonym ga_state = "gai list \<times> (string \<times> int) option"

definition ga_lookup :: "os \<Rightarrow> string option \<Rightarrow> addrinfo \<Rightarrow> nat \<Rightarrow> search \<Rightarrow> ga_state \<Rightarrow>
    ('z res_proc_scheme, eai option \<times> ga_state) cprog" where
  "ga_lookup os hostname hint nsearch sptr st =
     cbind (ga_gethost os nsearch sptr) (\<lambda>hptr.
     if rv hptr = 0 then
       if nsearch = 2 then creturn (None, st) else creturn (Some (h_error (out_int hptr)), st)
     else if ai_family hint \<noteq> AF_UNSPEC \<and> ai_family hint \<noteq> h_addrtype hptr then creturn (Some EAI_ADDRFAMILY, st)
     else
     cbind (if \<not> is_null hostname \<and> ai_flags hint AND AI_CANONNAME \<noteq> 0 \<and> snd st = None
            then cbind (strdup os (h_name hptr)) (\<lambda>c. creturn (c, c = None))
            else creturn (snd st, False)) (\<lambda>(canon, failed).
     if failed then creturn (Some EAI_MEMORY, fst st, canon)
     else cbind (ga_addresses os hint (h_addrtype hptr) (h_addr_list hptr) (fst st)) (\<lambda>(rc, ais).
          creturn (rc, ais, canon))))"

text \<open>An address in numeric form, when the host is one.\<close>

definition v4_literal :: "string \<Rightarrow> byte list option" where
  "v4_literal h = (if isdigit_first h then (case inet_pton AF_INET h of Inr (Some a) \<Rightarrow> Some a | _ \<Rightarrow> None) else None)"

definition v6_literal :: "string \<Rightarrow> byte list option" where
  "v6_literal h = (if (isxdigit_first h \<or> h \<noteq> [] \<and> hd h = CHR '':'') \<and> CHR '':'' \<in> set h
     then (case inet_pton AF_INET6 h of Inr (Some a) \<Rightarrow> Some a | _ \<Rightarrow> None) else None)"

definition ga_literal :: "os \<Rightarrow> addrinfo \<Rightarrow> search \<Rightarrow> int \<Rightarrow> byte list \<Rightarrow> ga_state \<Rightarrow> ('z proc_scheme, eai option \<times> ga_state) cprog" where
  "ga_literal os hint sptr fam a st =
     (if ai_family hint \<noteq> AF_UNSPEC \<and> ai_family hint \<noteq> fam then creturn (Some EAI_ADDRFAMILY, st)
      else if sfamily sptr \<noteq> fam then creturn (None, st)
      else cbind (ga_aistruct os hint (Addr_bytes a) fam (fst st)) (\<lambda>(rc, ais). creturn (rc, ais, snd st)))"

fun ga_searches :: "os \<Rightarrow> string option \<Rightarrow> addrinfo \<Rightarrow> nat \<Rightarrow> search list \<Rightarrow> ga_state \<Rightarrow>
    ('z res_proc_scheme, eai option \<times> ga_state) cprog" where
  "ga_searches os hostname hint nsearch [] st = creturn (None, st)"
| "ga_searches os hostname hint nsearch (sptr # rest) st =
     cbind (case v4_literal (shost sptr) of
              Some a \<Rightarrow> ga_literal os hint sptr AF_INET a st
            | None \<Rightarrow> (case v6_literal (shost sptr) of
                Some a \<Rightarrow> ga_literal os hint sptr AF_INET6 a st
              | None \<Rightarrow> ga_lookup os hostname hint nsearch sptr st)) (\<lambda>(rc, st).
     if rc \<noteq> None then creturn (rc, st) else ga_searches os hostname hint nsearch rest st)"

text \<open>The label \<open>bad\<close>.\<close>

definition ga_bad :: "os \<Rightarrow> eai \<Rightarrow> gai list \<Rightarrow> ('z proc_scheme, eai + gai list) cprog" where
  "ga_bad os e ais = cbind (freeaddrinfo os ais) (\<lambda>_. creturn (Inl e))"

definition ga_finish :: "os \<Rightarrow> string option \<Rightarrow> string option \<Rightarrow> addrinfo \<Rightarrow> search list \<Rightarrow> ga_state \<Rightarrow>
    ('z res_proc_scheme, eai + gai list) cprog" where
  "ga_finish os hostname servname hint search st =
     (let (ais, canon) = st in
      if ais = [] then ga_bad os EAI_NONAME ais
      else
      cbind (if \<not> is_null hostname \<and> ai_flags hint AND AI_CANONNAME \<noteq> 0 then
               case canon of Some c \<Rightarrow> creturn (None, set_canon c ais)
               | None \<Rightarrow> cbind (strdup os (shost (hd search))) (\<lambda>c.
                   case c of None \<Rightarrow> creturn (Some EAI_MEMORY, ais) | Some c \<Rightarrow> creturn (None, set_canon c ais))
             else creturn (None, ais)) (\<lambda>(rc, ais).
      if rc \<noteq> None then ga_bad os (the rc) ais
      else
      cbind (if \<not> is_null servname then ga_serv os ais hint (the servname) else creturn (None, ais)) (\<lambda>(rc, ais).
      if rc \<noteq> None then ga_bad os (the rc) ais else creturn (Inr ais))))"

definition hints_of :: "addrinfo option \<Rightarrow> addrinfo" where
  "hints_of hintsp = (case hintsp of None \<Rightarrow> hints 0 AF_UNSPEC 0 | Some h \<Rightarrow> h)"

definition getaddrinfo :: "os \<Rightarrow> string option \<Rightarrow> string option \<Rightarrow> addrinfo option \<Rightarrow> ('z res_proc_scheme, eai + gai list) cprog" where
  "getaddrinfo os hostname servname hintsp =
     (let hint = hints_of hintsp in
      case ga_echeck hostname servname (ai_flags hint) (ai_family hint) (ai_socktype hint) (ai_protocol hint) of
        Some rc \<Rightarrow> ga_bad os rc []
      | None \<Rightarrow>
          if (hostname = Some ''/local'' \<or> hostname = Some ''/unix'') \<and> servname \<noteq> None \<and> take 1 (the servname) = ''/''
          then ga_unix os (the servname) hint
          else
          cbind (ga_nsearch os hostname hint) (\<lambda>search.
          cbind (ga_searches os hostname hint (length search) search ([], None)) (\<lambda>(rc, st).
          if rc \<noteq> None then ga_bad os (the rc) (fst st)
          else ga_finish os hostname servname hint search st)))"

section \<open>getnameinfo\<close>

text \<open>The texts written to \<open>host\<close> and \<open>serv\<close>; \<open>None\<close> when nothing is written. The result 1 is \<open>None\<close>.\<close>

definition gn_host :: "os \<Rightarrow> nat \<Rightarrow> byte list \<Rightarrow> int \<Rightarrow> ni_flag set \<Rightarrow> ('z proc_scheme, string option option) cprog" where
  "gn_host os hostlen a fam flags =
     (let numeric = (case inet_ntop fam a hostlen of Inr t \<Rightarrow> Some (Some t) | Inl _ \<Rightarrow> None) in
      if hostlen = 0 then creturn (Some None)
      else if NI_NUMERICHOST \<in> flags then creturn numeric
      else cbind (call os (C_lib ''gethostbyaddr'' [V_bytes a, V_int (int (length a)), V_int fam])) (\<lambda>h.
           if rv h \<noteq> 0 then
             let name = (if NI_NOFQDN \<in> flags then takeWhile (\<lambda>c. c \<noteq> CHR ''.'') (h_name h) else h_name h) in
             creturn (Some (Some (snprintf_text hostlen name)))
           else if NI_NAMEREQD \<in> flags then creturn None
           else creturn numeric))"

definition gn_serv :: "os \<Rightarrow> nat \<Rightarrow> u16 \<Rightarrow> ni_flag set \<Rightarrow> ('z proc_scheme, string option) cprog" where
  "gn_serv os servlen port flags =
     (let numeric = Some (snprintf_text servlen (print_int (uint (ntohs port)))) in
      if servlen = 0 then creturn None
      else if NI_NUMERICSERV \<in> flags then creturn numeric
      else cbind (call os (C_lib ''getservbyport'' (V_int (uint port) # (if NI_DGRAM \<in> flags then [V_str ''udp''] else [])))) (\<lambda>sv.
           if rv sv \<noteq> 0 then creturn (Some (snprintf_text servlen (out_str sv))) else creturn numeric))"

definition gn_ipv46 :: "os \<Rightarrow> nat \<Rightarrow> nat \<Rightarrow> byte list \<Rightarrow> int \<Rightarrow> u16 \<Rightarrow> ni_flag set \<Rightarrow>
    ('z proc_scheme, (string option \<times> string option) option) cprog" where
  "gn_ipv46 os hostlen servlen a fam port flags =
     cbind (gn_host os hostlen a fam flags) (\<lambda>h.
     case h of None \<Rightarrow> creturn None
     | Some h \<Rightarrow> cbind (gn_serv os servlen port flags) (\<lambda>sv. creturn (Some (h, sv))))"

fun getnameinfo :: "os \<Rightarrow> sockaddr \<Rightarrow> nat \<Rightarrow> nat \<Rightarrow> ni_flag set \<Rightarrow> ('z proc_scheme, (string option \<times> string option) option) cprog" where
  "getnameinfo os (Sockaddr_in port a) hostlen servlen flags = gn_ipv46 os hostlen servlen a AF_INET port flags"
| "getnameinfo os (Sockaddr_in6 port a) hostlen servlen flags = gn_ipv46 os hostlen servlen a AF_INET6 port flags"
| "getnameinfo os (Sockaddr_un path) hostlen servlen flags =
     creturn (Some (if hostlen > 0 then Some (snprintf_text hostlen ''/local'') else None,
                    if servlen > 0 then Some (snprintf_text servlen path) else None))"
| "getnameinfo os (Sockaddr_other f d) hostlen servlen flags = creturn None"

end
