(* ===== verification/Gai_Memory.thy ===== *)
theory Gai_Memory
  imports Gai "HOL-Library.Multiset"
begin

text \<open>
  The memory of \<open>getaddrinfo\<close>: what the allocator handed out and what was freed are read off the history of
  the calls, and every function of libgai/ is shown to keep the difference equal to the memory of the
  structures it holds.
\<close>

section \<open>Memory\<close>

text \<open>What the allocator handed out, what was freed, and the memory a list of structures holds.\<close>

definition allocated :: "hist \<Rightarrow> int multiset" where
  "allocated h = mset (concat (map (\<lambda>(c, r). case c of
     C_lib f _ \<Rightarrow> if (f = ''calloc'' \<or> f = ''malloc'' \<or> f = ''strdup'') \<and> rv r \<noteq> 0 then [rv r] else [] | _ \<Rightarrow> []) h))"

definition freed :: "hist \<Rightarrow> int multiset" where
  "freed h = mset (concat (map (\<lambda>(c, r). case c of
     C_lib f [V_int p] \<Rightarrow> if f = ''free'' then [p] else [] | _ \<Rightarrow> []) h))"

definition mem_of :: "gai \<Rightarrow> int multiset" where
  "mem_of ai = {#ai_mem ai#} + (if addr_mem ai \<noteq> 0 then {#addr_mem ai#} else {#}) + (if canon_mem ai \<noteq> 0 then {#canon_mem ai#} else {#})"

definition mems :: "gai list \<Rightarrow> int multiset" where
  "mems ais = sum_list (map mem_of ais)"

definition canon_of :: "(string \<times> int) option \<Rightarrow> int multiset" where
  "canon_of c = (case c of None \<Rightarrow> {#} | Some (_, p) \<Rightarrow> {#p#})"

text \<open>\<open>holds base M t\<close>: since what was allocated and freed was \<open>base\<close>, the memory \<open>M\<close> was allocated and not freed.\<close>

definition holds :: "int multiset \<times> int multiset \<Rightarrow> int multiset \<Rightarrow> 'z proc_scheme \<Rightarrow> bool" where
  "holds base M t \<longleftrightarrow> allocated (calls t) + snd base = fst base + M + freed (calls t)"

lemma allocated_append [simp]: "allocated (h @ k) = allocated h + allocated k"
  by (simp add: allocated_def)

lemma freed_append [simp]: "freed (h @ k) = freed h + freed k"
  by (simp add: freed_def)

lemma allocated_lib:
  "allocated ((C_lib f xs, r) # h) =
     (if (f = ''calloc'' \<or> f = ''malloc'' \<or> f = ''strdup'') \<and> rv r \<noteq> 0 then {#rv r#} else {#}) + allocated h" "allocated [] = {#}"
  by (simp_all add: allocated_def)

lemma freed_lib:
  "f \<noteq> ''free'' \<Longrightarrow> freed ((C_lib f xs, r) # h) = freed h" "freed ((C_lib ''free'' [V_int p], r) # h) = {#p#} + freed h" "freed [] = {#}"
  by (simp_all add: freed_def split: list.split cval.split)

lemma mems_simps [simp]: "mems [] = {#}" "mems (ai # ais) = mem_of ai + mems ais" "mems (as @ bs) = mems as + mems bs"
  by (simp_all add: mems_def)

lemma holds_after:
  "holds base M (after os c s) \<longleftrightarrow> allocated (calls s) + allocated [(c, os (calls s) c)] + snd base = fst base + M + (freed (calls s) + freed [(c, os (calls s) c)])"
  by (simp add: holds_def)

lemmas mem_simps = wp_simps holds_after allocated_lib freed_lib mem_of_def

definition no_canon :: "gai list \<Rightarrow> bool" where
  "no_canon ais \<longleftrightarrow> (\<forall>ai \<in> set ais. canon_mem ai = 0)"

lemma ga_aistruct_mem:
  assumes "holds base (M + mems ais) s" and "no_canon ais"
  shows "wp (ga_aistruct os hint addr fam ais) (ret_or_exit (\<lambda>(rc, ais') t. holds base (M + mems ais') t \<and> no_canon ais' \<and>
    (rc = None \<longrightarrow> ais' \<noteq> []))) s"
  using assms unfolding ga_aistruct_def Let_def
  by (auto simp: mem_simps no_canon_def) (auto simp: holds_def)

lemma ga_clone_mem:
  assumes "holds base M s"
  shows "wp (ga_clone os ai) (ret_or_exit (\<lambda>(new, linked) t. holds base (M + mems linked) t \<and>
    (\<forall>n. new = Some n \<longrightarrow> linked = [n]))) s"
  using assms unfolding ga_clone_def Let_def
  by (auto simp: mem_simps) (auto simp: holds_def)

lemma mem_of_set_port_type [simp]: "mem_of (set_port_type port ty ai) = mem_of ai"
  by (simp add: set_port_type_def mem_of_def)

lemma ga_port_mem:
  assumes "holds base (M + mems ais) s"
  shows "wp (ga_port os ais port ty) (ret_or_exit (\<lambda>(ais', n) t. holds base (M + mems ais') t)) s"
  using assms
proof (induction ais arbitrary: M s)
  case Nil
  then show ?case by (simp only: ga_port.simps wp_basic) simp
next
  case (Cons ai rest)
  have rest: "wp (cbind (ga_port os rest port ty) (\<lambda>(rest', n). creturn (pre @ rest', g n)))
      (ret_or_exit (\<lambda>(ais', n) t. holds base (M + mems ais') t)) t"
    if "holds base (M + mems pre + mems rest) t" for pre g and t :: "'a proc_scheme"
    by (rule wp_bind_ret[OF Cons.IH[OF that]]) (auto simp: wp_basic ac_simps)
  have one: "wp (cbind (ga_port os rest port ty) (\<lambda>(rest', n). creturn (ai' # rest', g n)))
      (ret_or_exit (\<lambda>(ais', n) t. holds base (M + mems ais') t)) s" if "mem_of ai' = mem_of ai" for ai' g
    using rest[of "[ai']" s g] Cons.prems that by (simp add: ac_simps)
  have clone: "wp (cbind (ga_clone os ai) (\<lambda>(new, linked). case new of
            None \<Rightarrow> creturn (ai # linked @ rest, - 1)
          | Some new \<Rightarrow> cbind (ga_port os rest port ty) (\<lambda>(rest', n).
              creturn (ai # set_port_type port ty new # rest', if n < 0 then n else counted new + n))))
      (ret_or_exit (\<lambda>(ais', n) t. holds base (M + mems ais') t)) s"
  proof (rule wp_bind_ret[OF ga_clone_mem[OF Cons.prems]], clarify)
    fix new linked and t :: "'a proc_scheme"
    assume t: "holds base (M + mems (ai # rest) + mems linked) t" "\<forall>n. new = Some n \<longrightarrow> linked = [n]"
    show "wp (case new of None \<Rightarrow> creturn (ai # linked @ rest, - 1)
          | Some new \<Rightarrow> cbind (ga_port os rest port ty) (\<lambda>(rest', n).
              creturn (ai # set_port_type port ty new # rest', if n < 0 then n else counted new + n)))
      (ret_or_exit (\<lambda>(ais', n) t. holds base (M + mems ais') t)) t"
    proof (cases new)
      case None
      then show ?thesis using t by (simp add: wp_basic ac_simps)
    next
      case (Some n)
      then show ?thesis using t rest[of "[ai, set_port_type port ty n]" t] by (simp add: ac_simps)
    qed
  qed
  show ?case
    using one[of ai "\<lambda>n. n"] one[of "set_port_type port ty ai" "\<lambda>n. if n < 0 then n else counted ai + n"] clone by auto
qed

lemma holds_quiet: "holds base M s \<Longrightarrow> allocated [(c, os (calls s) c)] = {#} \<Longrightarrow> freed [(c, os (calls s) c)] = {#} \<Longrightarrow> holds base M (after os c s)"
  by (simp add: holds_def)

lemma ga_try_service_mem:
  assumes "holds base (M + mems ais) s"
  shows "wp (ga_try_service os ais hint serv proto ty) (ret_or_exit (\<lambda>(ais', n) t. holds base (M + mems ais') t)) s"
proof -
  have "holds base (M + mems ais) (after os (C_lib ''getservbyname'' xs) s)" for xs
    by (rule holds_quiet[OF assms]) (simp_all add: allocated_lib freed_lib)
  with assms show ?thesis unfolding ga_try_service_def by (auto simp: wp_simps intro!: ga_port_mem)
qed

lemma two_passes_mem:
  fixes s :: "'z proc_scheme"
  assumes "wp m (ret_or_exit (\<lambda>(ais', n) t. holds base (M + mems ais') t)) s"
    and "\<And>ais t. holds base (M + mems ais) t \<Longrightarrow> wp (k ais) (ret_or_exit (\<lambda>(ais', n :: int) t. holds base (M + mems ais') t)) t"
  shows "wp (cbind m (\<lambda>(ais, rc). if rc < 0 then creturn (ais, rc) else cbind (k ais) (\<lambda>(ais, rc2). creturn (ais, if rc2 < 0 then rc2 else rc + rc2))))
    (ret_or_exit (\<lambda>(ais', n) t. holds base (M + mems ais') t)) s"
proof (rule wp_bind_ret[OF assms(1)], clarify)
  fix ais and rc :: int and t :: "'z proc_scheme"
  assume t: "holds base (M + mems ais) t"
  have "wp (cbind (k ais) (\<lambda>(ais, rc2). creturn (ais, if rc2 < 0 then rc2 else rc + rc2))) (ret_or_exit (\<lambda>(ais', n) t. holds base (M + mems ais') t)) t"
    by (rule wp_bind_ret[OF assms(2)[OF t]]) (auto simp: wp_basic)
  with t show "wp (if rc < 0 then creturn (ais, rc) else cbind (k ais) (\<lambda>(ais, rc2). creturn (ais, if rc2 < 0 then rc2 else rc + rc2)))
    (ret_or_exit (\<lambda>(ais', n) t. holds base (M + mems ais') t)) t" by (simp add: wp_basic)
qed

lemma ga_serv_mem:
  assumes "holds base (M + mems ais) s"
  shows "wp (ga_serv os ais hint serv) (ret_or_exit (\<lambda>(rc, ais') t. holds base (M + mems ais') t)) s"
proof -
  have "wp (if isdigit_first serv then
              let port = uint (ntohs (word_of_int (atoi serv))) in
              if ai_socktype hint \<noteq> 0 then ga_port os ais port (ai_socktype hint)
              else cbind (ga_port os ais port SOCK_STREAM) (\<lambda>(ais, rc).
                   if rc < 0 then creturn (ais, rc)
                   else cbind (ga_port os ais port SOCK_DGRAM) (\<lambda>(ais, rc2).
                        creturn (ais, if rc2 < 0 then rc2 else rc + rc2)))
            else
              cbind (ga_try_service os ais hint serv ''tcp'' SOCK_STREAM) (\<lambda>(ais, rc).
              if rc < 0 then creturn (ais, rc)
              else cbind (ga_try_service os ais hint serv ''udp'' SOCK_DGRAM) (\<lambda>(ais, rc2).
                   creturn (ais, if rc2 < 0 then rc2 else rc + rc2)))) (ret_or_exit (\<lambda>(ais', n) t. holds base (M + mems ais') t)) s"
    unfolding Let_def using assms by (auto intro!: two_passes_mem ga_port_mem ga_try_service_mem)
  then show ?thesis
    unfolding ga_serv_def by (rule wp_bind_ret) (auto simp: wp_basic)
qed

lemma ga_addresses_mem:
  assumes "holds base (M + mems ais) s" and "no_canon ais"
  shows "wp (ga_addresses os hint ty as ais) (ret_or_exit (\<lambda>(rc, ais') t. holds base (M + mems ais') t \<and> no_canon ais')) s"
  using assms
proof (induction as arbitrary: ais s)
  case Nil
  then show ?case by (simp only: ga_addresses.simps wp_basic) simp
next
  case (Cons a as)
  show ?case unfolding ga_addresses.simps
    by (rule wp_bind_ret[OF ga_aistruct_mem[OF Cons.prems]]) (auto simp: wp_basic intro: Cons.IH)
qed

lemma freeaddrinfo_mem:
  assumes "holds base (M + mems ais) s"
  shows "wp (freeaddrinfo os ais) (ret_or_exit (\<lambda>_ t. holds base M t)) s"
  using assms
proof (induction ais arbitrary: s)
  case Nil
  then show ?case by (simp only: freeaddrinfo.simps wp_basic) simp
next
  case (Cons ai rest)
  show ?case unfolding freeaddrinfo.simps
    using Cons.prems by (auto simp: mem_simps intro!: Cons.IH) (auto simp: holds_def allocated_lib freed_lib mem_of_def)
qed

text \<open>The structures built so far and the canonical name kept for the first of them.\<close>

definition ga_inv :: "int multiset \<times> int multiset \<Rightarrow> string option \<Rightarrow> addrinfo \<Rightarrow> ga_state \<Rightarrow> 'z proc_scheme \<Rightarrow> bool" where
  "ga_inv base hostname hint st t \<longleftrightarrow> holds base (canon_of (snd st) + mems (fst st)) t \<and> no_canon (fst st) \<and>
     (\<forall>c. snd st = Some c \<longrightarrow> snd c \<noteq> 0 \<and> \<not> is_null hostname \<and> ai_flags hint AND AI_CANONNAME \<noteq> 0)"

lemma ga_inv_quiet:
  "ga_inv base hostname hint st s \<Longrightarrow> allocated [(c, os (calls s) c)] = {#} \<Longrightarrow> freed [(c, os (calls s) c)] = {#} \<Longrightarrow>
   ga_inv base hostname hint st (after os c s)"
  by (simp add: ga_inv_def holds_quiet)

lemma ga_inv_options: "ga_inv base hostname hint st (s\<lparr>res_options := x\<rparr>) \<longleftrightarrow> ga_inv base hostname hint st s"
  by (simp add: ga_inv_def holds_def)

lemma ga_gethost_mem:
  assumes "ga_inv base hostname hint st s"
  shows "wp (ga_gethost os n sptr) (ret_or_exit (\<lambda>_. ga_inv base hostname hint st)) s"
  using assms unfolding ga_gethost_def
  by (auto simp: wp_simps ga_inv_options allocated_lib freed_lib intro!: ga_inv_quiet)

lemma strdup_mem:
  assumes "holds base M s"
  shows "wp (strdup os x) (ret_or_exit (\<lambda>c t. holds base (canon_of c + M) t \<and> (\<forall>d. c = Some d \<longrightarrow> snd d \<noteq> 0))) s"
  using assms unfolding strdup_def
  by (auto simp: mem_simps canon_of_def) (auto simp: holds_def)

lemma ga_literal_mem:
  assumes "ga_inv base hostname hint st s"
  shows "wp (ga_literal os hint sptr fam a st) (ret_or_exit (\<lambda>(rc, st'). ga_inv base hostname hint st')) s"
proof -
  have "holds base (canon_of (snd st) + mems (fst st)) s" "no_canon (fst st)" using assms by (simp_all add: ga_inv_def)
  from ga_aistruct_mem[OF this]
  have "wp (cbind (ga_aistruct os hint (Addr_bytes a) fam (fst st)) (\<lambda>(rc, ais). creturn (rc, ais, snd st)))
    (ret_or_exit (\<lambda>(rc, st'). ga_inv base hostname hint st')) s"
    by (rule wp_bind_ret) (use assms in \<open>auto simp: wp_basic ga_inv_def\<close>)
  with assms show ?thesis by (simp add: ga_literal_def wp_basic)
qed

lemma ga_lookup_mem:
  assumes "ga_inv base hostname hint st s"
  shows "wp (ga_lookup os hostname hint n sptr st) (ret_or_exit (\<lambda>(rc, st'). ga_inv base hostname hint st')) s"
  unfolding ga_lookup_def
proof (rule wp_bind_ret[OF ga_gethost_mem[OF assms]])
  fix hptr and t :: "'a res_proc_scheme"
  assume t: "ga_inv base hostname hint st t"
  let ?save = "\<not> is_null hostname \<and> ai_flags hint AND AI_CANONNAME \<noteq> 0 \<and> snd st = None"
  have save: "wp (if ?save then cbind (strdup os (h_name hptr)) (\<lambda>c. creturn (c, c = None)) else creturn (snd st, False))
    (ret_or_exit (\<lambda>(canon, failed). ga_inv base hostname hint (fst st, canon))) t"
  proof (cases ?save)
    case True
    have "holds base (mems (fst st)) t" using t True by (simp add: ga_inv_def canon_of_def)
    from strdup_mem[OF this] have "wp (cbind (strdup os (h_name hptr)) (\<lambda>c. creturn (c, c = None)))
      (ret_or_exit (\<lambda>(canon, failed). ga_inv base hostname hint (fst st, canon))) t"
      by (rule wp_bind_ret) (use t True in \<open>auto simp: wp_basic ga_inv_def\<close>)
    with True show ?thesis by simp
  next
    case False
    then show ?thesis using t by (subst if_not_P) (simp_all add: wp_basic)
  qed
  have rest: "wp (cbind (ga_addresses os hint (h_addrtype hptr) (h_addr_list hptr) (fst st)) (\<lambda>(rc, ais). creturn (rc, ais, canon)))
    (ret_or_exit (\<lambda>(rc, st'). ga_inv base hostname hint st')) u"
    if u: "ga_inv base hostname hint (fst st, canon) u" for canon and u :: "'a res_proc_scheme"
  proof -
    have "holds base (canon_of canon + mems (fst st)) u" "no_canon (fst st)" using u by (simp_all add: ga_inv_def)
    from ga_addresses_mem[OF this] show ?thesis
      by (rule wp_bind_ret) (use u in \<open>auto simp: wp_basic ga_inv_def\<close>)
  qed
  have "wp (cbind (if ?save then cbind (strdup os (h_name hptr)) (\<lambda>c. creturn (c, c = None)) else creturn (snd st, False)) (\<lambda>(canon, failed).
     if failed then creturn (Some EAI_MEMORY, fst st, canon)
     else cbind (ga_addresses os hint (h_addrtype hptr) (h_addr_list hptr) (fst st)) (\<lambda>(rc, ais). creturn (rc, ais, canon))))
    (ret_or_exit (\<lambda>(rc, st'). ga_inv base hostname hint st')) t"
    by (rule wp_bind_ret[OF save]) (auto simp: wp_basic intro!: rest)
  with t show "wp (if rv hptr = 0 then if n = 2 then creturn (None, st) else creturn (Some (h_error (out_int hptr)), st)
     else if ai_family hint \<noteq> AF_UNSPEC \<and> ai_family hint \<noteq> h_addrtype hptr then creturn (Some EAI_ADDRFAMILY, st)
     else cbind (if ?save then cbind (strdup os (h_name hptr)) (\<lambda>c. creturn (c, c = None)) else creturn (snd st, False)) (\<lambda>(canon, failed).
     if failed then creturn (Some EAI_MEMORY, fst st, canon)
     else cbind (ga_addresses os hint (h_addrtype hptr) (h_addr_list hptr) (fst st)) (\<lambda>(rc, ais). creturn (rc, ais, canon))))
    (ret_or_exit (\<lambda>(rc, st'). ga_inv base hostname hint st')) t"
    by (intro wp_ifI) (simp add: wp_basic | assumption)+
qed

lemma ga_searches_mem:
  assumes "ga_inv base hostname hint st s"
  shows "wp (ga_searches os hostname hint n search st) (ret_or_exit (\<lambda>(rc, st'). ga_inv base hostname hint st')) s"
  using assms
proof (induction search arbitrary: st s)
  case Nil
  then show ?case by (simp only: ga_searches.simps wp_basic) simp
next
  case (Cons sptr rest)
  have "wp (case v4_literal (shost sptr) of Some a \<Rightarrow> ga_literal os hint sptr AF_INET a st
            | None \<Rightarrow> (case v6_literal (shost sptr) of Some a \<Rightarrow> ga_literal os hint sptr AF_INET6 a st
              | None \<Rightarrow> ga_lookup os hostname hint n sptr st)) (ret_or_exit (\<lambda>(rc, st'). ga_inv base hostname hint st')) s"
    using ga_literal_mem[OF Cons.prems] ga_lookup_mem[OF Cons.prems] by (simp split: option.split)
  then show ?case unfolding ga_searches.simps
    by (rule wp_bind_ret) (auto simp: wp_basic intro!: Cons.IH)
qed

text \<open>What is held at the end: on success the memory of the structures returned, on failure what leaked.\<close>

definition ga_post :: "int multiset \<times> int multiset \<Rightarrow> bool \<Rightarrow> (eai + gai list) \<Rightarrow> 'z proc_scheme \<Rightarrow> bool" where
  "ga_post base clean r t \<longleftrightarrow> (case r of Inr ais \<Rightarrow> holds base (mems ais) t
     | Inl e \<Rightarrow> (\<exists>leak. holds base leak t \<and> (clean \<longrightarrow> leak = {#})))"

lemma ga_bad_mem:
  assumes "holds base (M + mems ais) s" and "clean \<Longrightarrow> M = {#}"
  shows "wp (ga_bad os e ais) (ret_or_exit (ga_post base clean)) s"
  unfolding ga_bad_def
  by (rule wp_bind_ret[OF freeaddrinfo_mem[OF assms(1)]]) (use assms(2) in \<open>auto simp: wp_basic ga_post_def\<close>)

lemma set_canon_mem: "ais \<noteq> [] \<Longrightarrow> no_canon ais \<Longrightarrow> snd c \<noteq> 0 \<Longrightarrow> mems (set_canon c ais) = canon_of (Some c) + mems ais"
  by (cases ais; cases c) (auto simp: set_canon_def mem_of_def no_canon_def canon_of_def)

lemma ga_finish_mem:
  assumes "ga_inv base hostname hint st s" and "clean \<Longrightarrow> ai_flags hint AND AI_CANONNAME = 0"
  shows "wp (ga_finish os hostname servname hint search st) (ret_or_exit (ga_post base clean)) s"
proof -
  obtain ais canon where st: "st = (ais, canon)" by (cases st)
  let ?wanted = "\<not> is_null hostname \<and> ai_flags hint AND AI_CANONNAME \<noteq> 0"
  have h: "holds base (canon_of canon + mems ais) s" "no_canon ais" and c: "canon \<noteq> None \<Longrightarrow> ?wanted" "\<And>d. canon = Some d \<Longrightarrow> snd d \<noteq> 0"
    using assms(1) by (auto simp: ga_inv_def st)
  have bad: "wp (ga_bad os EAI_NONAME ais) (ret_or_exit (ga_post base clean)) s"
    by (rule ga_bad_mem[OF h(1)]) (use c assms(2) in \<open>cases canon; auto simp: canon_of_def\<close>)
  have name: "wp (if ?wanted then
               case canon of Some c \<Rightarrow> creturn (None, set_canon c ais)
               | None \<Rightarrow> cbind (strdup os (shost (hd search))) (\<lambda>c.
                   case c of None \<Rightarrow> creturn (Some EAI_MEMORY, ais) | Some c \<Rightarrow> creturn (None, set_canon c ais))
             else creturn (None, ais)) (ret_or_exit (\<lambda>(rc, ais'). holds base ({#} + mems ais'))) s" if "ais \<noteq> []"
  proof (rule wp_ifI)
    assume "\<not> ?wanted"
    then have "canon = None" using c(1) by blast
    then show "wp (creturn (None, ais)) (ret_or_exit (\<lambda>(rc, ais'). holds base ({#} + mems ais'))) s"
      using h by (simp add: wp_basic canon_of_def)
  next
    show "wp (case canon of Some c \<Rightarrow> creturn (None, set_canon c ais)
               | None \<Rightarrow> cbind (strdup os (shost (hd search))) (\<lambda>c.
                   case c of None \<Rightarrow> creturn (Some EAI_MEMORY, ais) | Some c \<Rightarrow> creturn (None, set_canon c ais)))
       (ret_or_exit (\<lambda>(rc, ais'). holds base ({#} + mems ais'))) s"
    proof (cases canon)
      case None
      then have "holds base (mems ais) s" using h by (simp add: canon_of_def)
      from strdup_mem[OF this] have "wp (cbind (strdup os (shost (hd search))) (\<lambda>c.
                   case c of None \<Rightarrow> creturn (Some EAI_MEMORY, ais) | Some c \<Rightarrow> creturn (None, set_canon c ais)))
       (ret_or_exit (\<lambda>(rc, ais'). holds base ({#} + mems ais'))) s"
        by (rule wp_bind_ret) (auto simp: wp_basic that h(2) set_canon_mem canon_of_def split: option.splits)
      with None show ?thesis by simp
    next
      case (Some d)
      then show ?thesis using h c(2) that by (simp add: wp_basic set_canon_mem)
    qed
  qed
  have serv: "wp (cbind (if \<not> is_null servname then ga_serv os ais' hint (the servname) else creturn (None, ais')) (\<lambda>(rc, ais).
      if rc \<noteq> None then ga_bad os (the rc) ais else creturn (Inr ais))) (ret_or_exit (ga_post base clean)) t"
    if t: "holds base ({#} + mems ais') t" for ais' and t :: "'a res_proc_scheme"
  proof (rule wp_bind_ret)
    show "wp (if \<not> is_null servname then ga_serv os ais' hint (the servname) else creturn (None, ais'))
      (ret_or_exit (\<lambda>(rc, ais'). holds base ({#} + mems ais'))) t"
      by (rule wp_ifI, rule ga_serv_mem[OF t]) (use t in \<open>simp add: wp_basic\<close>)
  qed (auto simp: wp_basic ga_post_def intro!: ga_bad_mem[where M = "{#}"])
  have "wp (cbind (if ?wanted then
               case canon of Some c \<Rightarrow> creturn (None, set_canon c ais)
               | None \<Rightarrow> cbind (strdup os (shost (hd search))) (\<lambda>c.
                   case c of None \<Rightarrow> creturn (Some EAI_MEMORY, ais) | Some c \<Rightarrow> creturn (None, set_canon c ais))
             else creturn (None, ais)) (\<lambda>(rc, ais).
      if rc \<noteq> None then ga_bad os (the rc) ais
      else
      cbind (if \<not> is_null servname then ga_serv os ais hint (the servname) else creturn (None, ais)) (\<lambda>(rc, ais).
      if rc \<noteq> None then ga_bad os (the rc) ais else creturn (Inr ais)))) (ret_or_exit (ga_post base clean)) s" if "ais \<noteq> []"
    by (rule wp_bind_ret[OF name[OF that]], clarify, rule wp_ifI, rule ga_bad_mem[where M = "{#}"], assumption, simp, rule serv)
  with bad show ?thesis unfolding ga_finish_def st Let_def prod.case by (intro wp_ifI)
qed

lemma ga_unix_mem:
  assumes "holds base {#} s"
  shows "wp (ga_unix os path hint) (ret_or_exit (ga_post base False)) s"
proof (cases "ai_family hint \<noteq> AF_UNSPEC \<and> ai_family hint \<noteq> AF_LOCAL")
  case True
  then show ?thesis using assms by (auto simp: ga_unix_def wp_basic ga_post_def)
next
  case False
  have h: "holds base ({#} + mems []) s" "no_canon []" using assms by (simp_all add: no_canon_def)
  have first: "wp (if ai_socktype hint = 0
             then cbind (ga_aistruct os (hint\<lparr>ai_socktype := SOCK_STREAM\<rparr>) (Addr_path path) AF_LOCAL []) (\<lambda>(rc, ais).
                  creturn (rc, ais, hint\<lparr>ai_socktype := SOCK_DGRAM\<rparr>))
             else creturn (None, [], hint)) (ret_or_exit (\<lambda>(rc, ais, hint') t. holds base ({#} + mems ais) t \<and> no_canon ais)) s"
    by (rule wp_ifI, rule wp_bind_ret[OF ga_aistruct_mem[OF h]]) (use h in \<open>auto simp: wp_basic\<close>)
  have name: "wp (cbind (call os (C_lib ''uname'' [])) (\<lambda>u.
        if rv u < 0 then creturn (Inl EAI_SYSTEM)
        else cbind (strdup os (out_str u)) (\<lambda>c.
             case c of None \<Rightarrow> creturn (Inl EAI_MEMORY) | Some c \<Rightarrow> creturn (Inr (set_canon c ais)))))
      (ret_or_exit (ga_post base False)) t"
    if t: "holds base ({#} + mems ais) t" "no_canon ais" "ais \<noteq> []" for ais and t :: "'a proc_scheme"
  proof -
    let ?u = "after os (C_lib ''uname'' []) t"
    have u: "holds base (mems ais) ?u" by (rule holds_quiet) (use t(1) in \<open>simp_all add: allocated_lib freed_lib\<close>)
    have "wp (cbind (strdup os x) (\<lambda>c. case c of None \<Rightarrow> creturn (Inl EAI_MEMORY) | Some c \<Rightarrow> creturn (Inr (set_canon c ais))))
      (ret_or_exit (ga_post base False)) ?u" for x
      by (rule wp_bind_ret[OF strdup_mem[OF u]])
        (use t in \<open>auto simp: wp_basic ga_post_def set_canon_mem split: option.split\<close>)
    with u show ?thesis by (auto simp: wp_bind[of "call _ _"] wp_call wp_basic ga_post_def)
  qed
  have rest: "wp (cbind (ga_aistruct os hint' (Addr_path path) AF_LOCAL ais) (\<lambda>(rc, ais).
      if rc \<noteq> None then creturn (Inl (the rc))
      else if ai_flags hint' AND AI_CANONNAME \<noteq> 0 then
        cbind (call os (C_lib ''uname'' [])) (\<lambda>u.
        if rv u < 0 then creturn (Inl EAI_SYSTEM)
        else cbind (strdup os (out_str u)) (\<lambda>c.
             case c of None \<Rightarrow> creturn (Inl EAI_MEMORY) | Some c \<Rightarrow> creturn (Inr (set_canon c ais))))
      else creturn (Inr ais))) (ret_or_exit (ga_post base False)) t"
    if t: "holds base ({#} + mems ais) t" "no_canon ais" for ais hint' and t :: "'a proc_scheme"
    by (rule wp_bind_ret[OF ga_aistruct_mem[OF t]])
      (auto simp: wp_basic ga_post_def intro!: wp_ifI name)
  show ?thesis
    unfolding ga_unix_def if_not_P[OF False]
    by (rule wp_bind_ret[OF first]) (auto simp: wp_basic ga_post_def intro!: wp_ifI rest)
qed

text \<open>
  C24. \<open>getaddrinfo\<close> always returns (or the process exits with status 1), and accounts for its memory: on
  success exactly the memory of the structures it returns is allocated and not freed, so that
  \<open>freeaddrinfo\<close> of the result frees all of it; on failure, also when an allocation fails at any point, nothing
  stays allocated, unless a canonical name was asked for or the name was looked up in the Unix domain.
\<close>

theorem getaddrinfo_memory:
  fixes s :: "'z res_proc_scheme"
  shows "wp (getaddrinfo os hostname servname hintsp) (\<lambda>r t. case r of
      Ret (Inr ais) \<Rightarrow> allocated (calls t) + freed (calls s) = allocated (calls s) + mems ais + freed (calls t)
    | Ret (Inl e) \<Rightarrow> ai_flags (hints_of hintsp) AND AI_CANONNAME = 0 \<and> hostname \<noteq> Some ''/local'' \<and> hostname \<noteq> Some ''/unix'' \<longrightarrow>
        allocated (calls t) + freed (calls s) = allocated (calls s) + freed (calls t)
    | Exit n \<Rightarrow> n = 1 | Abort \<Rightarrow> False) s"
proof -
  let ?h = "hints_of hintsp" and ?base = "(allocated (calls s), freed (calls s))"
  let ?clean = "ai_flags ?h AND AI_CANONNAME = 0 \<and> hostname \<noteq> Some ''/local'' \<and> hostname \<noteq> Some ''/unix''"
  have h0: "holds ?base {#} s" by (simp add: holds_def)
  have inv0: "ga_inv ?base hostname ?h ([], None) s" using h0 by (simp add: ga_inv_def no_canon_def canon_of_def)
  have inet: "wp (cbind (ga_nsearch os hostname ?h) (\<lambda>search.
          cbind (ga_searches os hostname ?h (length search) search ([], None)) (\<lambda>(rc, st).
          if rc \<noteq> None then ga_bad os (the rc) (fst st) else ga_finish os hostname servname ?h search st)))
     (ret_or_exit (ga_post ?base ?clean)) s"
  proof (rule wp_bind_ret[where P = "\<lambda>_ t. ga_inv ?base hostname ?h ([], None) t"])
    show "wp (ga_nsearch os hostname ?h) (ret_or_exit (\<lambda>_ t. ga_inv ?base hostname ?h ([], None) t)) s"
      using inv0 by (simp add: ga_nsearch_def Let_def wp_simps)
    fix search and t :: "'z res_proc_scheme"
    assume "ga_inv ?base hostname ?h ([], None) t"
    from ga_searches_mem[OF this]
    show "wp (cbind (ga_searches os hostname ?h (length search) search ([], None)) (\<lambda>(rc, st).
          if rc \<noteq> None then ga_bad os (the rc) (fst st) else ga_finish os hostname servname ?h search st))
      (ret_or_exit (ga_post ?base ?clean)) t"
    proof (rule wp_bind_ret, clarify)
      fix rc ais canon and u :: "'z res_proc_scheme"
      assume u: "ga_inv ?base hostname ?h (ais, canon) u"
      have "wp (ga_bad os (the rc) ais) (ret_or_exit (ga_post ?base ?clean)) u"
        by (rule ga_bad_mem[of _ "canon_of canon"]) (use u in \<open>cases canon; auto simp: ga_inv_def canon_of_def\<close>)+
      moreover have "wp (ga_finish os hostname servname ?h search (ais, canon)) (ret_or_exit (ga_post ?base ?clean)) u"
        by (rule ga_finish_mem[OF u]) blast
      ultimately show "wp (if rc \<noteq> None then ga_bad os (the rc) (fst (ais, canon)) else ga_finish os hostname servname ?h search (ais, canon))
        (ret_or_exit (ga_post ?base ?clean)) u" by (simp only: fst_conv) (rule wp_ifI)
    qed
  qed
  have unix: "wp (ga_unix os p ?h) (ret_or_exit (ga_post ?base ?clean)) s" if "\<not> ?clean" for p
    by (rule wp_mono[OF ga_unix_mem[OF h0]]) (use that in \<open>auto simp: ga_post_def split: outcome.splits sum.splits\<close>)
  have bad: "wp (ga_bad os rc []) (ret_or_exit (ga_post ?base ?clean)) s" for rc
    by (rule ga_bad_mem[of _ "{#}"]) (use h0 in simp_all)
  have "wp (getaddrinfo os hostname servname hintsp) (ret_or_exit (ga_post ?base ?clean)) s"
    unfolding getaddrinfo_def Let_def
    by (cases "ga_echeck hostname servname (ai_flags ?h) (ai_family ?h) (ai_socktype ?h) (ai_protocol ?h)")
      (use bad inet in \<open>auto intro!: wp_ifI unix\<close>)
  then show ?thesis
    by (rule wp_mono) (auto simp: ga_post_def holds_def ac_simps split: outcome.splits sum.splits)
qed

text \<open>A process that starts, with the resolver not yet initialised, and an allocator that fails at its second call.\<close>

definition start_proc :: res_proc where
  "start_proc = \<lparr>errno = 0, daemon_proc = 0, calls = [], res_options = 0\<rparr>"

definition second_fails :: os where
  "second_fails h c = \<lparr>rv = (if length h = 1 then 0 else 1), err = None, outs = []\<rparr>"

lemma v4_literal_local: "v4_literal ''127.0.0.1'' = Some [127, 0, 0, 1]"
  by code_simp

theorem getaddrinfo_memory_witness:
  "\<exists>t. getaddrinfo second_fails (Some ''127.0.0.1'') None (Some (hints 0 AF_INET SOCK_STREAM)) start_proc = Some (Ret (Inl EAI_MEMORY), t) \<and>
     allocated (calls t) + freed (calls start_proc) = allocated (calls start_proc) + freed (calls t)"
proof -
  have "\<exists>t. getaddrinfo second_fails (Some ''127.0.0.1'') None (Some (hints 0 AF_INET SOCK_STREAM)) start_proc = Some (Ret (Inl EAI_MEMORY), t)"
    by (simp add: getaddrinfo_def hints_of_def hints_def Let_def ga_echeck_def is_null_def ga_nsearch_def ga_search_def search_v4_def
        v4_literal_local ga_literal_def ga_aistruct_def second_fails_def start_proc_def ga_bad_def)
  then obtain t where "getaddrinfo second_fails (Some ''127.0.0.1'') None (Some (hints 0 AF_INET SOCK_STREAM)) start_proc = Some (Ret (Inl EAI_MEMORY), t)" ..
  with wpD[OF getaddrinfo_memory[of second_fails "Some ''127.0.0.1''" None "Some (hints 0 AF_INET SOCK_STREAM)" start_proc] this]
  show ?thesis by (simp add: hints_of_def hints_def)
qed

end
