(* ===== verification/Gai_Result.thy ===== *)
theory Gai_Result
  imports Gai_Memory
begin

text \<open>
  What \<open>getaddrinfo\<close> returns: the structures fit their family and the hints, a service gives one structure per
  address and socket type, and \<open>getnameinfo\<close> in numeric form is undone by \<open>getaddrinfo\<close>.
\<close>

section \<open>What is returned\<close>

text \<open>\<open>gethostbyname(3)\<close>: the addresses are internet addresses of the length their type has.\<close>

definition hostent_ok :: "os \<Rightarrow> bool" where
  "hostent_ok os \<longleftrightarrow> (\<forall>h f xs. let r = os h (C_lib f xs) in (f = ''gethostbyname'' \<or> f = ''gethostbyname2'') \<and> rv r \<noteq> 0 \<longrightarrow>
     (h_addrtype r = AF_INET \<or> h_addrtype r = AF_INET6) \<and>
     (\<forall>a \<in> set (h_addr_list r). length a = (if h_addrtype r = AF_INET then 4 else 16)))"

text \<open>The address of a structure is one of its family, with its length.\<close>

fun fits :: "int \<Rightarrow> nat \<Rightarrow> sockaddr \<Rightarrow> bool" where
  "fits fam len (Sockaddr_in port a) = (fam = AF_INET \<and> len = 16 \<and> length a = 4)"
| "fits fam len (Sockaddr_in6 port a) = (fam = AF_INET6 \<and> len = 28 \<and> length a = 16)"
| "fits fam len (Sockaddr_un path) = (fam = AF_LOCAL \<and> len = 110 \<and> length path < 108)"
| "fits fam len (Sockaddr_other f d) = False"

definition ai_ok :: "('a addrinfo_scheme) \<Rightarrow> gai \<Rightarrow> bool" where
  "ai_ok hint ai \<longleftrightarrow> fits (ai_family ai) (ai_addrlen ai) (ai_addr ai) \<and>
     (ai_family hint \<noteq> AF_UNSPEC \<longrightarrow> ai_family ai = ai_family hint) \<and>
     (ai_socktype hint \<noteq> 0 \<longrightarrow> ai_socktype ai = ai_socktype hint) \<and> ai_protocol ai = ai_protocol hint"

definition all_ok :: "('a addrinfo_scheme) \<Rightarrow> gai list \<Rightarrow> bool" where
  "all_ok hint ais \<longleftrightarrow> (\<forall>ai \<in> set ais. ai_ok hint ai)"

lemma all_ok_simps [simp]:
  "all_ok hint []" "all_ok hint (ai # ais) \<longleftrightarrow> ai_ok hint ai \<and> all_ok hint ais" "all_ok hint (as @ bs) \<longleftrightarrow> all_ok hint as \<and> all_ok hint bs"
  by (auto simp: all_ok_def)

definition arg_ok :: "addr_arg \<Rightarrow> int \<Rightarrow> bool" where
  "arg_ok addr fam \<longleftrightarrow> (case addr of Addr_bytes bs \<Rightarrow> fam = AF_INET \<and> length bs = 4 \<or> fam = AF_INET6 \<and> length bs = 16
     | Addr_path p \<Rightarrow> fam = AF_LOCAL)"

text \<open>A structure may be made for a socket type the caller left open.\<close>

lemma ga_aistruct_typed:
  assumes "all_ok hint ais" and "arg_ok addr fam" and "ai_family hint \<noteq> AF_UNSPEC \<longrightarrow> fam = ai_family hint"
    and "ai_socktype hint = 0 \<or> ai_socktype hint = ty"
  shows "wp (ga_aistruct os (hint\<lparr>ai_socktype := ty\<rparr>) addr fam ais) (ret_or_exit (\<lambda>(rc, ais') t. rc = None \<longrightarrow> all_ok hint ais' \<and> ais' \<noteq> [])) s"
  using assms unfolding ga_aistruct_def Let_def
  by (auto simp: wp_simps ai_ok_def arg_ok_def split: addr_arg.splits)

lemma ga_aistruct_ok:
  assumes "all_ok hint ais" and "arg_ok addr fam" and "ai_family hint \<noteq> AF_UNSPEC \<longrightarrow> fam = ai_family hint"
  shows "wp (ga_aistruct os hint addr fam ais) (ret_or_exit (\<lambda>(rc, ais') t. rc = None \<longrightarrow> all_ok hint ais')) s"
  using ga_aistruct_typed[OF assms, of "ai_socktype hint" os s] by (auto elim!: wp_mono split: outcome.splits)

lemma ai_ok_set_port_type: "ai_ok hint ai \<Longrightarrow> ai_socktype hint = 0 \<or> ai_socktype hint = ty \<Longrightarrow> ai_ok hint (set_port_type port ty ai)"
  by (cases "ai_addr ai") (auto simp: ai_ok_def set_port_type_def)

lemma ga_clone_ok:
  assumes "ai_ok hint ai"
  shows "wp (ga_clone os ai) (ret_or_exit (\<lambda>(new, linked) t. \<forall>n. new = Some n \<longrightarrow> ai_ok hint n)) s"
  using assms unfolding ga_clone_def Let_def by (auto simp: wp_simps ai_ok_def)

lemma ga_port_ok:
  assumes "all_ok hint ais" and "ai_socktype hint = 0 \<or> ai_socktype hint = ty"
  shows "wp (ga_port os ais port ty) (ret_or_exit (\<lambda>(ais', n) t. 0 \<le> n \<longrightarrow> all_ok hint ais')) s"
  using assms(1)
proof (induction ais arbitrary: s)
  case Nil
  then show ?case by (simp only: ga_port.simps wp_basic) simp
next
  case (Cons ai rest s)
  have keep: "ai_ok hint ai" and set: "ai_ok hint (set_port_type port ty ai)"
    using Cons.prems assms(2) ai_ok_set_port_type by auto
  have ok: "all_ok hint rest" using Cons.prems by simp
  have rest: "wp (cbind (ga_port os rest port ty) (\<lambda>(rest', n). creturn (pre @ rest', g n)))
      (ret_or_exit (\<lambda>(ais', n) t. 0 \<le> n \<longrightarrow> all_ok hint ais')) t"
    if "all_ok hint pre" "\<And>n. n < 0 \<Longrightarrow> g n < 0" for pre and g :: "int \<Rightarrow> int" and t :: "'b proc_scheme"
    by (rule wp_bind_ret[OF Cons.IH[OF ok]]) (use that in \<open>auto simp: wp_basic not_less[symmetric]\<close>)
  have one: "wp (cbind (ga_port os rest port ty) (\<lambda>(rest', n). creturn (ai' # rest', g n)))
      (ret_or_exit (\<lambda>(ais', n) t. 0 \<le> n \<longrightarrow> all_ok hint ais')) s" if "ai_ok hint ai'" "\<And>n. n < 0 \<Longrightarrow> g n < 0" for ai' and g :: "int \<Rightarrow> int"
    using rest[of "[ai']" g s] that by simp
  have clone: "wp (cbind (ga_clone os ai) (\<lambda>(new, linked). case new of
            None \<Rightarrow> creturn (ai # linked @ rest, - 1)
          | Some new \<Rightarrow> cbind (ga_port os rest port ty) (\<lambda>(rest', n).
              creturn (ai # set_port_type port ty new # rest', if n < 0 then n else counted new + n))))
      (ret_or_exit (\<lambda>(ais', n) t. 0 \<le> n \<longrightarrow> all_ok hint ais')) s"
  proof (rule wp_bind_ret[OF ga_clone_ok[OF keep]], clarify)
    fix new linked and t :: "'b proc_scheme"
    assume n: "\<forall>n. new = Some n \<longrightarrow> ai_ok hint n"
    show "wp (case new of None \<Rightarrow> creturn (ai # linked @ rest, - 1)
          | Some new \<Rightarrow> cbind (ga_port os rest port ty) (\<lambda>(rest', n).
              creturn (ai # set_port_type port ty new # rest', if n < 0 then n else counted new + n)))
      (ret_or_exit (\<lambda>(ais', n) t. 0 \<le> n \<longrightarrow> all_ok hint ais')) t"
    proof (cases new)
      case (Some m)
      then have "all_ok hint [ai, set_port_type port ty m]" using n keep assms(2) ai_ok_set_port_type by simp
      from rest[OF this, of "\<lambda>n. if n < 0 then n else counted m + n" t] Some show ?thesis by simp
    qed (simp add: wp_basic)
  qed
  show ?case
    using one[OF keep, of "\<lambda>n. n"] one[OF set, of "\<lambda>n. if n < 0 then n else counted ai + n"] clone by auto
qed


lemma ga_try_service_ok:
  assumes "all_ok hint ais"
  shows "wp (ga_try_service os ais hint serv proto ty) (ret_or_exit (\<lambda>(ais', n) t. 0 \<le> n \<longrightarrow> all_ok hint ais')) s"
  using assms unfolding ga_try_service_def by (auto simp: wp_simps intro!: ga_port_ok)

lemma two_passes_ok:
  fixes s :: "'z proc_scheme"
  assumes "wp m (ret_or_exit (\<lambda>(ais', n) t. 0 \<le> n \<longrightarrow> all_ok hint ais')) s"
    and "\<And>ais t. all_ok hint ais \<Longrightarrow> wp (k ais) (ret_or_exit (\<lambda>(ais', n :: int) t. 0 \<le> n \<longrightarrow> all_ok hint ais')) t"
  shows "wp (cbind m (\<lambda>(ais, rc). if rc < 0 then creturn (ais, rc) else cbind (k ais) (\<lambda>(ais, rc2). creturn (ais, if rc2 < 0 then rc2 else rc + rc2))))
    (ret_or_exit (\<lambda>(ais', n) t. 0 \<le> n \<longrightarrow> all_ok hint ais')) s"
proof (rule wp_bind_ret[OF assms(1)], clarify)
  fix ais and rc :: int and t :: "'z proc_scheme"
  assume t: "0 \<le> rc \<longrightarrow> all_ok hint ais"
  have "wp (cbind (k ais) (\<lambda>(ais, rc2). creturn (ais, if rc2 < 0 then rc2 else rc + rc2))) (ret_or_exit (\<lambda>(ais', n) t. 0 \<le> n \<longrightarrow> all_ok hint ais')) t"
    if "\<not> rc < 0" using t that by (intro wp_bind_ret[OF assms(2)]) (auto simp: wp_basic)
  then show "wp (if rc < 0 then creturn (ais, rc) else cbind (k ais) (\<lambda>(ais, rc2). creturn (ais, if rc2 < 0 then rc2 else rc + rc2)))
    (ret_or_exit (\<lambda>(ais', n) t. 0 \<le> n \<longrightarrow> all_ok hint ais')) t" by (simp add: wp_basic)
qed

lemma ga_serv_ok:
  assumes "all_ok hint ais"
  shows "wp (ga_serv os ais hint serv) (ret_or_exit (\<lambda>(rc, ais') t. rc = None \<longrightarrow> all_ok hint ais')) s"
proof -
  have "wp (if isdigit_first serv then
              let port = uint (ntohs (word_of_int (atoi serv))) in
              if ai_socktype hint \<noteq> 0 then ga_port os ais port (ai_socktype hint)
              else cbind (ga_port os ais port SOCK_STREAM) (\<lambda>(ais, rc).
                   if rc < 0 then creturn (ais, rc)
                   else cbind (ga_port os ais port SOCK_DGRAM) (\<lambda>(ais, rc2).
                        creturn (ais, if rc2 < 0 then rc2 else rc + rc2)))
            else
              cbind (ga_try_service os ais hint serv ''tcp'' SOCK_STREAM) (\<lambda>(ais, rc).
              if rc < 0 then creturn (ais, rc)
              else cbind (ga_try_service os ais hint serv ''udp'' SOCK_DGRAM) (\<lambda>(ais, rc2).
                   creturn (ais, if rc2 < 0 then rc2 else rc + rc2)))) (ret_or_exit (\<lambda>(ais', n) t. 0 \<le> n \<longrightarrow> all_ok hint ais')) s"
    unfolding Let_def using assms by (auto intro!: two_passes_ok ga_port_ok ga_try_service_ok)
  then show ?thesis
    unfolding ga_serv_def by (rule wp_bind_ret) (auto simp: wp_basic)
qed

text \<open>Literals have the length of their family.\<close>

lemma inet_pton4_loop_length: "inet_pton4_loop src tmp tp saw n = Some a \<Longrightarrow> length a = length tmp"
  by (induction src tmp tp saw n rule: inet_pton4_loop.induct) (auto simp: Let_def split: if_splits option.splits)

lemma inet_pton4_length: "inet_pton4 h = Some a \<Longrightarrow> length a = 4"
  unfolding inet_pton4_def by (drule inet_pton4_loop_length) simp

lemma length_store_bytes [simp]: "length (store_bytes tmp tp bs) = length tmp"
  by (induction tmp tp bs rule: store_bytes.induct) simp_all

lemma inet_pton6_loop_length: "inet_pton6_loop src cur tmp tp cp saw v = Some (a, r) \<Longrightarrow> length a = length tmp"
  by (induction src cur tmp tp cp saw v rule: inet_pton6_loop.induct)
    (auto simp: Let_def store16_def split: if_splits option.splits)

lemma length_colon_shift [simp]: "length (colon_shift tmp c n i k) = length tmp"
  by (induction tmp c n i k rule: colon_shift.induct) simp_all

lemma inet_pton6_length: "inet_pton6 h = Some a \<Longrightarrow> length a = 16"
  unfolding inet_pton6_def Let_def
  by (auto split: if_splits option.splits dest!: inet_pton6_loop_length simp: store16_def)

lemma literal_length: "v4_literal h = Some a \<Longrightarrow> length a = 4" "v6_literal h = Some a \<Longrightarrow> length a = 16"
  by (auto simp: v4_literal_def v6_literal_def inet_pton_def split: if_splits option.splits
      dest: inet_pton4_length inet_pton6_length)

section \<open>The result of getaddrinfo\<close>

abbreviation st_ok :: "addrinfo \<Rightarrow> eai option \<times> ga_state \<Rightarrow> bool" where
  "st_ok hint r \<equiv> fst r = None \<longrightarrow> all_ok hint (fst (snd r))"

lemma ga_addresses_ok:
  assumes "all_ok hint ais" and "ai_family hint \<noteq> AF_UNSPEC \<longrightarrow> ty = ai_family hint" and "\<forall>a \<in> set as. arg_ok (Addr_bytes a) ty"
  shows "wp (ga_addresses os hint ty as ais) (ret_or_exit (\<lambda>(rc, ais') t. rc = None \<longrightarrow> all_ok hint ais')) s"
  using assms(1,3)
proof (induction as arbitrary: ais s)
  case Nil
  then show ?case by (simp only: ga_addresses.simps wp_basic) simp
next
  case (Cons a as ais s)
  have a: "arg_ok (Addr_bytes a) ty" using Cons.prems by simp
  show ?case unfolding ga_addresses.simps
    by (rule wp_bind_ret[OF ga_aistruct_ok[OF Cons.prems(1) a assms(2)]])
      (use Cons.prems in \<open>auto simp: wp_basic intro!: Cons.IH\<close>)
qed

lemma ga_literal_ok:
  assumes "all_ok hint (fst st)" and "arg_ok (Addr_bytes a) fam"
  shows "wp (ga_literal os hint sptr fam a st) (ret_or_exit (\<lambda>r t. st_ok hint r)) s"
  unfolding ga_literal_def
proof (intro wp_ifI)
  assume "\<not> (ai_family hint \<noteq> AF_UNSPEC \<and> ai_family hint \<noteq> fam)"
  then have fam: "ai_family hint \<noteq> AF_UNSPEC \<longrightarrow> fam = ai_family hint" by auto
  show "wp (cbind (ga_aistruct os hint (Addr_bytes a) fam (fst st)) (\<lambda>(rc, ais). creturn (rc, ais, snd st)))
    (ret_or_exit (\<lambda>r t. st_ok hint r)) s"
    by (rule wp_bind_ret[OF ga_aistruct_ok[OF assms fam]]) (auto simp: wp_basic)
qed (use assms in \<open>simp_all add: wp_basic\<close>)

definition hptr_ok :: "sysret \<Rightarrow> bool" where
  "hptr_ok r \<longleftrightarrow> rv r \<noteq> 0 \<longrightarrow> (\<forall>a \<in> set (h_addr_list r). arg_ok (Addr_bytes a) (h_addrtype r))"

lemma gethost_hptr_ok:
  assumes "hostent_ok os" and "f = ''gethostbyname'' \<or> f = ''gethostbyname2''"
  shows "hptr_ok (os h (C_lib f xs))"
proof -
  from assms have "rv (os h (C_lib f xs)) \<noteq> 0 \<Longrightarrow>
     (h_addrtype (os h (C_lib f xs)) = AF_INET \<or> h_addrtype (os h (C_lib f xs)) = AF_INET6) \<and>
     (\<forall>a \<in> set (h_addr_list (os h (C_lib f xs))). length a = (if h_addrtype (os h (C_lib f xs)) = AF_INET then 4 else 16))"
    unfolding hostent_ok_def Let_def by blast
  then show ?thesis unfolding hptr_ok_def by (auto simp: arg_ok_def)
qed

lemma ga_gethost_ok: "hostent_ok os \<Longrightarrow> wp (ga_gethost os n sptr) (ret_or_exit (\<lambda>r t. hptr_ok r)) s"
  unfolding ga_gethost_def by (simp add: wp_simps gethost_hptr_ok)

lemma ga_lookup_ok:
  assumes "hostent_ok os" and "all_ok hint (fst st)"
  shows "wp (ga_lookup os hostname hint n sptr st) (ret_or_exit (\<lambda>r t. st_ok hint r)) s"
  unfolding ga_lookup_def
proof (rule wp_bind_ret[OF ga_gethost_ok[OF assms(1)]], intro wp_ifI)
  fix hptr and t :: "'a res_proc_scheme"
  assume h: "hptr_ok hptr" "rv hptr \<noteq> 0" "\<not> (ai_family hint \<noteq> AF_UNSPEC \<and> ai_family hint \<noteq> h_addrtype hptr)"
  have rest: "wp (cbind (ga_addresses os hint (h_addrtype hptr) (h_addr_list hptr) (fst st)) (\<lambda>(rc, ais). creturn (rc, ais, canon)))
    (ret_or_exit (\<lambda>r t. st_ok hint r)) u" for canon and u :: "'a res_proc_scheme"
    by (rule wp_bind_ret[OF ga_addresses_ok[OF assms(2)]]) (use h in \<open>auto simp: hptr_ok_def wp_basic\<close>)
  show "wp (cbind (if \<not> is_null hostname \<and> ai_flags hint AND AI_CANONNAME \<noteq> 0 \<and> snd st = None
            then cbind (strdup os (h_name hptr)) (\<lambda>c. creturn (c, c = None)) else creturn (snd st, False)) (\<lambda>(canon, failed).
     if failed then creturn (Some EAI_MEMORY, fst st, canon)
     else cbind (ga_addresses os hint (h_addrtype hptr) (h_addr_list hptr) (fst st)) (\<lambda>(rc, ais). creturn (rc, ais, canon))))
    (ret_or_exit (\<lambda>r t. st_ok hint r)) t"
  proof (rule wp_bind_ret[where P = "\<lambda>_ _. True"])
    show "wp (if \<not> is_null hostname \<and> ai_flags hint AND AI_CANONNAME \<noteq> 0 \<and> snd st = None
            then cbind (strdup os (h_name hptr)) (\<lambda>c. creturn (c, c = None)) else creturn (snd st, False)) (ret_or_exit (\<lambda>_ _. True)) t"
      by (simp add: strdup_def wp_simps)
  qed (use rest in \<open>auto simp: wp_basic intro!: wp_ifI\<close>)
qed (use assms in \<open>simp_all add: wp_basic\<close>)

lemma ga_searches_ok:
  assumes "hostent_ok os" and "all_ok hint (fst st)"
  shows "wp (ga_searches os hostname hint n search st) (ret_or_exit (\<lambda>r t. st_ok hint r)) s"
  using assms(2)
proof (induction search arbitrary: st s)
  case Nil
  then show ?case by (simp only: ga_searches.simps wp_basic) simp
next
  case (Cons sptr rest st s)
  have lit: "v4_literal (shost sptr) = Some a \<Longrightarrow> arg_ok (Addr_bytes a) AF_INET" "v6_literal (shost sptr) = Some a \<Longrightarrow> arg_ok (Addr_bytes a) AF_INET6" for a
    by (simp_all add: arg_ok_def literal_length)
  have "wp (case v4_literal (shost sptr) of Some a \<Rightarrow> ga_literal os hint sptr AF_INET a st
            | None \<Rightarrow> (case v6_literal (shost sptr) of Some a \<Rightarrow> ga_literal os hint sptr AF_INET6 a st
              | None \<Rightarrow> ga_lookup os hostname hint n sptr st)) (ret_or_exit (\<lambda>r t. st_ok hint r)) s"
    using ga_literal_ok[OF Cons.prems] lit ga_lookup_ok[OF assms(1) Cons.prems] by (auto split: option.split)
  then show ?case unfolding ga_searches.simps
    by (rule wp_bind_ret) (auto simp: wp_basic intro!: Cons.IH)
qed

lemma all_ok_set_canon [simp]: "all_ok hint (set_canon c ais) \<longleftrightarrow> all_ok hint ais"
  by (cases ais) (simp_all add: set_canon_def ai_ok_def)

lemma set_canon_Nil [simp]: "set_canon c ais = [] \<longleftrightarrow> ais = []"
  by (cases ais) (simp_all add: set_canon_def)

text \<open>A service leaves structures where there were some.\<close>

lemma ga_port_nonempty: "ga_port os ais port ty s = Some (Ret (ais', n), t) \<Longrightarrow> ais \<noteq> [] \<Longrightarrow> ais' \<noteq> []"
  by (cases ais) (auto split: if_splits option.splits prod.splits elim!: cbindE)

lemma ga_try_service_nonempty: "ga_try_service os ais hint serv proto ty s = Some (Ret (ais', n), t) \<Longrightarrow> ais \<noteq> [] \<Longrightarrow> ais' \<noteq> []"
  by (auto simp: ga_try_service_def split: if_splits elim!: cbindE dest: ga_port_nonempty)

lemma ga_serv_nonempty: "ga_serv os ais hint serv s = Some (Ret (rc, ais'), t) \<Longrightarrow> ais \<noteq> [] \<Longrightarrow> ais' \<noteq> []"
  unfolding ga_serv_def Let_def
  by (auto split: if_splits elim!: cbindE dest!: ga_port_nonempty ga_try_service_nonempty)

lemma ga_serv_wf:
  assumes "all_ok hint ais" and "ais \<noteq> []"
  shows "wp (ga_serv os ais hint serv) (ret_or_exit (\<lambda>(rc, ais') t. rc = None \<longrightarrow> all_ok hint ais' \<and> ais' \<noteq> [])) s"
proof -
  obtain r t where run: "ga_serv os ais hint serv s = Some (r, t)" and post: "ret_or_exit (\<lambda>(rc, ais') t. rc = None \<longrightarrow> all_ok hint ais') r t"
    using ga_serv_ok[OF assms(1)] unfolding wp_def by blast
  have "ais' \<noteq> []" if "r = Ret (rc, ais')" for rc ais'
    using run ga_serv_nonempty[OF _ assms(2)] that by blast
  with run post show ?thesis unfolding wp_def by (cases r) auto
qed

abbreviation wf_result :: "addrinfo \<Rightarrow> eai + gai list \<Rightarrow> bool" where
  "wf_result hint r \<equiv> (case r of Inl e \<Rightarrow> True | Inr ais \<Rightarrow> all_ok hint ais \<and> ais \<noteq> [])"

lemma ga_bad_ok: "wp (ga_bad os e ais) (ret_or_exit (\<lambda>r t. wf_result hint r)) s"
proof -
  have "holds (allocated (calls s) , freed (calls s) + mems ais) ({#} + mems ais) s" by (simp add: holds_def ac_simps)
  from freeaddrinfo_mem[OF this] show ?thesis
    unfolding ga_bad_def by (rule wp_bind_ret) (simp add: wp_basic)
qed

lemma ga_finish_ok:
  assumes "all_ok hint (fst st)"
  shows "wp (ga_finish os hostname servname hint search st) (ret_or_exit (\<lambda>r t. wf_result hint r)) s"
proof -
  obtain ais canon where st: "st = (ais, canon)" by (cases st)
  have name: "wp (if \<not> is_null hostname \<and> ai_flags hint AND AI_CANONNAME \<noteq> 0 then
               case canon of Some c \<Rightarrow> creturn (None, set_canon c ais)
               | None \<Rightarrow> cbind (strdup os (shost (hd search))) (\<lambda>c.
                   case c of None \<Rightarrow> creturn (Some EAI_MEMORY, ais) | Some c \<Rightarrow> creturn (None, set_canon c ais))
             else creturn (None, ais)) (ret_or_exit (\<lambda>(rc, ais') t. rc = None \<longrightarrow> all_ok hint ais' \<and> ais' \<noteq> [])) s" if "ais \<noteq> []"
    using assms that by (auto simp: st strdup_def wp_simps split: option.split)
  have serv: "wp (cbind (if \<not> is_null servname then ga_serv os ais' hint (the servname) else creturn (None, ais')) (\<lambda>(rc, ais).
      if rc \<noteq> None then ga_bad os (the rc) ais else creturn (Inr ais))) (ret_or_exit (\<lambda>r t. wf_result hint r)) t"
    if "all_ok hint ais'" "ais' \<noteq> []" for ais' and t :: "'a res_proc_scheme"
  proof (rule wp_bind_ret)
    show "wp (if \<not> is_null servname then ga_serv os ais' hint (the servname) else creturn (None, ais'))
      (ret_or_exit (\<lambda>(rc, ais') t. rc = None \<longrightarrow> all_ok hint ais' \<and> ais' \<noteq> [])) t"
      by (rule wp_ifI, rule ga_serv_wf[OF that]) (use that in \<open>simp add: wp_basic\<close>)
  qed (auto simp: wp_basic intro!: ga_bad_ok wp_ifI)
  have "wp (cbind (if \<not> is_null hostname \<and> ai_flags hint AND AI_CANONNAME \<noteq> 0 then
               case canon of Some c \<Rightarrow> creturn (None, set_canon c ais)
               | None \<Rightarrow> cbind (strdup os (shost (hd search))) (\<lambda>c.
                   case c of None \<Rightarrow> creturn (Some EAI_MEMORY, ais) | Some c \<Rightarrow> creturn (None, set_canon c ais))
             else creturn (None, ais)) (\<lambda>(rc, ais).
      if rc \<noteq> None then ga_bad os (the rc) ais
      else
      cbind (if \<not> is_null servname then ga_serv os ais hint (the servname) else creturn (None, ais)) (\<lambda>(rc, ais).
      if rc \<noteq> None then ga_bad os (the rc) ais else creturn (Inr ais)))) (ret_or_exit (\<lambda>r t. wf_result hint r)) s" if "ais \<noteq> []"
    by (rule wp_bind_ret[OF name[OF that]], clarify, rule wp_ifI, rule ga_bad_ok, rule serv) simp_all
  then show ?thesis unfolding ga_finish_def st Let_def prod.case by (intro wp_ifI ga_bad_ok)
qed

lemma ga_unix_ok: "wp (ga_unix os path hint) (ret_or_exit (\<lambda>r t. wf_result hint r)) s"
proof (cases "ai_family hint \<noteq> AF_UNSPEC \<and> ai_family hint \<noteq> AF_LOCAL")
  case True
  then show ?thesis by (auto simp: ga_unix_def wp_basic)
next
  case False
  have arg: "arg_ok (Addr_path path) AF_LOCAL" and fam: "ai_family hint \<noteq> AF_UNSPEC \<longrightarrow> AF_LOCAL = ai_family hint"
    using False by (auto simp: arg_ok_def)
  note typed = ga_aistruct_typed[OF _ arg fam]
  let ?P = "\<lambda>(rc, ais, hint'). rc = None \<longrightarrow> all_ok hint ais \<and>
    (\<exists>ty. hint' = hint\<lparr>ai_socktype := ty\<rparr> \<and> (ai_socktype hint = 0 \<or> ai_socktype hint = ty))"
  have first: "wp (if ai_socktype hint = 0
             then cbind (ga_aistruct os (hint\<lparr>ai_socktype := SOCK_STREAM\<rparr>) (Addr_path path) AF_LOCAL []) (\<lambda>(rc, ais).
                  creturn (rc, ais, hint\<lparr>ai_socktype := SOCK_DGRAM\<rparr>))
             else creturn (None, [], hint)) (ret_or_exit (\<lambda>r t. ?P r)) s"
  proof (rule wp_ifI)
    assume "ai_socktype hint = 0"
    then show "wp (cbind (ga_aistruct os (hint\<lparr>ai_socktype := SOCK_STREAM\<rparr>) (Addr_path path) AF_LOCAL []) (\<lambda>(rc, ais).
                  creturn (rc, ais, hint\<lparr>ai_socktype := SOCK_DGRAM\<rparr>))) (ret_or_exit (\<lambda>r t. ?P r)) s"
      by (intro wp_bind_ret[OF typed]) (auto simp: wp_basic)
  next
    show "wp (creturn (None, [], hint)) (ret_or_exit (\<lambda>r t. ?P r)) s"
      by (simp add: wp_basic) (metis addrinfo.surjective addrinfo.update_convs(3))
  qed
  have rest: "wp (cbind (ga_aistruct os hint' (Addr_path path) AF_LOCAL ais) (\<lambda>(rc, ais).
      if rc \<noteq> None then creturn (Inl (the rc))
      else if ai_flags hint' AND AI_CANONNAME \<noteq> 0 then
        cbind (call os (C_lib ''uname'' [])) (\<lambda>u.
        if rv u < 0 then creturn (Inl EAI_SYSTEM)
        else cbind (strdup os (out_str u)) (\<lambda>c.
             case c of None \<Rightarrow> creturn (Inl EAI_MEMORY) | Some c \<Rightarrow> creturn (Inr (set_canon c ais))))
      else creturn (Inr ais))) (ret_or_exit (\<lambda>r t. wf_result hint r)) t"
    if t: "?P (None, ais, hint')" for ais hint' and t :: "'a proc_scheme"
  proof -
    from t obtain ty where ty: "all_ok hint ais" "hint' = hint\<lparr>ai_socktype := ty\<rparr>" "ai_socktype hint = 0 \<or> ai_socktype hint = ty"
      by auto
    show ?thesis
      by (simp only: ty(2), rule wp_bind_ret[OF typed[OF ty(1,3)]])
        (auto simp: wp_simps strdup_def split: option.split)
  qed
  show ?thesis
    unfolding ga_unix_def if_not_P[OF False]
    by (rule wp_bind_ret[OF first], clarify, rule wp_ifI, simp add: wp_basic, rule rest) simp
qed

text \<open>
  C25. What \<open>getaddrinfo\<close> returns on success can be used as it is: there is at least one structure, each
  has the address its family and length announce, it is of the family and the socket type the caller asked
  for (when it asked for one), and has the protocol of the hints. The resolver is assumed to return
  addresses of the length of their type.
\<close>

theorem getaddrinfo_wf:
  assumes "hostent_ok os"
  shows "wp (getaddrinfo os hostname servname hintsp) (\<lambda>r t. case r of
      Ret (Inr ais) \<Rightarrow> ais \<noteq> [] \<and> (\<forall>ai \<in> set ais. fits (ai_family ai) (ai_addrlen ai) (ai_addr ai) \<and>
        (ai_family (hints_of hintsp) \<noteq> AF_UNSPEC \<longrightarrow> ai_family ai = ai_family (hints_of hintsp)) \<and>
        (ai_socktype (hints_of hintsp) \<noteq> 0 \<longrightarrow> ai_socktype ai = ai_socktype (hints_of hintsp)) \<and>
        ai_protocol ai = ai_protocol (hints_of hintsp))
    | Ret (Inl e) \<Rightarrow> True
    | Exit n \<Rightarrow> n = 1 | Abort \<Rightarrow> False) s"
proof -
  let ?h = "hints_of hintsp"
  have start: "all_ok ?h (fst ([], None))" by simp
  have inet: "wp (cbind (ga_nsearch os hostname ?h) (\<lambda>search.
          cbind (ga_searches os hostname ?h (length search) search ([], None)) (\<lambda>(rc, st).
          if rc \<noteq> None then ga_bad os (the rc) (fst st) else ga_finish os hostname servname ?h search st)))
     (ret_or_exit (\<lambda>r t. wf_result ?h r)) s"
    by (rule wp_bind_ret[where P = "\<lambda>_ _. True"], simp add: ga_nsearch_def Let_def wp_simps,
        rule wp_bind_ret[OF ga_searches_ok[OF assms start]])
      (auto intro!: wp_ifI ga_bad_ok ga_finish_ok)
  have "wp (getaddrinfo os hostname servname hintsp) (ret_or_exit (\<lambda>r t. wf_result ?h r)) s"
    unfolding getaddrinfo_def Let_def
    by (cases "ga_echeck hostname servname (ai_flags ?h) (ai_family ?h) (ai_socktype ?h) (ai_protocol ?h)")
      (use inet in \<open>auto intro!: wp_ifI ga_unix_ok ga_bad_ok\<close>)
  then show ?thesis
    by (rule wp_mono) (auto simp: all_ok_def ai_ok_def split: outcome.splits sum.splits)
qed

text \<open>A resolver that knows one address for every name, with an allocator that does not fail.\<close>

definition one_host :: os where
  "one_host h c = (case c of C_lib f xs \<Rightarrow>
     \<lparr>rv = int (length h) + 1, err = None, outs = (if f = ''gethostbyname'' \<or> f = ''gethostbyname2''
        then [V_str ''host'', V_int AF_INET, V_bytes [10, 0, 0, 1]] else [])\<rparr>
   | _ \<Rightarrow> \<lparr>rv = 0, err = None, outs = []\<rparr>)"

lemma one_host_ok: "hostent_ok one_host"
  by (auto simp: hostent_ok_def one_host_def h_addrtype_def h_addr_list_def Let_def)

theorem getaddrinfo_wf_witness:
  "wp (getaddrinfo one_host (Some ''host'') (Some ''80'') (Some (hints 0 AF_INET SOCK_STREAM))) (\<lambda>r t. case r of
      Ret (Inr ais) \<Rightarrow> ais \<noteq> [] \<and> (\<forall>ai \<in> set ais. fits (ai_family ai) (ai_addrlen ai) (ai_addr ai) \<and>
        ai_family ai = AF_INET \<and> ai_socktype ai = SOCK_STREAM \<and> ai_protocol ai = 0)
    | Ret (Inl e) \<Rightarrow> True | Exit n \<Rightarrow> n = 1 | Abort \<Rightarrow> False) start_proc"
  by (rule wp_mono[OF getaddrinfo_wf[OF one_host_ok]]) (auto simp: hints_of_def hints_def split: outcome.splits sum.splits)

section \<open>Services\<close>

text \<open>An allocator that does not fail.\<close>

definition alloc_ok :: "os \<Rightarrow> bool" where
  "alloc_ok os \<longleftrightarrow> (\<forall>h f xs. f = ''calloc'' \<or> f = ''malloc'' \<longrightarrow> rv (os h (C_lib f xs)) \<noteq> 0)"

definition view :: "gai \<Rightarrow> int \<times> int \<times> sockaddr" where
  "view ai = (ai_family ai, ai_socktype ai, ai_addr ai)"

definition inet_ai :: "gai \<Rightarrow> bool" where
  "inet_ai ai \<longleftrightarrow> ai_flags ai AND AI_CLONE \<noteq> 0 \<and> (ai_family ai = AF_INET \<or> ai_family ai = AF_INET6)"

lemma set_port_type_simps [simp]:
  "ai_socktype (set_port_type port ty ai) = ty" "ai_flags (set_port_type port ty ai) = ai_flags ai"
  "ai_family (set_port_type port ty ai) = ai_family ai" "ai_addrlen (set_port_type port ty ai) = ai_addrlen ai"
  "ai_protocol (set_port_type port ty ai) = ai_protocol ai" "ai_canonname (set_port_type port ty ai) = ai_canonname ai"
  by (simp_all add: set_port_type_def)

lemma ga_clone_view:
  assumes "alloc_ok os"
  shows "\<exists>n t. ga_clone os ai s = Some (Ret (Some n, [n]), t) \<and> view n = view ai \<and> ai_family n = ai_family ai \<and> ai_addr n = ai_addr ai \<and>
    ai_addrlen n = ai_addrlen ai"
  using assms by (simp add: ga_clone_def alloc_ok_def view_def Let_def)

text \<open>The first socket type is entered into the structures, the second into copies behind them.\<close>

lemma ga_port_first:
  assumes "\<forall>ai \<in> set ais. inet_ai ai \<and> ai_socktype ai = 0"
  shows "ga_port os ais port ty s = Some (Ret (map (set_port_type port ty) ais, int (length ais)), s)"
  using assms by (induction ais) (auto simp: inet_ai_def counted_def)

lemma ga_port_second:
  assumes "alloc_ok os" and "\<forall>ai \<in> set ais. inet_ai ai \<and> ai_socktype ai \<noteq> 0"
  shows "\<exists>ais' t. ga_port os ais port ty s = Some (Ret (ais', int (length ais)), t) \<and>
    map view ais' = concat (map (\<lambda>ai. [view ai, view (set_port_type port ty ai)]) ais)"
  using assms(2)
proof (induction ais arbitrary: s)
  case (Cons ai rest s)
  obtain n t where c: "ga_clone os ai s = Some (Ret (Some n, [n]), t)" "view n = view ai" "ai_addrlen n = ai_addrlen ai"
    using ga_clone_view[OF assms(1)] by blast
  have v: "view (set_port_type port ty n) = view (set_port_type port ty ai)" "counted n = 1"
    using c(2,3) Cons.prems by (auto simp: view_def set_port_type_def counted_def inet_ai_def)
  obtain ais' u where r: "ga_port os rest port ty t = Some (Ret (ais', int (length rest)), u)"
    "map view ais' = concat (map (\<lambda>ai. [view ai, view (set_port_type port ty ai)]) rest)"
    using Cons.IH[of t] Cons.prems by auto
  show ?case using Cons.prems c r v by (auto simp: inet_ai_def)
qed simp

text \<open>
  A port number without a socket type: \<open>ga_serv\<close> returns, as its comment says, for every address
  first a stream structure and then a datagram structure, in the order of the addresses, all with that port
  in network byte order. The structures are ones \<open>ga_aistruct\<close> made for an unspecified socket type, and
  the allocator does not fail.
\<close>

theorem ga_serv_pairs:
  assumes "alloc_ok os" and "isdigit_first serv" and "ai_socktype hint = 0" and "ais \<noteq> []"
    and "\<forall>ai \<in> set ais. inet_ai ai \<and> ai_socktype ai = 0"
  shows "\<exists>ais' t. ga_serv os ais hint serv s = Some (Ret (None, ais'), t) \<and>
    map view ais' = concat (map (\<lambda>ai. map (\<lambda>ty. (ai_family ai, ty,
      sock_set_port (ai_addr ai) (ai_addrlen ai) (uint (ntohs (word_of_int (atoi serv)))))) [SOCK_STREAM, SOCK_DGRAM]) ais)"
proof -
  let ?port = "uint (ntohs (word_of_int (atoi serv)))" and ?ais = "map (set_port_type (uint (ntohs (word_of_int (atoi serv)))) SOCK_STREAM) ais"
  have "\<forall>ai \<in> set ?ais. inet_ai ai \<and> ai_socktype ai \<noteq> 0" using assms(5) by (auto simp: inet_ai_def)
  from ga_port_second[OF assms(1) this] obtain ais' t where second:
    "ga_port os ?ais ?port SOCK_DGRAM s = Some (Ret (ais', int (length ?ais)), t)"
    "map view ais' = concat (map (\<lambda>ai. [view ai, view (set_port_type ?port SOCK_DGRAM ai)]) ?ais)" by blast
  have twice: "sock_set_port (sock_set_port sa n p) m p = sock_set_port sa n p" for sa n m p by (cases sa) simp_all
  have "map view ais' = concat (map (\<lambda>ai. map (\<lambda>ty. (ai_family ai, ty, sock_set_port (ai_addr ai) (ai_addrlen ai) ?port)) [SOCK_STREAM, SOCK_DGRAM]) ais)"
    using second(2) assms(5)
    by (simp add: comp_def) (rule arg_cong[of _ _ concat], auto simp: view_def set_port_type_def inet_ai_def twice)
  moreover have "ga_serv os ais hint serv s = Some (Ret (None, ais'), t)"
    using second(1) assms(2-4) ga_port_first[OF assms(5), of os ?port SOCK_STREAM s] by (simp add: ga_serv_def Let_def)
  ultimately show ?thesis by blast
qed

lemma one_host_alloc: "alloc_ok one_host"
  by (auto simp: alloc_ok_def one_host_def)

definition two_addresses :: "gai list" where
  "two_addresses = map (\<lambda>a. \<lparr>ai_flags = AI_CLONE, ai_family = AF_INET, ai_socktype = 0, ai_protocol = 0, ai_addrlen = 16,
     ai_canonname = None, ai_addr = Sockaddr_in 0 a, ai_mem = 1, addr_mem = 2, canon_mem = 0\<rparr>) [[10, 0, 0, 1], [10, 0, 0, 2]]"

theorem ga_serv_pairs_witness:
  "\<exists>ais' t. ga_serv one_host two_addresses (hints 0 AF_UNSPEC 0) ''13'' start_proc = Some (Ret (None, ais'), t) \<and>
     map (\<lambda>ai. (ai_socktype ai, sin_addr (ai_addr ai))) ais' =
       [(SOCK_STREAM, [10, 0, 0, 1]), (SOCK_DGRAM, [10, 0, 0, 1]), (SOCK_STREAM, [10, 0, 0, 2]), (SOCK_DGRAM, [10, 0, 0, 2])]"
proof -
  have "isdigit_first ''13''" by code_simp
  moreover have "two_addresses \<noteq> []" "\<forall>ai \<in> set two_addresses. inet_ai ai \<and> ai_socktype ai = 0" "ai_socktype (hints 0 AF_UNSPEC 0) = 0"
    by (simp_all add: two_addresses_def inet_ai_def hints_def)
  ultimately obtain ais' t where r: "ga_serv one_host two_addresses (hints 0 AF_UNSPEC 0) ''13'' start_proc = Some (Ret (None, ais'), t)"
    and v: "map view ais' = concat (map (\<lambda>ai. map (\<lambda>ty. (ai_family ai, ty,
      sock_set_port (ai_addr ai) (ai_addrlen ai) (uint (ntohs (word_of_int (atoi ''13'')))))) [SOCK_STREAM, SOCK_DGRAM]) two_addresses)"
    using ga_serv_pairs[OF one_host_alloc, of "''13''" "hints 0 AF_UNSPEC 0" two_addresses start_proc] by blast
  have "map (\<lambda>ai. (ai_socktype ai, sin_addr (ai_addr ai))) ais' = map (\<lambda>(f, ty, sa). (ty, sin_addr sa)) (map view ais')"
    by (simp add: view_def)
  with r v show ?thesis by (simp add: two_addresses_def)
qed

section \<open>Numeric round trip\<close>

lemma is_digit_xdigits: "d < 10 \<Longrightarrow> is_digit (xdigits_l ! d) \<and> digit_val (xdigits_l ! d) = d"
proof -
  assume "d < 10"
  then have "d \<in> set [0, 1, 2, 3, 4, 5, 6, 7, 8, 9]" by auto
  then show ?thesis by (auto simp: xdigits_l_def is_digit_def digit_val_def)
qed

lemma digits_val_append: "list_all is_digit as \<Longrightarrow> digits_val acc (as @ bs) = digits_val (digits_val acc as) bs"
  by (induction as arbitrary: acc) simp_all

lemma print_radix_digits: "list_all is_digit (print_radix 10 n) \<and> digits_val 0 (print_radix 10 n) = n"
proof (induction n rule: less_induct)
  case (less n)
  show ?case
  proof (cases "n < 10")
    case True
    then show ?thesis using is_digit_xdigits[of n] by (simp add: print_radix_small)
  next
    case False
    then have "n div 10 < n" by simp
    from less.IH[OF this] show ?thesis
      using False is_digit_xdigits[of "n mod 10"] by (simp add: print_radix_step digits_val_append)
  qed
qed

lemma is_digit_not: "is_digit c \<Longrightarrow> \<not> is_space c \<and> c \<noteq> CHR ''-'' \<and> c \<noteq> CHR ''+''"
  by (auto simp: is_digit_def is_space_def)

lemma atoi_print: "atoi (print_radix 10 n) = int n" "isdigit_first (print_radix 10 n @ x)"
proof -
  obtain c cs where p: "print_radix 10 n = c # cs" using print_radix_nonempty[of 10 n] by (cases "print_radix 10 n") auto
  then have c: "is_digit c" "digits_val 0 (c # cs) = n" using print_radix_digits[of n] by auto
  from is_digit_not[OF c(1)] c(2) show "atoi (print_radix 10 n) = int n" unfolding atoi_def p by auto
  from c(1) show "isdigit_first (print_radix 10 n @ x)" unfolding isdigit_first_def p by simp
qed

lemma v4_literal_dotted:
  assumes "length a = 4"
  shows "v4_literal (dotted a) = Some a"
proof -
  have "isdigit_first (dotted a)" unfolding dotted_def by (rule atoi_print(2))
  then show ?thesis using inet_pton4_dotted[OF assms] by (simp add: v4_literal_def inet_pton_def)
qed

lemma dotted_first: "\<not> is_null (Some (dotted a))" "dotted a \<noteq> ''/local''" "dotted a \<noteq> ''/unix''"
proof -
  have d: "isdigit_first (dotted a)" unfolding dotted_def by (rule atoi_print(2))
  then show "\<not> is_null (Some (dotted a))" by (auto simp: isdigit_first_def is_null_def)
  from d show "dotted a \<noteq> ''/local''" "dotted a \<noteq> ''/unix''" by (auto simp: isdigit_first_def is_digit_def)
qed

text \<open>
  C26. \<open>getnameinfo\<close> in numeric form is undone by \<open>getaddrinfo\<close>: the host and service texts it writes for
  an IPv4 address (in buffers that hold them) name, in any address family and for stream sockets, exactly one
  structure, with that address and port. No name is looked up; the allocator does not fail.
\<close>

theorem nameinfo_roundtrip:
  assumes "length a = 4" and "alloc_ok os" and "16 \<le> hostlen" and "6 \<le> servlen"
  shows "\<exists>h v ai t. getnameinfo os (Sockaddr_in port a) hostlen servlen {NI_NUMERICHOST, NI_NUMERICSERV} s = Some (Ret (Some (Some h, Some v)), s) \<and>
    getaddrinfo os (Some h) (Some v) (Some (hints 0 AF_UNSPEC SOCK_STREAM)) s = Some (Ret (Inr [ai]), t) \<and>
    ai_family ai = AF_INET \<and> ai_socktype ai = SOCK_STREAM \<and> ai_addrlen ai = 16 \<and> ai_addr ai = Sockaddr_in port a"
proof -
  let ?v = "print_radix 10 (unat (ntohs port))"
  have "unat (ntohs port) < 10 ^ 5" by (rule order_less_le_trans[OF unsigned_less]) simp
  then have lv: "length ?v \<le> 5" by (rule length_print_radix) simp_all
  have iv: "print_int (uint (ntohs port)) = ?v" by (simp add: print_int_def)
  have gn: "getnameinfo os (Sockaddr_in port a) hostlen servlen {NI_NUMERICHOST, NI_NUMERICSERV} s = Some (Ret (Some (Some (dotted a), Some ?v)), s)"
    using assms(3,4) length_dotted[of a] lv
    by (simp add: gn_ipv46_def gn_host_def gn_serv_def Let_def inet_ntop_def inet_ntop4_def iv snprintf_text_def)
  have d: "isdigit_first ?v" using atoi_print(2)[of "unat (ntohs port)" "[]"] by simp
  then have nv: "\<not> is_null (Some ?v)" by (auto simp: isdigit_first_def is_null_def)
  have pt: "uint (ntohs (word_of_int (atoi ?v))) = uint port" by (simp add: atoi_print(1))
  have "\<exists>ai t. getaddrinfo os (Some (dotted a)) (Some ?v) (Some (hints 0 AF_UNSPEC SOCK_STREAM)) s = Some (Ret (Inr [ai]), t) \<and>
    ai_family ai = AF_INET \<and> ai_socktype ai = SOCK_STREAM \<and> ai_addrlen ai = 16 \<and> ai_addr ai = Sockaddr_in port a"
    using assms(1,2) d
    by (simp add: getaddrinfo_def hints_of_def hints_def Let_def ga_echeck_def dotted_first nv ga_nsearch_def ga_search_def
        search_v4_def search_v6_def v4_literal_dotted ga_literal_def ga_aistruct_def alloc_ok_def ga_finish_def ga_serv_def
        set_port_type_def counted_def pt)
  with gn show ?thesis by blast
qed

theorem nameinfo_roundtrip_witness:
  "\<exists>h v ai t. getnameinfo one_host (Sockaddr_in 80 [10, 0, 0, 1]) 1025 32 {NI_NUMERICHOST, NI_NUMERICSERV} start_proc = Some (Ret (Some (Some h, Some v)), start_proc) \<and>
    getaddrinfo one_host (Some h) (Some v) (Some (hints 0 AF_UNSPEC SOCK_STREAM)) start_proc = Some (Ret (Inr [ai]), t) \<and>
    ai_family ai = AF_INET \<and> ai_socktype ai = SOCK_STREAM \<and> ai_addrlen ai = 16 \<and> ai_addr ai = Sockaddr_in 80 [10, 0, 0, 1]"
  by (rule nameinfo_roundtrip[OF _ one_host_alloc]) simp_all

end
