(* ===== verification/Stream_IO.thy ===== *)
theory Stream_IO
  imports Wrappers
begin

text \<open>
  Byte-stream input and output of the library: lib/readn.c and lib/writen.c.

  A kernel may accept or deliver fewer bytes than asked for, or interrupt a call. What the functions
  promise is a property of the calls they add to the history: \<open>written fd\<close> and \<open>received fd\<close> read
  off the bytes that a history moved over a descriptor.
\<close>

section \<open>Bytes moved by a history\<close>

definition write_bytes :: "int \<Rightarrow> ccall \<times> sysret \<Rightarrow> byte list" where
  "write_bytes fd p = (case fst p of
       C_write f bs \<Rightarrow> if f = fd \<and> 0 < rv (snd p) then take (nat (rv (snd p))) bs else []
     | _ \<Rightarrow> [])"

definition read_bytes :: "int \<Rightarrow> ccall \<times> sysret \<Rightarrow> byte list" where
  "read_bytes fd p = (case fst p of
       C_read f n \<Rightarrow> if f = fd \<and> 0 < rv (snd p) then out_bytes (snd p) else []
     | _ \<Rightarrow> [])"

definition written :: "int \<Rightarrow> hist \<Rightarrow> byte list" where
  "written fd h = concat (map (write_bytes fd) h)"

definition received :: "int \<Rightarrow> hist \<Rightarrow> byte list" where
  "received fd h = concat (map (read_bytes fd) h)"

text \<open>Both are homomorphisms from histories to byte strings; what follows needs only that.\<close>

locale hist_bytes =
  fixes moved :: "hist \<Rightarrow> byte list"
  assumes moved_Nil [simp]: "moved [] = []"
    and moved_append [simp]: "moved (g @ h) = moved g @ moved h"
begin

definition moves :: "'z proc_scheme \<Rightarrow> 'z proc_scheme \<Rightarrow> byte list \<Rightarrow> bool" where
  "moves s t bs \<longleftrightarrow> (\<exists>new. calls t = calls s @ new \<and> moved new = bs)"

lemma moves_refl: "calls t = calls s \<Longrightarrow> moves s t []"
  by (auto simp: moves_def)

lemma moves_trans: "moves s t bs \<Longrightarrow> moves t u cs \<Longrightarrow> moves s u (bs @ cs)"
  by (force simp: moves_def)

lemma moves_after: "moves s (after os c s) (moved [(c, os (calls s) c)])"
  by (auto simp: moves_def)

lemma moves_unique: "moves s t bs \<Longrightarrow> moves s t cs \<Longrightarrow> bs = cs"
  by (auto simp: moves_def)

end

interpretation wr: hist_bytes "written fd" for fd
  by unfold_locales (simp_all add: written_def)

interpretation rd: hist_bytes "received fd" for fd
  by unfold_locales (simp_all add: received_def)

lemma written_write [simp]:
  "written fd [(C_write fd bs, r)] = (if 0 < rv r then take (nat (rv r)) bs else [])"
  by (simp add: written_def write_bytes_def)

lemma received_read [simp]:
  "received fd [(C_read fd n, r)] = (if 0 < rv r then out_bytes r else [])"
  by (simp add: received_def read_bytes_def)

lemma written_other [simp]:
  "written fd [(C_read f n, r)] = []" "written fd [(C_lib x vs, r)] = []"
  "written fd [(C_strerror e, r)] = []" "written fd [(C_fputs x i, r)] = []"
  "written fd [(C_fflush i, r)] = []" "written fd [(C_syslog i x, r)] = []"
  by (simp_all add: written_def write_bytes_def)

lemma received_other [simp]:
  "received fd [(C_write f bs, r)] = []" "received fd [(C_lib x vs, r)] = []"
  "received fd [(C_strerror e, r)] = []" "received fd [(C_fputs x i, r)] = []"
  "received fd [(C_fflush i, r)] = []" "received fd [(C_syslog i x, r)] = []"
  by (simp_all add: received_def read_bytes_def)

section \<open>Interrupted calls\<close>

text \<open>A call is interrupted when it fails with \<open>EINTR\<close>. An environment is fair to a call when
  repeating the call does not fail that way for ever.\<close>

definition interrupted :: "sysret \<Rightarrow> bool" where
  "interrupted r \<longleftrightarrow> rv r < 0 \<and> err r = Some EINTR"

definition retry_hist :: "os \<Rightarrow> ccall \<Rightarrow> hist \<Rightarrow> hist" where
  "retry_hist os c h = h @ [(c, os h c)]"

definition fair :: "os \<Rightarrow> ccall \<Rightarrow> bool" where
  "fair os c \<longleftrightarrow> (\<forall>h. \<exists>k. \<not> interrupted (os ((retry_hist os c ^^ k) h) c))"

lemma calls_after_retry: "calls (after os c s) = retry_hist os c (calls s)"
  by (simp add: retry_hist_def)

text \<open>The induction principle fairness gives: a property that holds after an uninterrupted call, and
  holds before an interrupted call when it holds after it, always holds.\<close>

lemma fair_induct [consumes 1, case_names finished retry]:
  assumes "fair os c"
    and "\<And>s. \<not> interrupted (os (calls s) c) \<Longrightarrow> P s"
    and "\<And>s. interrupted (os (calls s) c) \<Longrightarrow> (\<And>t. calls t = retry_hist os c (calls s) \<Longrightarrow> P t) \<Longrightarrow> P s"
  shows "P s"
proof -
  obtain k where "\<not> interrupted (os ((retry_hist os c ^^ k) (calls s)) c)"
    using assms(1) by (auto simp: fair_def)
  then show ?thesis
  proof (induction k arbitrary: s)
    case 0
    then show ?case by (simp add: assms(2))
  next
    case (Suc k)
    show ?case
    proof (cases "interrupted (os (calls s) c)")
      case True
      show ?thesis
        by (rule assms(3)[OF True], rule Suc.IH) (use Suc.prems in \<open>simp add: funpow_swap1\<close>)
    qed (rule assms(2))
  qed
qed

lemma interrupted_errno:
  "interrupted (os (calls s) c) \<Longrightarrow> errno (after os c s) = EINTR"
  by (simp add: interrupted_def errno_after)

lemma not_interrupted_errno:
  "rv (os (calls s) c) < 0 \<Longrightarrow> err (os (calls s) c) \<noteq> None \<Longrightarrow> \<not> interrupted (os (calls s) c) \<Longrightarrow>
   errno (after os c s) \<noteq> EINTR"
  by (auto simp: interrupted_def errno_after)

section \<open>lib/writen.c\<close>

text \<open>\<open>rest\<close> is the part of the buffer still to be written, \<open>ptr[0..nleft)\<close>.\<close>

partial_function (option) writen_loop ::
    "os \<Rightarrow> int \<Rightarrow> nat \<Rightarrow> byte list \<Rightarrow> 'z proc_scheme \<Rightarrow> (int outcome \<times> 'z proc_scheme) option" where
  "writen_loop os fd n rest s =
     (if 0 < length rest
      then cbind (call os (C_write fd rest)) (\<lambda>r.
           if rv r \<le> 0
           then if rv r < 0
                then cbind (cget errno) (\<lambda>e.
                     if e = EINTR then writen_loop os fd n rest else creturn (- 1))
                else creturn (- 1)
           else writen_loop os fd n (drop (nat (rv r)) rest))
      else creturn (int n)) s"

definition writen :: "os \<Rightarrow> int \<Rightarrow> byte list \<Rightarrow> ('z proc_scheme, int) cprog" where
  "writen os fd data = writen_loop os fd (length data) data"

definition Writen :: "os \<Rightarrow> int \<Rightarrow> byte list \<Rightarrow> ('z proc_scheme, unit) cprog" where
  "Writen os fd data = cbind (writen os fd data) (\<lambda>n.
     if n \<noteq> int (length data) then err_sys os ''writen error'' else creturn ())"

lemma writen_loop_Nil [simp]: "writen_loop os fd n [] s = Some (Ret (int n), s)"
  by (subst writen_loop.simps) simp

text \<open>What one pass of the loop does, by the result of its call.\<close>

lemma writen_loop_step:
  assumes "write_ok os" and "rest \<noteq> []"
  shows "writen_loop os fd n rest s =
    (let r = os (calls s) (C_write fd rest); t = after os (C_write fd rest) s in
     if interrupted r then writen_loop os fd n rest t
     else if rv r \<le> 0 then Some (Ret (- 1), t)
     else writen_loop os fd n (drop (nat (rv r)) rest) t)"
  using assms not_interrupted_errno[of os s "C_write fd rest"] write_okD(3)[OF assms(1), of "calls s" fd rest]
  by (subst writen_loop.simps) (auto simp: Let_def interrupted_errno, auto simp: interrupted_def)

definition only_writes :: "int \<Rightarrow> hist \<Rightarrow> bool" where
  "only_writes fd h \<longleftrightarrow> (\<forall>p \<in> set h. \<exists>bs. fst p = C_write fd bs)"

lemma only_writes_simps [simp]:
  "only_writes fd []" "only_writes fd (p # h) \<longleftrightarrow> (\<exists>bs. fst p = C_write fd bs) \<and> only_writes fd h"
  by (auto simp: only_writes_def)

lemma only_writes_moved:
  assumes "only_writes fd h"
  shows "received f h = []" and "f \<noteq> fd \<Longrightarrow> written f h = []"
  using assms by (induction h) (auto simp: received_def read_bytes_def written_def write_bytes_def)

definition writen_post :: "int \<Rightarrow> nat \<Rightarrow> byte list \<Rightarrow> 'z proc_scheme \<Rightarrow> int outcome \<times> 'z proc_scheme \<Rightarrow> bool" where
  "writen_post fd n rest s p \<longleftrightarrow> (\<exists>new. calls (snd p) = calls s @ new \<and> only_writes fd new \<and>
     (fst p = Ret (int n) \<and> written fd new = rest \<or>
      fst p = Ret (- 1) \<and> (\<exists>unsent. unsent \<noteq> [] \<and> rest = written fd new @ unsent)))"

lemma writen_post_retry:
  assumes "writen_post fd n rest t p" and "calls t = calls s @ [(C_write fd rest, r)]" and "rv r < 0"
  shows "writen_post fd n rest s p"
proof -
  obtain new where "calls (snd p) = calls t @ new" and "only_writes fd new"
    and "fst p = Ret (int n) \<and> written fd new = rest \<or>
         fst p = Ret (- 1) \<and> (\<exists>unsent. unsent \<noteq> [] \<and> rest = written fd new @ unsent)"
    using assms(1) by (auto simp: writen_post_def)
  then show ?thesis
    using assms(2,3) wr.moved_append[of fd "[(C_write fd rest, r)]" new]
    by (auto simp: writen_post_def intro!: exI[of _ "(C_write fd rest, r) # new"])
qed

lemma writen_post_more:
  assumes "writen_post fd n (drop k rest) t p" and "calls t = calls s @ [(C_write fd rest, r)]"
    and "rv r = int k" and "0 < k" and "k \<le> length rest"
  shows "writen_post fd n rest s p"
proof -
  obtain new where c: "calls (snd p) = calls t @ new" and only: "only_writes fd new"
    and w: "fst p = Ret (int n) \<and> written fd new = drop k rest \<or>
         fst p = Ret (- 1) \<and> (\<exists>unsent. unsent \<noteq> [] \<and> drop k rest = written fd new @ unsent)"
    using assms(1) by (auto simp: writen_post_def)
  let ?new = "(C_write fd rest, r) # new"
  have wn: "written fd ?new = take k rest @ written fd new"
    using wr.moved_append[of fd "[(C_write fd rest, r)]" new] assms(3,4) by simp
  have rn: "only_writes fd ?new" using only by simp
  have "fst p = Ret (int n) \<and> written fd ?new = rest \<or>
        fst p = Ret (- 1) \<and> (\<exists>unsent. unsent \<noteq> [] \<and> rest = written fd ?new @ unsent)"
    using w wn by (metis append.assoc append_take_drop_id)
  then show ?thesis
    using c assms(2) rn by (auto simp: writen_post_def intro!: exI[of _ ?new])
qed

lemma writen_loop_partial:
  assumes ok: "write_ok os" and ret: "writen_loop os fd n rest s = Some p"
  shows "writen_post fd n rest s p"
proof (rule writen_loop.raw_induct[where P = "\<lambda>os fd n rest s p. write_ok os \<longrightarrow> writen_post fd n rest s p",
      OF _ ret, THEN mp, OF _ ok])
  fix f os fd n rest s p
  assume IH: "\<And>os fd n rest s p. f os fd n rest s = Some p \<Longrightarrow> write_ok os \<longrightarrow> writen_post fd n rest s p"
    and eq: "(if 0 < length rest
      then cbind (call os (C_write fd rest)) (\<lambda>r.
           if rv r \<le> 0
           then if rv r < 0
                then cbind (cget errno) (\<lambda>e. if e = EINTR then f os fd n rest else creturn (- 1))
                else creturn (- 1)
           else f os fd n (drop (nat (rv r)) rest))
      else creturn (int n)) s = Some p"
  show "write_ok os \<longrightarrow> writen_post fd n rest s p"
  proof
    assume ok: "write_ok os"
    let ?r = "os (calls s) (C_write fd rest)" and ?t = "after os (C_write fd rest) s"
    consider "rest = []" | "rest \<noteq> []" "rv ?r < 0" "errno ?t = EINTR"
      | "rest \<noteq> []" "rv ?r < 0" "errno ?t \<noteq> EINTR" | "rest \<noteq> []" "rv ?r = 0" | "rest \<noteq> []" "0 < rv ?r"
      by linarith
    then show "writen_post fd n rest s p"
    proof cases
      case 1
      with eq show ?thesis by (auto simp: writen_post_def)
    next
      case 2
      with eq IH ok have "writen_post fd n rest ?t p" by simp
      then show ?thesis by (rule writen_post_retry[where r = ?r]) (simp_all add: 2)
    next
      case 3
      with eq show ?thesis by (auto simp: writen_post_def)
    next
      case 4
      with eq show ?thesis by (auto simp: writen_post_def)
    next
      case 5
      with eq IH ok have "writen_post fd n (drop (nat (rv ?r)) rest) ?t p" by simp
      then show ?thesis
        by (rule writen_post_more[where r = ?r]) (use 5 write_okD(2)[OF ok, of "calls s" fd rest] in simp_all)
    qed
  qed
qed

lemma writen_loop_returns:
  assumes ok: "write_ok os" and fair: "\<And>bs. fair os (C_write fd bs)"
  shows "\<exists>p. writen_loop os fd n rest s = Some p"
proof (induction "length rest" arbitrary: rest s rule: less_induct)
  case less
  show ?case
  proof (cases "rest = []")
    case False
    from fair[of rest] show ?thesis
    proof (induction s rule: fair_induct)
      case (finished s)
      let ?r = "os (calls s) (C_write fd rest)"
      show ?case
      proof (cases "rv ?r \<le> 0")
        case False
        then have "length (drop (nat (rv ?r)) rest) < length rest"
          using \<open>rest \<noteq> []\<close> by simp
        from less[OF this] show ?thesis
          using finished False by (subst writen_loop_step[OF ok \<open>rest \<noteq> []\<close>]) (simp add: Let_def)
      qed (use finished in \<open>subst writen_loop_step[OF ok \<open>rest \<noteq> []\<close>], simp add: Let_def\<close>)
    next
      case (retry s)
      then show ?case
        by (subst writen_loop_step[OF ok \<open>rest \<noteq> []\<close>]) (simp add: Let_def retry_hist_def)
    qed
  qed simp
qed

section \<open>A reference kernel\<close>

text \<open>A concrete environment for running the model: every other call is interrupted, a write accepts
  at most \<open>k\<close> bytes and a read delivers at most \<open>k\<close> bytes of the input that has not been delivered
  on that descriptor yet. Other calls succeed with 0.\<close>

definition pipe_os :: "byte list \<Rightarrow> nat \<Rightarrow> os" where
  "pipe_os inp k h c = (case c of
       C_write fd bs \<Rightarrow> if even (length h) then fails EINTR else ok (int (min k (length bs)))
     | C_read fd n \<Rightarrow> if even (length h) then fails EINTR
                      else ok_bytes (take (min k n) (drop (length (received fd h)) inp))
     | _ \<Rightarrow> ok 0)"

lemma pipe_os_read_ok: "read_ok (pipe_os inp k)"
  by (auto simp: read_ok_def pipe_os_def sysret_defs Let_def)

lemma pipe_os_write_ok: "write_ok (pipe_os inp k)"
  by (auto simp: write_ok_def pipe_os_def sysret_defs Let_def)

lemma pipe_os_fair: "fair (pipe_os inp k) c"
  unfolding fair_def
proof
  fix h
  have odd: "\<not> interrupted (pipe_os inp k h c)" if "odd (length h)" for h
    using that by (cases c) (simp_all add: pipe_os_def interrupted_def sysret_defs)
  show "\<exists>j. \<not> interrupted (pipe_os inp k ((retry_hist (pipe_os inp k) c ^^ j) h) c)"
  proof (cases "odd (length h)")
    case True
    then show ?thesis by (intro exI[of _ 0]) (simp add: odd)
  next
    case False
    then show ?thesis by (intro exI[of _ 1]) (simp add: odd retry_hist_def)
  qed
qed

text \<open>
  C1. \<open>writen\<close> delivers: whatever partial writes and interruptions the kernel answers with, the
  function returns, the bytes that the kernel accepted are a prefix of the buffer in order and
  without repetition, and the return value is the full count exactly when all of the buffer has been
  accepted; otherwise it is -1 and some bytes are unsent.
\<close>

theorem writen_delivers:
  assumes "write_ok os" and "\<And>bs. fair os (C_write fd bs)"
  shows "\<exists>n t new. writen os fd data s = Some (Ret n, t) \<and> calls t = calls s @ new \<and>
    (n = int (length data) \<and> written fd new = data \<or>
     n = - 1 \<and> (\<exists>unsent. unsent \<noteq> [] \<and> data = written fd new @ unsent))"
proof -
  obtain p where p: "writen os fd data s = Some p"
    unfolding writen_def using writen_loop_returns[OF assms] by blast
  then have "writen_post fd (length data) data s p"
    using writen_loop_partial[OF assms(1)] by (simp add: writen_def)
  with p show ?thesis
    by (cases p) (auto simp: writen_post_def)
qed

theorem writen_delivers_witness:
  "\<exists>n t new. writen (pipe_os [] 2) 1 [10, 20, 30] fresh_proc = Some (Ret n, t) \<and> calls t = calls fresh_proc @ new \<and>
    (n = 3 \<and> written 1 new = [10, 20, 30] \<or>
     n = - 1 \<and> (\<exists>unsent. unsent \<noteq> [] \<and> [10, 20, 30] = written 1 new @ unsent))"
  using writen_delivers[OF pipe_os_write_ok pipe_os_fair, of "[]" 2 1 "[10, 20, 30]" fresh_proc] by simp

section \<open>lib/readn.c\<close>

text \<open>\<open>acc\<close> is what the buffer holds so far; the result pairs the return value with it.\<close>

partial_function (option) readn_loop ::
    "os \<Rightarrow> int \<Rightarrow> nat \<Rightarrow> nat \<Rightarrow> byte list \<Rightarrow> 'z proc_scheme \<Rightarrow> ((int \<times> byte list) outcome \<times> 'z proc_scheme) option" where
  "readn_loop os fd n nleft acc s =
     (if 0 < nleft
      then cbind (call os (C_read fd nleft)) (\<lambda>r.
           if rv r < 0
           then cbind (cget errno) (\<lambda>e.
                if e = EINTR then readn_loop os fd n nleft acc else creturn (- 1, acc))
           else if rv r = 0 then creturn (int (n - nleft), acc)
           else readn_loop os fd n (nleft - nat (rv r)) (acc @ out_bytes r))
      else creturn (int (n - nleft), acc)) s"

definition readn :: "os \<Rightarrow> int \<Rightarrow> nat \<Rightarrow> ('z proc_scheme, int \<times> byte list) cprog" where
  "readn os fd n = readn_loop os fd n n []"

definition Readn :: "os \<Rightarrow> int \<Rightarrow> nat \<Rightarrow> ('z proc_scheme, int \<times> byte list) cprog" where
  "Readn os fd nbytes = cbind (readn os fd nbytes) (\<lambda>p.
     if fst p < 0 then err_sys os ''readn error'' else creturn p)"

text \<open>End of file: the last call of a history returned no bytes.\<close>

definition at_eof :: "int \<Rightarrow> hist \<Rightarrow> bool" where
  "at_eof fd h \<longleftrightarrow> (\<exists>g n r. h = g @ [(C_read fd n, r)] \<and> rv r = 0)"

lemma at_eof_append: "at_eof fd h \<Longrightarrow> at_eof fd (g @ h)"
  by (auto simp: at_eof_def)

lemma readn_loop_step:
  assumes "read_ok os" and "0 < nleft"
  shows "readn_loop os fd n nleft acc s =
    (let r = os (calls s) (C_read fd nleft); t = after os (C_read fd nleft) s in
     if interrupted r then readn_loop os fd n nleft acc t
     else if rv r < 0 then Some (Ret (- 1, acc), t)
     else if rv r = 0 then Some (Ret (int (n - nleft), acc), t)
     else readn_loop os fd n (nleft - nat (rv r)) (acc @ out_bytes r) t)"
  using assms not_interrupted_errno[of os s "C_read fd nleft"] read_okD(4)[OF assms(1), of "calls s" fd nleft]
  by (subst readn_loop.simps) (auto simp: Let_def interrupted_errno, auto simp: interrupted_def)

lemma readn_loop_0 [simp]: "readn_loop os fd n 0 acc s = Some (Ret (int n, acc), s)"
  by (subst readn_loop.simps) simp

definition readn_post :: "int \<Rightarrow> nat \<Rightarrow> byte list \<Rightarrow> 'z proc_scheme \<Rightarrow> (int \<times> byte list) outcome \<times> 'z proc_scheme \<Rightarrow> bool" where
  "readn_post fd n acc s p \<longleftrightarrow> (\<exists>new k. calls (snd p) = calls s @ new \<and>
     fst p = Ret (k, acc @ received fd new) \<and>
     (k = - 1 \<or> k = int (length (acc @ received fd new)) \<and> k \<le> int n \<and> (k = int n \<or> at_eof fd new)))"

lemma readn_post_cons:
  assumes "readn_post fd n (acc @ received fd [(C_read fd m, r)]) t p"
    and "calls t = calls s @ [(C_read fd m, r)]"
  shows "readn_post fd n acc s p"
proof -
  let ?c = "(C_read fd m, r)"
  obtain new k where "calls (snd p) = calls t @ new"
    and f: "fst p = Ret (k, (acc @ received fd [?c]) @ received fd new)"
    and k: "k = - 1 \<or> k = int (length ((acc @ received fd [?c]) @ received fd new)) \<and> k \<le> int n \<and>
        (k = int n \<or> at_eof fd new)"
    using assms(1) unfolding readn_post_def by blast
  then have c: "calls (snd p) = calls s @ (?c # new)" using assms(2) by simp
  have r: "received fd (?c # new) = received fd [?c] @ received fd new"
    using rd.moved_append[of fd "[?c]" new] by simp
  have e: "at_eof fd new \<Longrightarrow> at_eof fd (?c # new)"
    using at_eof_append[of fd new "[?c]"] by simp
  show ?thesis
    unfolding readn_post_def using c f k e by (intro exI[of _ "?c # new"] exI[of _ k]) (auto simp: r)
qed

lemma readn_loop_partial:
  assumes ok: "read_ok os" and ret: "readn_loop os fd n nleft acc s = Some p"
    and inv: "length acc + nleft = n"
  shows "readn_post fd n acc s p"
proof (rule readn_loop.raw_induct[where P = "\<lambda>os fd n nleft acc s p. read_ok os \<longrightarrow> length acc + nleft = n \<longrightarrow>
      readn_post fd n acc s p", OF _ ret, THEN mp, THEN mp, OF _ ok inv])
  fix f os fd n nleft acc s p
  assume IH: "\<And>os fd n nleft acc s p. f os fd n nleft acc s = Some p \<Longrightarrow>
      read_ok os \<longrightarrow> length acc + nleft = n \<longrightarrow> readn_post fd n acc s p"
    and eq: "(if 0 < nleft
      then cbind (call os (C_read fd nleft)) (\<lambda>r.
           if rv r < 0
           then cbind (cget errno) (\<lambda>e. if e = EINTR then f os fd n nleft acc else creturn (- 1, acc))
           else if rv r = 0 then creturn (int (n - nleft), acc)
           else f os fd n (nleft - nat (rv r)) (acc @ out_bytes r))
      else creturn (int (n - nleft), acc)) s = Some p"
  show "read_ok os \<longrightarrow> length acc + nleft = n \<longrightarrow> readn_post fd n acc s p"
  proof (intro impI)
    assume ok: "read_ok os" and inv: "length acc + nleft = n"
    let ?r = "os (calls s) (C_read fd nleft)" and ?t = "after os (C_read fd nleft) s"
    consider "nleft = 0" | "0 < nleft" "rv ?r < 0" "errno ?t = EINTR"
      | "0 < nleft" "rv ?r < 0" "errno ?t \<noteq> EINTR" | "0 < nleft" "rv ?r = 0" | "0 < nleft" "0 < rv ?r"
      by linarith
    then show "readn_post fd n acc s p"
    proof cases
      case 1
      with eq inv show ?thesis by (auto simp: readn_post_def)
    next
      case 2
      with eq have "f os fd n nleft acc ?t = Some p" by simp
      from IH[OF this] ok inv have "readn_post fd n acc ?t p" by simp
      then show ?thesis using 2 by - (rule readn_post_cons[where r = ?r and m = nleft and t = ?t], simp_all)
    next
      case 3
      with eq show ?thesis by (auto simp: readn_post_def)
    next
      case 4
      moreover have "n - nleft = length acc" using inv by simp
      ultimately have "p = (Ret (int (length acc), acc), ?t)" using eq by (simp del: of_nat_diff)
      then show ?thesis using 4 inv by (auto simp: readn_post_def at_eof_def)
    next
      case 5
      have l: "length (out_bytes ?r) = nat (rv ?r)" and b: "rv ?r \<le> int nleft"
        using 5 read_okD[OF ok, where h = "calls s" and fd = fd and n = nleft] by auto
      have i: "length (acc @ out_bytes ?r) + (nleft - nat (rv ?r)) = n"
        using l b inv 5 by simp
      from 5 eq have "f os fd n (nleft - nat (rv ?r)) (acc @ out_bytes ?r) ?t = Some p" by simp
      from IH[OF this] ok i have "readn_post fd n (acc @ out_bytes ?r) ?t p" by blast
      then show ?thesis using 5 by - (rule readn_post_cons[where r = ?r and m = nleft and t = ?t], simp_all)
    qed
  qed
qed

lemma readn_loop_returns:
  assumes ok: "read_ok os" and fair: "\<And>m. fair os (C_read fd m)"
  shows "\<exists>p. readn_loop os fd n nleft acc s = Some p"
proof (induction nleft arbitrary: acc s rule: less_induct)
  case (less nleft)
  show ?case
  proof (cases "nleft = 0")
    case False
    then have pos: "0 < nleft" by simp
    from fair[of nleft] show ?thesis
    proof (induction s rule: fair_induct)
      case (finished s)
      let ?r = "os (calls s) (C_read fd nleft)"
      show ?case
      proof (cases "rv ?r \<le> 0")
        case False
        then have "nleft - nat (rv ?r) < nleft" using pos by simp
        from less[OF this] show ?thesis
          using finished False by (subst readn_loop_step[OF ok pos]) (simp add: Let_def)
      qed (use finished in \<open>subst readn_loop_step[OF ok pos], auto simp: Let_def\<close>)
    next
      case (retry s)
      then show ?case
        by (subst readn_loop_step[OF ok pos]) (simp add: Let_def retry_hist_def)
    qed
  qed simp
qed

text \<open>
  C2. \<open>readn\<close> reads exactly what arrived: it returns under every mix of short reads and interruptions,
  the buffer then holds the bytes delivered on the descriptor, in order and nothing else, and a return
  value other than -1 is their number, at most \<open>n\<close>, and less than \<open>n\<close> only at end of file.
\<close>

theorem readn_reads:
  assumes "read_ok os" and "\<And>m. fair os (C_read fd m)"
  shows "\<exists>k t new. readn os fd n s = Some (Ret (k, received fd new), t) \<and> calls t = calls s @ new \<and>
    (k = - 1 \<or> k = int (length (received fd new)) \<and> k \<le> int n \<and> (k < int n \<longrightarrow> at_eof fd new))"
proof -
  obtain p where p: "readn_loop os fd n n [] s = Some p"
    using readn_loop_returns[OF assms] by blast
  then have "readn_post fd n [] s p"
    by (rule readn_loop_partial[OF assms(1)]) simp
  with p show ?thesis
    by (cases p) (auto simp: readn_post_def readn_def)
qed

theorem readn_reads_witness:
  "\<exists>k t new. readn (pipe_os [1, 2, 3, 4, 5] 2) 0 4 fresh_proc = Some (Ret (k, received 0 new), t) \<and>
     calls t = calls fresh_proc @ new \<and>
     (k = - 1 \<or> k = int (length (received 0 new)) \<and> k \<le> 4 \<and> (k < 4 \<longrightarrow> at_eof 0 new))"
  using readn_reads[OF pipe_os_read_ok pipe_os_fair, of "[1, 2, 3, 4, 5]" 2 0 4 fresh_proc] by simp

end
