(* ===== verification/Readline.thy ===== *)
theory Readline
  imports Stream_IO
begin

text \<open>
  The buffered line readers: lib/readline.c, its re-entrant form server/readline_r.c and its
  thread-specific form threads/readline.c. The static variables \<open>read_cnt\<close>, \<open>read_ptr\<close> and
  \<open>read_buf\<close> of the first, and the structures \<open>Rline\<close> of the other two, are one record: a buffer, an
  offset into it and a count of the characters not yet consumed. Functions return the record they
  leave behind, and the bytes they stored through the caller's pointer.

  The abstraction \<open>pending\<close> is the sequence of bytes that have been read from the descriptor and not
  yet handed out. What is proved is that nothing is lost, repeated or reordered between the
  descriptor and the lines handed out.
\<close>

record rline =
  rl_cnt :: int
  rl_bufptr :: nat
  rl_buf :: "byte list"

abbreviation (input) newline :: byte where "newline \<equiv> 10"

section \<open>lib/readline.c\<close>

definition rl_store :: "'x rline_scheme \<Rightarrow> sysret \<Rightarrow> 'x rline_scheme" where
  "rl_store rl r =
     (let bs = take (nat (rv r)) (out_bytes r)
      in rl\<lparr>rl_cnt := rv r, rl_buf := bs @ drop (length bs) (rl_buf rl)\<rparr>)"

partial_function (option) my_read_again ::
    "os \<Rightarrow> int \<Rightarrow> 'x rline_scheme \<Rightarrow> 'z proc_scheme \<Rightarrow> ((int \<times> 'x rline_scheme) outcome \<times> 'z proc_scheme) option" where
  "my_read_again os fd rl s =
     cbind (call os (C_read fd MAXLINE)) (\<lambda>r.
     if rv r < 0
     then cbind (cget errno) (\<lambda>e.
          if e = EINTR then my_read_again os fd (rl_store rl r) else creturn (- 1, rl_store rl r))
     else if rv r = 0 then creturn (0, rl_store rl r)
     else creturn (1, (rl_store rl r)\<lparr>rl_bufptr := 0\<rparr>)) s"

definition my_read :: "os \<Rightarrow> int \<Rightarrow> 'x rline_scheme \<Rightarrow> ('z proc_scheme, int \<times> byte option \<times> 'x rline_scheme) cprog" where
  "my_read os fd rl =
     cbind (if rl_cnt rl \<le> 0 then my_read_again os fd rl else creturn (1, rl)) (\<lambda>(rc, rl1).
     if rc = 1
     then creturn (1, Some (rl_buf rl1 ! rl_bufptr rl1),
                   rl1\<lparr>rl_cnt := rl_cnt rl1 - 1, rl_bufptr := rl_bufptr rl1 + 1\<rparr>)
     else creturn (rc, None, rl1))"

partial_function (option) readline_loop ::
    "os \<Rightarrow> int \<Rightarrow> nat \<Rightarrow> nat \<Rightarrow> byte list \<Rightarrow> rline \<Rightarrow> 'z proc_scheme \<Rightarrow>
     ((int \<times> byte list \<times> rline) outcome \<times> 'z proc_scheme) option" where
  "readline_loop os fd maxlen n acc rl s =
     (if n < maxlen
      then cbind (my_read os fd rl) (\<lambda>p.
           if fst p = 1
           then (let c = the (fst (snd p)) in
                 if c = newline then creturn (int n, acc @ [c] @ [0], snd (snd p))
                 else readline_loop os fd maxlen (n + 1) (acc @ [c]) (snd (snd p)))
           else if fst p = 0 then creturn (int n - 1, acc @ [0], snd (snd p))
           else creturn (- 1, acc, snd (snd p)))
      else creturn (int n, acc @ [0], rl)) s"

definition readline :: "os \<Rightarrow> int \<Rightarrow> nat \<Rightarrow> rline \<Rightarrow> ('z proc_scheme, int \<times> byte list \<times> rline) cprog" where
  "readline os fd maxlen rl = readline_loop os fd maxlen 1 [] rl"

definition readlinebuf :: "rline \<Rightarrow> int \<times> nat option" where
  "readlinebuf rl = (rl_cnt rl, if rl_cnt rl \<noteq> 0 then Some (rl_bufptr rl) else None)"

definition Readline :: "os \<Rightarrow> int \<Rightarrow> nat \<Rightarrow> rline \<Rightarrow> ('z proc_scheme, int \<times> byte list \<times> rline) cprog" where
  "Readline os fd maxlen rl = cbind (readline os fd maxlen rl) (\<lambda>p.
     if fst p < 0 then err_sys os ''readline error'' else creturn p)"

text \<open>The statics at program start.\<close>

definition rline_init :: rline where
  "rline_init = \<lparr>rl_cnt = 0, rl_bufptr = 0, rl_buf = replicate MAXLINE 0\<rparr>"

section \<open>The buffer invariant\<close>

definition rl_inv :: "'x rline_scheme \<Rightarrow> bool" where
  "rl_inv rl \<longleftrightarrow> length (rl_buf rl) = MAXLINE \<and> (0 < rl_cnt rl \<longrightarrow> rl_bufptr rl + nat (rl_cnt rl) \<le> MAXLINE)"

definition pending :: "'x rline_scheme \<Rightarrow> byte list" where
  "pending rl = take (nat (rl_cnt rl)) (drop (rl_bufptr rl) (rl_buf rl))"

lemma rl_inv_init [simp]: "rl_inv rline_init"
  by (simp add: rl_inv_def rline_init_def)

lemma pending_init [simp]: "pending rline_init = []"
  by (simp add: pending_def rline_init_def)

lemma pending_empty: "rl_cnt rl \<le> 0 \<Longrightarrow> pending rl = []"
  by (simp add: pending_def)

lemma rl_store_inv:
  assumes "rl_inv rl" and "rv r \<le> 0"
  shows "rl_inv (rl_store rl r)" and "pending (rl_store rl r) = []"
  using assms by (simp_all add: rl_inv_def rl_store_def pending_def)

lemma rl_store_fresh:
  assumes "rl_inv rl" and "rv r = int (length (out_bytes r))" and "rv r \<le> int MAXLINE"
  shows "rl_inv ((rl_store rl r)\<lparr>rl_bufptr := 0\<rparr>)" and "pending ((rl_store rl r)\<lparr>rl_bufptr := 0\<rparr>) = out_bytes r"
  using assms by (simp_all add: rl_inv_def rl_store_def pending_def Let_def)

lemma pending_pop:
  assumes "rl_inv rl" and "0 < rl_cnt rl"
  defines "rl' \<equiv> rl\<lparr>rl_cnt := rl_cnt rl - 1, rl_bufptr := rl_bufptr rl + 1\<rparr>"
  shows "rl_inv rl'" and "pending rl = rl_buf rl ! rl_bufptr rl # pending rl'"
proof -
  from assms(2) obtain k where k: "rl_cnt rl = 1 + int k"
    using zle_iff_zadd[of 1 "rl_cnt rl"] by auto
  with assms show "rl_inv rl'" by (auto simp: rl_inv_def)
  have "rl_bufptr rl < length (rl_buf rl)" using assms k by (auto simp: rl_inv_def)
  then have "drop (rl_bufptr rl) (rl_buf rl) = rl_buf rl ! rl_bufptr rl # drop (Suc (rl_bufptr rl)) (rl_buf rl)"
    by (rule Cons_nth_drop_Suc[symmetric])
  with k show "pending rl = rl_buf rl ! rl_bufptr rl # pending rl'"
    by (simp add: pending_def rl'_def nat_add_distrib)
qed

section \<open>Reading one character\<close>

lemma my_read_again_step:
  assumes "read_ok os"
  shows "my_read_again os fd rl s =
    (let r = os (calls s) (C_read fd MAXLINE); t = after os (C_read fd MAXLINE) s in
     if interrupted r then my_read_again os fd (rl_store rl r) t
     else if rv r < 0 then Some (Ret (- 1, rl_store rl r), t)
     else if rv r = 0 then Some (Ret (0, rl_store rl r), t)
     else Some (Ret (1, (rl_store rl r)\<lparr>rl_bufptr := 0\<rparr>), t))"
  using not_interrupted_errno[of os s "C_read fd MAXLINE"] read_okD(4)[OF assms, of "calls s" fd MAXLINE]
  by (subst my_read_again.simps) (auto simp: Let_def interrupted_errno, auto simp: interrupted_def)

text \<open>The outcomes of \<open>my_read\<close>: a character that is the next pending one, end of file, or an error;
  in the last two nothing is pending.\<close>

definition my_read_post :: "int \<Rightarrow> 'x rline_scheme \<Rightarrow> hist \<Rightarrow> int \<Rightarrow> byte option \<Rightarrow> 'x rline_scheme \<Rightarrow> bool" where
  "my_read_post fd rl new rc c rl' \<longleftrightarrow> rl_inv rl' \<and>
     (rc = 1 \<and> c \<noteq> None \<and> pending rl @ received fd new = the c # pending rl' \<and> \<not> at_eof fd new \<or>
      rc = 0 \<and> pending rl @ received fd new = [] \<and> pending rl' = [] \<and> at_eof fd new \<or>
      rc = - 1 \<and> pending rl @ received fd new = [] \<and> pending rl' = [])"

lemma at_eof_single: "at_eof fd [(C_read fd n, r)] \<longleftrightarrow> rv r = 0"
  by (auto simp: at_eof_def)

lemma at_eof_Cons: "h \<noteq> [] \<Longrightarrow> at_eof fd (p # h) = at_eof fd h"
  by (auto simp: at_eof_def Cons_eq_append_conv)

lemma at_eof_nonempty: "at_eof fd h \<Longrightarrow> h \<noteq> []"
  by (auto simp: at_eof_def)

definition again_post :: "int \<Rightarrow> hist \<Rightarrow> int \<Rightarrow> 'x rline_scheme \<Rightarrow> bool" where
  "again_post fd new rc rl' \<longleftrightarrow> rl_inv rl' \<and> new \<noteq> [] \<and>
     (rc = 1 \<and> 0 < rl_cnt rl' \<and> pending rl' = received fd new \<and> \<not> at_eof fd new \<or>
      rc = 0 \<and> received fd new = [] \<and> pending rl' = [] \<and> at_eof fd new \<or>
      rc = - 1 \<and> received fd new = [] \<and> pending rl' = [])"

lemma again_post_retry:
  assumes "again_post fd new rc rl'" and "rv r < 0"
  shows "again_post fd ((C_read fd n, r) # new) rc rl'"
  using assms rd.moved_append[of fd "[(C_read fd n, r)]" new]
  by (auto simp: again_post_def at_eof_Cons)

lemma my_read_again_total:
  assumes ok: "read_ok os" and fair: "fair os (C_read fd MAXLINE)"
  shows "\<forall>rl :: 'x rline_scheme. rl_inv rl \<longrightarrow> (\<exists>rc rl' t new. my_read_again os fd rl s = Some (Ret (rc, rl'), t) \<and>
    calls t = calls s @ new \<and> again_post fd new rc rl')"
  using fair
proof (induction s rule: fair_induct)
  case (finished s)
  let ?r = "os (calls s) (C_read fd MAXLINE)"
  note bounds = read_okD[OF ok, where h = "calls s" and fd = fd and n = MAXLINE]
  show ?case
  proof (intro allI impI)
    fix rl :: "'x rline_scheme" assume inv: "rl_inv rl"
    consider "rv ?r < 0" | "rv ?r = 0" | "0 < rv ?r" by linarith
    then show "\<exists>rc rl' t new. my_read_again os fd rl s = Some (Ret (rc, rl'), t) \<and>
        calls t = calls s @ new \<and> again_post fd new rc rl'"
    proof cases
      case 1
      with finished rl_store_inv[OF inv] show ?thesis
        by (subst my_read_again_step[OF ok]) (simp add: Let_def again_post_def)
    next
      case 2
      with finished rl_store_inv[OF inv] show ?thesis
        by (subst my_read_again_step[OF ok]) (simp add: Let_def again_post_def at_eof_single)
    next
      case 3
      then have "rv ?r = int (length (out_bytes ?r))" using bounds by simp
      then have "again_post fd [(C_read fd MAXLINE, ?r)] 1 ((rl_store rl ?r)\<lparr>rl_bufptr := 0\<rparr>)"
        using 3 rl_store_fresh[OF inv _ bounds(2)] by (simp add: again_post_def at_eof_single rl_store_def Let_def)
      moreover have "my_read_again os fd rl s =
          Some (Ret (1, (rl_store rl ?r)\<lparr>rl_bufptr := 0\<rparr>), after os (C_read fd MAXLINE) s)"
        using finished 3 by (subst my_read_again_step[OF ok]) (simp add: Let_def)
      ultimately show ?thesis by auto
    qed
  qed
next
  case (retry s)
  let ?r = "os (calls s) (C_read fd MAXLINE)" and ?t = "after os (C_read fd MAXLINE) s"
  show ?case
  proof (intro allI impI)
    fix rl :: "'x rline_scheme" assume inv: "rl_inv rl"
    have neg: "rv ?r < 0" using retry by (simp add: interrupted_def)
    then have inv': "rl_inv (rl_store rl ?r)" by (intro rl_store_inv inv) simp
    have "calls ?t = retry_hist os (C_read fd MAXLINE) (calls s)" by (rule calls_after_retry)
    from retry.IH[OF this, rule_format, OF inv'] obtain rc rl' t new
      where "my_read_again os fd (rl_store rl ?r) ?t = Some (Ret (rc, rl'), t)"
        and "calls t = calls ?t @ new" and "again_post fd new rc rl'"
      by blast
    with retry.hyps neg show "\<exists>rc rl' t new. my_read_again os fd rl s = Some (Ret (rc, rl'), t) \<and>
        calls t = calls s @ new \<and> again_post fd new rc rl'"
      by (subst my_read_again_step[OF ok]) (auto simp: Let_def intro!: again_post_retry)
  qed
qed

lemma my_read_total:
  assumes ok: "read_ok os" and fair: "fair os (C_read fd MAXLINE)" and inv: "rl_inv rl"
  shows "\<exists>rc c rl' t new. my_read os fd rl s = Some (Ret (rc, c, rl'), t) \<and>
    calls t = calls s @ new \<and> my_read_post fd rl new rc c rl'"
proof (cases "rl_cnt rl \<le> 0")
  case True
  obtain rc rl1 t new where again: "my_read_again os fd rl s = Some (Ret (rc, rl1), t)"
    and c: "calls t = calls s @ new" and post: "again_post fd new rc rl1"
    using my_read_again_total[OF ok fair] inv by blast
  show ?thesis
  proof (cases "rc = 1")
    case rc: True
    with post have "rl_inv rl1" and "0 < rl_cnt rl1" by (auto simp: again_post_def)
    from pending_pop[OF this] rc post show ?thesis
      using again c True by (auto simp: my_read_def my_read_post_def again_post_def pending_empty)
  next
    case False
    then show ?thesis
      using again c True post by (auto simp: my_read_def my_read_post_def again_post_def pending_empty)
  qed
next
  case False
  then have "0 < rl_cnt rl" by simp
  from pending_pop[OF inv this] False show ?thesis
    by (auto simp: my_read_def my_read_post_def at_eof_def)
qed

section \<open>Reading one line\<close>

text \<open>The three ways a line can end: with its newline, at end of file, or because the caller's buffer is
  full. The last returns one more than the number of bytes stored.\<close>

definition line_end :: "int \<Rightarrow> nat \<Rightarrow> hist \<Rightarrow> byte list \<Rightarrow> int \<Rightarrow> bool" where
  "line_end fd maxlen new line ret \<longleftrightarrow>
     line \<noteq> [] \<and> last line = newline \<and> newline \<notin> set (butlast line) \<and> ret = int (length line) \<or>
     newline \<notin> set line \<and> at_eof fd new \<and> ret = int (length line) \<or>
     newline \<notin> set line \<and> length line = maxlen - 1 \<and> ret = int maxlen"

definition line_post :: "int \<Rightarrow> nat \<Rightarrow> byte list \<Rightarrow> rline \<Rightarrow> hist \<Rightarrow> int \<Rightarrow> byte list \<Rightarrow> rline \<Rightarrow> bool" where
  "line_post fd maxlen acc rl new ret buf rl' \<longleftrightarrow> rl_inv rl' \<and>
     (\<exists>line. pending rl @ received fd new = line @ pending rl' \<and> length (acc @ line) < maxlen \<and>
       (ret = - 1 \<and> buf = acc @ line \<or> buf = acc @ line @ [0] \<and> line_end fd maxlen new (acc @ line) ret))"

lemma line_end_append: "line_end fd maxlen new line ret \<Longrightarrow> line_end fd maxlen (old @ new) line ret"
  by (auto simp: line_end_def intro: at_eof_append)

lemma line_post_step:
  assumes "line_post fd maxlen (acc @ [c]) rl1 new2 ret buf rl'"
    and "pending rl @ received fd new1 = c # pending rl1"
  shows "line_post fd maxlen acc rl (new1 @ new2) ret buf rl'"
proof -
  from assms(1) obtain line where inv: "rl_inv rl'"
    and cons: "pending rl1 @ received fd new2 = line @ pending rl'" and len: "length ((acc @ [c]) @ line) < maxlen"
    and ret: "ret = - 1 \<and> buf = (acc @ [c]) @ line \<or>
        buf = (acc @ [c]) @ line @ [0] \<and> line_end fd maxlen new2 ((acc @ [c]) @ line) ret"
    by (auto simp: line_post_def)
  have "pending rl @ received fd (new1 @ new2) = (c # line) @ pending rl'"
    using assms(2) cons by (metis append.assoc append_Cons rd.moved_append)
  with inv len ret show ?thesis
    by (auto simp: line_post_def intro!: exI[of _ "c # line"] dest: line_end_append[where old = new1])
qed

lemma readline_loop_total:
  assumes ok: "read_ok os" and fair: "fair os (C_read fd MAXLINE)"
    and "rl_inv rl" and "length acc = n - 1" and "1 \<le> n" and "n \<le> maxlen" and "newline \<notin> set acc"
  shows "\<exists>ret buf rl' t new. readline_loop os fd maxlen n acc rl s = Some (Ret (ret, buf, rl'), t) \<and>
    calls t = calls s @ new \<and> line_post fd maxlen acc rl new ret buf rl'"
  using assms(3-)
proof (induction "maxlen - n" arbitrary: n acc rl s)
  case 0
  then have "n = maxlen" by simp
  with 0 show ?case
    by (subst readline_loop.simps) (auto simp: line_post_def line_end_def)
next
  case (Suc k)
  then have lt: "n < maxlen" by simp
  obtain rc c rl1 t1 new1 where rd: "my_read os fd rl s = Some (Ret (rc, c, rl1), t1)"
    and c1: "calls t1 = calls s @ new1" and post: "my_read_post fd rl new1 rc c rl1"
    using my_read_total[OF ok fair Suc.prems(1)] by blast
  from post consider (byte) "rc = 1" "the c \<noteq> newline" | (nl) "rc = 1" "the c = newline" | (eof) "rc = 0" | (err) "rc = - 1"
    by (auto simp: my_read_post_def)
  then show ?case
  proof cases
    case byte
    have inv1: "rl_inv rl1" and p: "pending rl @ received fd new1 = the c # pending rl1"
      using post byte by (auto simp: my_read_post_def)
    have "\<exists>ret buf rl' t new. readline_loop os fd maxlen (n + 1) (acc @ [the c]) rl1 t1 = Some (Ret (ret, buf, rl'), t) \<and>
        calls t = calls t1 @ new \<and> line_post fd maxlen (acc @ [the c]) rl1 new ret buf rl'"
      by (rule Suc.hyps(1)) (use Suc.prems Suc.hyps(2) inv1 byte lt in auto)
    then obtain ret buf rl' t new where
      "readline_loop os fd maxlen (n + 1) (acc @ [the c]) rl1 t1 = Some (Ret (ret, buf, rl'), t)"
      and "calls t = calls t1 @ new" and "line_post fd maxlen (acc @ [the c]) rl1 new ret buf rl'"
      by blast
    then show ?thesis
      using line_post_step[OF _ p] rd c1 byte lt by (subst readline_loop.simps) (auto simp: Let_def)
  next
    case nl
    then have "line_post fd maxlen acc rl new1 (int n) (acc @ [the c] @ [0]) rl1"
      using post Suc.prems lt by (auto simp: my_read_post_def line_post_def line_end_def butlast_append)
    then show ?thesis
      using rd c1 nl lt by (subst readline_loop.simps) (auto simp: Let_def)
  next
    case eof
    then have "line_post fd maxlen acc rl new1 (int n - 1) (acc @ [0]) rl1"
      using post Suc.prems lt by (auto simp: my_read_post_def line_post_def line_end_def)
    then show ?thesis
      using rd c1 eof lt by (subst readline_loop.simps) (auto simp: Let_def)
  next
    case err
    then have "line_post fd maxlen acc rl new1 (- 1) acc rl1"
      using post Suc.prems lt by (auto simp: my_read_post_def line_post_def)
    then show ?thesis
      using rd c1 err lt by (subst readline_loop.simps) (auto simp: Let_def)
  qed
qed

text \<open>
  C6. \<open>readline\<close> loses nothing: it returns; the bytes left over from earlier reads followed by the
  bytes it read are exactly the line it stored followed by the bytes it leaves over; the line is
  null-terminated inside the caller's \<open>maxlen\<close> bytes, contains a newline only at its end, and ends
  with a newline, at end of file or at \<open>maxlen - 1\<close> bytes. On an error (-1) the bytes stored so far are
  accounted for in the same way.
\<close>

theorem readline_conserves:
  assumes "read_ok os" and "fair os (C_read fd MAXLINE)" and "rl_inv rl" and "1 \<le> maxlen"
  shows "\<exists>ret buf rl' t new line. readline os fd maxlen rl s = Some (Ret (ret, buf, rl'), t) \<and>
    calls t = calls s @ new \<and> rl_inv rl' \<and>
    pending rl @ received fd new = line @ pending rl' \<and> length line < maxlen \<and>
    (ret = - 1 \<and> buf = line \<or> buf = line @ [0] \<and> line_end fd maxlen new line ret)"
  using readline_loop_total[OF assms(1-3), of "[]" 1 maxlen s] assms(4)
  unfolding readline_def line_post_def by fastforce

theorem readline_conserves_witness:
  "\<exists>ret buf rl' t new line. readline (pipe_os [104, 105, 10, 33] 3) 0 80 rline_init fresh_proc = Some (Ret (ret, buf, rl'), t) \<and>
    calls t = calls fresh_proc @ new \<and> rl_inv rl' \<and>
    pending rline_init @ received 0 new = line @ pending rl' \<and> length line < 80 \<and>
    (ret = - 1 \<and> buf = line \<or> buf = line @ [0] \<and> line_end 0 80 new line ret)"
  by (rule readline_conserves[OF pipe_os_read_ok pipe_os_fair rl_inv_init]) simp

text \<open>The input of a call is what was left over and what it reads. When it has enough bytes and no newline among them, the
  loop ends because the buffer is full.\<close>

lemma readline_loop_full:
  assumes ok: "read_ok os" and fair: "fair os (C_read fd MAXLINE)" and "rl_inv rl" and "n \<le> maxlen"
  shows "\<exists>ret buf rl' t new. readline_loop os fd maxlen n acc rl s = Some (Ret (ret, buf, rl'), t) \<and> calls t = calls s @ new \<and>
    (maxlen - n \<le> length (pending rl @ received fd new) \<longrightarrow> newline \<notin> set (take (maxlen - n) (pending rl @ received fd new)) \<longrightarrow>
      ret = int maxlen \<and> buf = acc @ take (maxlen - n) (pending rl @ received fd new) @ [0])"
  using assms(3-)
proof (induction "maxlen - n" arbitrary: n acc rl s)
  case 0
  then show ?case by (subst readline_loop.simps) auto
next
  case (Suc k)
  then have lt: "n < maxlen" and m: "maxlen - n = Suc (maxlen - (n + 1))" by simp_all
  obtain rc c rl1 t1 new1 where rd: "my_read os fd rl s = Some (Ret (rc, c, rl1), t1)"
    and c1: "calls t1 = calls s @ new1" and post: "my_read_post fd rl new1 rc c rl1"
    using my_read_total[OF ok fair Suc.prems(1)] by blast
  from post consider (byte) "rc = 1" "the c \<noteq> newline" | (nl) "rc = 1" "the c = newline" | (none) "rc = 0 \<or> rc = - 1"
    by (auto simp: my_read_post_def)
  then show ?case
  proof cases
    case byte
    have inv1: "rl_inv rl1" and p: "pending rl @ received fd new1 = the c # pending rl1"
      using post byte by (auto simp: my_read_post_def)
    have "\<exists>ret buf rl' t new. readline_loop os fd maxlen (n + 1) (acc @ [the c]) rl1 t1 = Some (Ret (ret, buf, rl'), t) \<and> calls t = calls t1 @ new \<and>
      (maxlen - (n + 1) \<le> length (pending rl1 @ received fd new) \<longrightarrow> newline \<notin> set (take (maxlen - (n + 1)) (pending rl1 @ received fd new)) \<longrightarrow>
        ret = int maxlen \<and> buf = (acc @ [the c]) @ take (maxlen - (n + 1)) (pending rl1 @ received fd new) @ [0])"
      by (rule Suc.hyps(1)) (use Suc.prems Suc.hyps(2) inv1 lt in auto)
    then obtain ret buf rl' t new where
      l: "readline_loop os fd maxlen (n + 1) (acc @ [the c]) rl1 t1 = Some (Ret (ret, buf, rl'), t)" "calls t = calls t1 @ new"
      and q: "maxlen - (n + 1) \<le> length (pending rl1 @ received fd new) \<Longrightarrow> newline \<notin> set (take (maxlen - (n + 1)) (pending rl1 @ received fd new)) \<Longrightarrow>
        ret = int maxlen \<and> buf = (acc @ [the c]) @ take (maxlen - (n + 1)) (pending rl1 @ received fd new) @ [0]"
      by blast
    define xs where "xs = pending rl1 @ received fd new"
    have input: "pending rl @ received fd (new1 @ new) = the c # pending rl1 @ received fd new" using p by (metis append.assoc append_Cons rd.moved_append)
    have "readline_loop os fd maxlen n acc rl s = Some (Ret (ret, buf, rl'), t)" using l(1) rd byte lt by (subst readline_loop.simps) (auto simp: Let_def)
    moreover have "calls t = calls s @ (new1 @ new)" using l(2) c1 by simp
    moreover have "maxlen - n \<le> length (pending rl @ received fd (new1 @ new)) \<longrightarrow> newline \<notin> set (take (maxlen - n) (pending rl @ received fd (new1 @ new))) \<longrightarrow>
      ret = int maxlen \<and> buf = acc @ take (maxlen - n) (pending rl @ received fd (new1 @ new)) @ [0]"
      using q unfolding input m xs_def[symmetric] by auto
    ultimately show ?thesis by blast
  next
    case nl
    then have "pending rl @ received fd new1 = newline # pending rl1" using post by (auto simp: my_read_post_def)
    then have "newline \<in> set (take (maxlen - n) (pending rl @ received fd new1))" by (simp only: m take_Suc_Cons list.set_intros)
    moreover have "readline_loop os fd maxlen n acc rl s = Some (Ret (int n, acc @ [the c] @ [0], rl1), t1)"
      using rd nl lt by (subst readline_loop.simps) (auto simp: Let_def)
    ultimately show ?thesis using c1 by blast
  next
    case none
    then have "pending rl @ received fd new1 = []" using post by (auto simp: my_read_post_def)
    then show ?thesis using rd c1 none lt by (subst readline_loop.simps) (auto simp: Let_def)
  qed
qed

text \<open>
  C40. \<open>readline\<close> overcounts a line that does not fit, whether its bytes were left over from an earlier call or are read by
  this one, in reads of any size. It returns, and when its input, the bytes left over followed by the bytes it read, has
  \<open>maxlen - 1\<close> bytes without a newline at its start, it stores these \<open>maxlen - 1\<close> bytes and a null byte but returns
  \<open>maxlen\<close>. A caller that sends the returned number of bytes also sends the null byte.
\<close>

theorem readline_overcounts:
  assumes "read_ok os" and "fair os (C_read fd MAXLINE)" and "rl_inv rl" and "1 \<le> maxlen"
  shows "\<exists>ret buf rl' t new. readline os fd maxlen rl s = Some (Ret (ret, buf, rl'), t) \<and> calls t = calls s @ new \<and>
    (let input = pending rl @ received fd new in
     maxlen - 1 \<le> length input \<longrightarrow> newline \<notin> set (take (maxlen - 1) input) \<longrightarrow>
       ret = int maxlen \<and> buf = take (maxlen - 1) input @ [0] \<and> length buf = maxlen)"
proof -
  obtain ret buf rl' t new where l: "readline_loop os fd maxlen 1 [] rl s = Some (Ret (ret, buf, rl'), t)" "calls t = calls s @ new"
    and q: "maxlen - 1 \<le> length (pending rl @ received fd new) \<Longrightarrow> newline \<notin> set (take (maxlen - 1) (pending rl @ received fd new)) \<Longrightarrow>
      ret = int maxlen \<and> buf = [] @ take (maxlen - 1) (pending rl @ received fd new) @ [0]"
    using readline_loop_full[OF assms, of "[]" s] by blast
  have "let input = pending rl @ received fd new in maxlen - 1 \<le> length input \<longrightarrow> newline \<notin> set (take (maxlen - 1) input) \<longrightarrow>
       ret = int maxlen \<and> buf = take (maxlen - 1) input @ [0] \<and> length buf = maxlen"
    unfolding Let_def
  proof (intro impI)
    assume a: "maxlen - 1 \<le> length (pending rl @ received fd new)" "newline \<notin> set (take (maxlen - 1) (pending rl @ received fd new))"
    have "length (take (maxlen - 1) (pending rl @ received fd new)) = maxlen - 1" using a(1) by (simp only: length_take min.absorb2)
    then show "ret = int maxlen \<and> buf = take (maxlen - 1) (pending rl @ received fd new) @ [0] \<and> length buf = maxlen"
      using q[OF a] assms(4) by simp
  qed
  with l show ?thesis unfolding readline_def by blast
qed

text \<open>Reading the bytes 104, 105, 33 in pieces of two into a buffer of three.\<close>

theorem readline_overcounts_witness:
  "\<exists>ret buf rl' t new. readline (pipe_os [104, 105, 33] 2) 0 3 rline_init fresh_proc = Some (Ret (ret, buf, rl'), t) \<and> calls t = calls fresh_proc @ new \<and>
    (let input = pending rline_init @ received 0 new in
     3 - 1 \<le> length input \<longrightarrow> newline \<notin> set (take (3 - 1) input) \<longrightarrow>
       ret = int 3 \<and> buf = take (3 - 1) input @ [0] \<and> length buf = 3)"
  by (rule readline_overcounts[OF pipe_os_read_ok pipe_os_fair rl_inv_init]) simp

section \<open>server/readline_r.c\<close>

text \<open>The caller's arguments are kept in the structure; \<open>read_ptr\<close> is the caller's buffer, whose new
  contents are part of the result.\<close>

record rline_r = rline +
  read_fd :: int
  read_maxlen :: nat

definition my_read_r :: "os \<Rightarrow> rline_r \<Rightarrow> ('z proc_scheme, int \<times> byte option \<times> rline_r) cprog" where
  "my_read_r os rptr = my_read os (read_fd rptr) rptr"

definition readline_rinit :: "int \<Rightarrow> nat \<Rightarrow> rline_r \<Rightarrow> rline_r" where
  "readline_rinit fd maxlen rptr = rptr\<lparr>read_fd := fd, read_maxlen := maxlen, rl_cnt := 0, rl_bufptr := 0\<rparr>"

partial_function (option) readline_r_loop ::
    "os \<Rightarrow> nat \<Rightarrow> byte list \<Rightarrow> rline_r \<Rightarrow> 'z proc_scheme \<Rightarrow>
     ((int \<times> byte list \<times> rline_r) outcome \<times> 'z proc_scheme) option" where
  "readline_r_loop os n acc rptr s =
     (if n < read_maxlen rptr
      then cbind (my_read_r os rptr) (\<lambda>p.
           if fst p = 1
           then (let c = the (fst (snd p)) in
                 if c = newline then creturn (int n, acc @ [c] @ [0], snd (snd p))
                 else readline_r_loop os (n + 1) (acc @ [c]) (snd (snd p)))
           else if fst p = 0
           then if n = 1 then creturn (0, acc, snd (snd p))
                else creturn (int n, acc @ [0], snd (snd p))
           else creturn (- 1, acc, snd (snd p)))
      else creturn (int n, acc @ [0], rptr)) s"

definition readline_r :: "os \<Rightarrow> rline_r \<Rightarrow> ('z proc_scheme, int \<times> byte list \<times> rline_r) cprog" where
  "readline_r os rptr = readline_r_loop os 1 [] rptr"

definition Readline_r :: "os \<Rightarrow> rline_r \<Rightarrow> ('z proc_scheme, int \<times> byte list \<times> rline_r) cprog" where
  "Readline_r os rptr = cbind (readline_r os rptr) (\<lambda>p.
     if fst p = - 1 then err_sys os ''readline_r error'' else creturn p)"

lemma my_read_r_pending:
  assumes "rl_inv rptr" and "pending rptr = c # cs"
  obtains rptr' where "my_read_r os rptr s = Some (Ret (1, Some c, rptr'), s)" and "rl_inv rptr'"
    and "pending rptr' = cs" and "read_maxlen rptr' = read_maxlen rptr" and "read_fd rptr' = read_fd rptr"
proof -
  have pos: "0 < rl_cnt rptr" using assms(2) by (cases "0 < rl_cnt rptr") (auto simp: pending_empty)
  let ?r' = "rptr\<lparr>rl_cnt := rl_cnt rptr - 1, rl_bufptr := rl_bufptr rptr + 1\<rparr>"
  from pending_pop[OF assms(1) pos] assms(2)
  have "my_read_r os rptr s = Some (Ret (1, Some c, ?r'), s)" "rl_inv ?r'" "pending ?r' = cs"
    using pos by (simp_all add: my_read_r_def my_read_def)
  then show thesis by (rule that) simp_all
qed

lemma my_read_r_eof:
  assumes "rl_inv rptr" and "pending rptr = []" and "rv (os (calls s) (C_read (read_fd rptr) MAXLINE)) = 0"
  shows "\<exists>rptr'. my_read_r os rptr s = Some (Ret (0, None, rptr'), after os (C_read (read_fd rptr) MAXLINE) s)"
proof -
  have "rl_cnt rptr \<le> 0"
    using assms(1,2) pending_pop(2)[OF assms(1)] by (cases "rl_cnt rptr \<le> 0") auto
  moreover have "my_read_again os (read_fd rptr) rptr s =
      Some (Ret (0, rl_store rptr (os (calls s) (C_read (read_fd rptr) MAXLINE))), after os (C_read (read_fd rptr) MAXLINE) s)"
    using assms(3) by (subst my_read_again.simps) simp
  ultimately show ?thesis by (auto simp: my_read_r_def my_read_def)
qed

lemma readline_r_loop_eof:
  assumes "rl_inv rptr" and "pending rptr = line" and "newline \<notin> set line"
    and "n + length line < read_maxlen rptr" and "1 < n + length line" and "1 \<le> n"
    and "rv (os (calls s) (C_read (read_fd rptr) MAXLINE)) = 0"
  shows "\<exists>rptr'. readline_r_loop os n acc rptr s =
    Some (Ret (int (n + length line), acc @ line @ [0], rptr'), after os (C_read (read_fd rptr) MAXLINE) s)"
  using assms
proof (induction line arbitrary: n acc rptr)
  case Nil
  from my_read_r_eof[of rptr os s] Nil.prems show ?case
    by (subst readline_r_loop.simps) (auto simp: Let_def)
next
  case (Cons c cs)
  obtain r1 where rd: "my_read_r os rptr s = Some (Ret (1, Some c, r1), s)" and inv: "rl_inv r1"
    and p: "pending r1 = cs" and m: "read_maxlen r1 = read_maxlen rptr" and f: "read_fd r1 = read_fd rptr"
    using my_read_r_pending[OF Cons.prems(1,2)] by metis
  have "\<exists>rptr'. readline_r_loop os (n + 1) (acc @ [c]) r1 s =
      Some (Ret (int (n + 1 + length cs), (acc @ [c]) @ cs @ [0], rptr'), after os (C_read (read_fd r1) MAXLINE) s)"
    by (rule Cons.IH) (use Cons.prems inv p m f in auto)
  with rd f Cons.prems show ?case
    by (subst readline_r_loop.simps) (auto simp: Let_def add.assoc)
qed

text \<open>
  \<open>readline_r\<close> overcounts a last line without a newline: with \<open>line\<close> buffered and the descriptor at
  end of file it stores \<open>line\<close> and the null byte but returns \<open>length line + 1\<close>. The same input makes
  \<open>readline\<close> of lib/readline.c return \<open>length line\<close>.
\<close>

theorem readline_r_overcounts_at_eof:
  assumes "rl_inv rptr" and "pending rptr = line" and "line \<noteq> []" and "newline \<notin> set line"
    and "length line + 1 < read_maxlen rptr" and "rv (os (calls s) (C_read (read_fd rptr) MAXLINE)) = 0"
  shows "\<exists>rptr'. readline_r os rptr s =
    Some (Ret (int (length line) + 1, line @ [0], rptr'), after os (C_read (read_fd rptr) MAXLINE) s)"
  using readline_r_loop_eof[of rptr line 1 os s "[]"] assms
  by (cases line) (auto simp: readline_r_def add.commute)

theorem readline_r_overcounts_at_eof_witness:
  "\<exists>rptr'. readline_r (scripted [ok 0])
       \<lparr>rl_cnt = 2, rl_bufptr = 0, rl_buf = replicate MAXLINE 65, read_fd = 0, read_maxlen = 80\<rparr> fresh_proc =
     Some (Ret (3, [65, 65, 0], rptr'), after (scripted [ok 0]) (C_read 0 MAXLINE) fresh_proc)"
proof -
  let ?r = "\<lparr>rl_cnt = 2, rl_bufptr = 0, rl_buf = replicate MAXLINE (65 :: byte), read_fd = 0, read_maxlen = 80\<rparr>"
  have p: "pending ?r = [65, 65]"
    by (simp add: pending_def MAXLINE_def min_def numeral_2_eq_2)
  have i: "rl_inv ?r" by (simp add: rl_inv_def MAXLINE_def)
  have e: "rv (scripted [ok 0] (calls fresh_proc) (C_read (read_fd ?r) MAXLINE)) = 0"
    by (simp add: scripted_def fresh_proc_def ok_def)
  show ?thesis
    using readline_r_overcounts_at_eof[of ?r "[65, 65]" "scripted [ok 0]" fresh_proc] i p e by simp
qed

section \<open>threads/readline.c\<close>

text \<open>Each thread finds its own \<open>Rline\<close> under the key \<open>rl_key\<close>, which the first caller creates. The
  process state gets the once-flag, the key and the per-thread values stored under it.\<close>

record tsd_proc = proc +
  rl_once :: bool
  rl_key :: int
  rl_tsd :: "nat \<Rightarrow> rline option"

definition readline_once :: "os \<Rightarrow> (tsd_proc, unit) cprog" where
  "readline_once os = cbind (Pthread_key_create os 1) (\<lambda>k. cupd (\<lambda>s. s\<lparr>rl_key := k\<rparr>))"

definition readline_tsd :: "os \<Rightarrow> nat \<Rightarrow> (tsd_proc, rline) cprog" where
  "readline_tsd os tid =
     cbind (Pthread_once os 0 0) (\<lambda>_.
     cbind (cget rl_once) (\<lambda>called.
     cbind (if called then creturn () else cbind (readline_once os) (\<lambda>_. cupd (\<lambda>s. s\<lparr>rl_once := True\<rparr>))) (\<lambda>_.
     cbind (cget (\<lambda>s. rl_tsd s tid)) (\<lambda>tsd.
     case tsd of Some rl \<Rightarrow> creturn rl
     | None \<Rightarrow> cbind (Calloc os 1 (MAXLINE + 16)) (\<lambda>p.
               let rl = \<lparr>rl_cnt = 0, rl_bufptr = 0, rl_buf = replicate MAXLINE 0\<rparr> in
               cbind (cget rl_key) (\<lambda>k.
               cbind (Pthread_setspecific os k p) (\<lambda>_.
               cbind (cupd (\<lambda>s. s\<lparr>rl_tsd := (rl_tsd s)(tid \<mapsto> rl)\<rparr>)) (\<lambda>_. creturn rl))))))))"

definition readline_thread :: "os \<Rightarrow> nat \<Rightarrow> int \<Rightarrow> nat \<Rightarrow> (tsd_proc, int \<times> byte list) cprog" where
  "readline_thread os tid fd maxlen =
     cbind (readline_tsd os tid) (\<lambda>rl.
     cbind (readline_loop os fd maxlen 1 [] rl) (\<lambda>(n, buf, rl').
     cbind (cupd (\<lambda>s. s\<lparr>rl_tsd := (rl_tsd s)(tid \<mapsto> rl')\<rparr>)) (\<lambda>_. creturn (n, buf))))"

definition Readline_thread :: "os \<Rightarrow> nat \<Rightarrow> int \<Rightarrow> nat \<Rightarrow> (tsd_proc, int \<times> byte list) cprog" where
  "Readline_thread os tid fd maxlen = cbind (readline_thread os tid fd maxlen) (\<lambda>p.
     if fst p < 0 then err_sys os ''readline error'' else creturn p)"

text \<open>Line reading touches nothing of the process but \<open>errno\<close> and the history.\<close>

lemma my_read_again_frame:
  assumes "my_read_again os fd rl s = Some p"
  shows "proc.more (snd p) = proc.more s"
proof (rule my_read_again.raw_induct[where P = "\<lambda>os fd rl s p. proc.more (snd p) = proc.more s", OF _ assms])
  fix f :: "os \<Rightarrow> int \<Rightarrow> 'x rline_scheme \<Rightarrow> 'z proc_scheme \<Rightarrow> ((int \<times> 'x rline_scheme) outcome \<times> 'z proc_scheme) option"
    and os fd rl s p
  assume IH: "\<And>os fd rl s p. f os fd rl s = Some p \<Longrightarrow> proc.more (snd p) = proc.more s"
    and eq: "cbind (call os (C_read fd MAXLINE)) (\<lambda>r.
       if rv r < 0
       then cbind (cget errno) (\<lambda>e. if e = EINTR then f os fd (rl_store rl r) else creturn (- 1, rl_store rl r))
       else if rv r = 0 then creturn (0, rl_store rl r)
       else creturn (1, (rl_store rl r)\<lparr>rl_bufptr := 0\<rparr>)) s = Some p"
  show "proc.more (snd p) = proc.more s"
    using eq by (auto simp: more_after dest!: IH split: if_splits)
qed

lemma my_read_frame: "preserves proc.more (my_read os fd rl)"
proof -
  have "preserves proc.more (my_read_again os fd rl)"
    by (rule preservesI) (rule my_read_again_frame)
  then show ?thesis
    by (auto simp: my_read_def split: prod.split)
qed

lemma readline_loop_frame: "preserves proc.more (readline_loop os fd maxlen n acc rl)"
proof (rule preservesI)
  fix s p
  assume ret: "readline_loop os fd maxlen n acc rl s = Some p"
  show "proc.more (snd p) = proc.more s"
  proof (rule readline_loop.raw_induct[where P = "\<lambda>os fd maxlen n acc rl s p. proc.more (snd p) = proc.more s", OF _ ret])
    fix f :: "os \<Rightarrow> int \<Rightarrow> nat \<Rightarrow> nat \<Rightarrow> byte list \<Rightarrow> rline \<Rightarrow> 'z proc_scheme \<Rightarrow>
        ((int \<times> byte list \<times> rline) outcome \<times> 'z proc_scheme) option"
      and os fd maxlen n acc rl s p
    assume "\<And>os fd maxlen n acc rl s p. f os fd maxlen n acc rl s = Some p \<Longrightarrow> proc.more (snd p) = proc.more s"
    then have IH: "preserves proc.more (f os fd maxlen n acc rl)" for os fd maxlen n acc rl
      by (rule preservesI)
    assume eq: "(if n < maxlen
      then cbind (my_read os fd rl) (\<lambda>p.
           if fst p = 1
           then (let c = the (fst (snd p)) in
                 if c = newline then creturn (int n, acc @ [c] @ [0], snd (snd p))
                 else f os fd maxlen (n + 1) (acc @ [c]) (snd (snd p)))
           else if fst p = 0 then creturn (int n - 1, acc @ [0], snd (snd p))
           else creturn (- 1, acc, snd (snd p)))
      else creturn (int n, acc @ [0], rl)) s = Some p"
    show "proc.more (snd p) = proc.more s"
      using eq by (auto simp: Let_def elim!: cbindE split: if_splits dest!: preservesD[OF my_read_frame] preservesD[OF IH])
  qed
qed

lemma rl_tsd_more: "proc.more t = proc.more s \<Longrightarrow> rl_tsd t = rl_tsd s"
  by (cases s; cases t) simp

lemma preserves_rl_tsd: "preserves proc.more m \<Longrightarrow> preserves (\<lambda>s. rl_tsd s tid) m"
  by (rule preservesI) (metis preservesD rl_tsd_more)

lemma readline_tsd_isolated:
  assumes "tid' \<noteq> tid"
  shows "preserves (\<lambda>s. rl_tsd s tid') (readline_tsd os tid)"
proof -
  have w: "preserves (\<lambda>s. rl_tsd s tid') (Pthread_once os a b)" for a b
    by (rule preserves_rl_tsd) (auto simp: Pthread_once_def)
  have k: "preserves (\<lambda>s. rl_tsd s tid') (Pthread_key_create os a)" for a
    by (rule preserves_rl_tsd) (auto simp: Pthread_key_create_def)
  have c: "preserves (\<lambda>s. rl_tsd s tid') (Calloc os a b)" for a b
    by (rule preserves_rl_tsd) (auto simp: Calloc_def)
  have p: "preserves (\<lambda>s. rl_tsd s tid') (Pthread_setspecific os a b)" for a b
    by (rule preserves_rl_tsd) (auto simp: Pthread_setspecific_def)
  show ?thesis
    unfolding readline_tsd_def readline_once_def
    unfolding Let_def
    by (intro preserves_bind preserves_if preserves_case_option w k c p preserves_basic preserves_cupd)
      (use assms in auto)
qed

text \<open>
  Threads do not disturb each other's input: a call of the thread-specific \<open>readline\<close> leaves the
  buffer, and so the pending bytes, of every other thread as they were, whether it returns a line,
  reports an error or ends the process.
\<close>

theorem readline_thread_isolated:
  assumes "readline_thread os tid fd maxlen s = Some p" and "tid' \<noteq> tid"
  shows "rl_tsd (snd p) tid' = rl_tsd s tid'"
proof -
  have "preserves (\<lambda>s. rl_tsd s tid') (readline_thread os tid fd maxlen)"
    unfolding readline_thread_def
    by (intro preserves_bind preserves_case_prod readline_tsd_isolated preserves_rl_tsd[OF readline_loop_frame]
        preserves_basic preserves_cupd) (use assms(2) in auto)
  from preservesD[OF this assms(1)] show ?thesis .
qed

text \<open>A process whose thread 1 has the two bytes of "hi" pending, and a run of thread 2.\<close>

definition two_threads :: tsd_proc where
  "two_threads = \<lparr>errno = 0, daemon_proc = 0, calls = [], rl_once = True, rl_key = 0,
     rl_tsd = [1 \<mapsto> \<lparr>rl_cnt = 2, rl_bufptr = 0, rl_buf = [104, 105]\<rparr>, 2 \<mapsto> \<lparr>rl_cnt = 1, rl_bufptr = 0, rl_buf = [10]\<rparr>]\<rparr>"

theorem readline_thread_isolated_witness:
  "\<exists>t. readline_thread (scripted [ok 0]) 2 0 80 two_threads = Some (Ret (1, [10, 0]), t) \<and>
       rl_tsd t 1 = rl_tsd two_threads 1"
proof -
  have run: "readline_loop os 0 80 (Suc 0) [] \<lparr>rl_cnt = 1, rl_bufptr = 0, rl_buf = [10]\<rparr> s =
      Some (Ret (1, [10, 0], \<lparr>rl_cnt = 0, rl_bufptr = 1, rl_buf = [10]\<rparr>), s)" for os and s :: tsd_proc
    by (subst readline_loop.simps) (simp add: my_read_def Let_def)
  obtain t where t: "readline_thread (scripted [ok 0]) 2 0 80 two_threads = Some (Ret (1, [10, 0]), t)"
    by (simp add: readline_thread_def readline_tsd_def two_threads_def Pthread_once_def scripted_def
        after_def ok_def run)
  from readline_thread_isolated[OF t, of 1] t show ?thesis by simp
qed

end
