(* ===== verification/Echo.thy ===== *)
theory Echo
  imports Readline Sock_Util
begin

text \<open>
  The echo clients and servers of lib/ and small helpers beside them: \<open>str_echo\<close>, \<open>str_cli\<close>,
  \<open>dg_echo\<close>, \<open>dg_cli\<close>, \<open>tv_sub\<close>, \<open>gf_time\<close>, \<open>daemon_init\<close>, \<open>daemon_inetd\<close>, \<open>my_addrs\<close> and the
  passing of descriptors (\<open>read_fd\<close>, \<open>write_fd\<close>). The endless loops are partial functions whose value
  \<open>None\<close> is not returning.
\<close>

section \<open>Stream sockets\<close>

partial_function (option) str_echo :: "os \<Rightarrow> int \<Rightarrow> 'z proc_scheme \<Rightarrow> (unit outcome \<times> 'z proc_scheme) option" where
  "str_echo os sockfd s =
     cbind (call os (C_read sockfd MAXLINE)) (\<lambda>r.
     if rv r > 0 then cbind (Writen os sockfd (out_bytes r)) (\<lambda>_. str_echo os sockfd)
     else cbind (cget errno) (\<lambda>e.
          if rv r < 0 \<and> e = EINTR then str_echo os sockfd
          else if rv r < 0 then err_sys os ''str_echo: read error'' else creturn ())) s"

definition to_bytes :: "string \<Rightarrow> byte list" where
  "to_bytes str = map of_char str"

definition from_bytes :: "byte list \<Rightarrow> string" where
  "from_bytes bs = map (\<lambda>b. char_of (unat b)) (takeWhile (\<lambda>b. b \<noteq> 0) bs)"

partial_function (option) str_cli ::
    "os \<Rightarrow> int \<Rightarrow> int \<Rightarrow> rline \<Rightarrow> 'z proc_scheme \<Rightarrow> (rline outcome \<times> 'z proc_scheme) option" where
  "str_cli os fp sockfd rl s =
     cbind (Fgets os MAXLINE fp) (\<lambda>line.
     case line of
       None \<Rightarrow> creturn rl
     | Some sendline \<Rightarrow>
         cbind (Writen os sockfd (to_bytes sendline)) (\<lambda>_.
         cbind (Readline os sockfd MAXLINE rl) (\<lambda>p.
         if fst p = 0 then err_quit os ''str_cli: server terminated prematurely''
         else cbind (Fputs os (from_bytes (fst (snd p))) STDOUT) (\<lambda>_.
              str_cli os fp sockfd (snd (snd p)))))) s"

section \<open>Datagram sockets\<close>

text \<open>One round of the server's loop. The address that \<open>recvfrom\<close> stores is the one that \<open>sendto\<close> uses.\<close>

definition dg_echo_round :: "os \<Rightarrow> int \<Rightarrow> sockaddr \<Rightarrow> nat \<Rightarrow> ('z proc_scheme, sockaddr) cprog" where
  "dg_echo_round os sockfd pcliaddr clilen =
     cbind (Recvfrom os sockfd MAXLINE 0) (\<lambda>r.
     let (cliaddr, len) = (case out_from r of Some p \<Rightarrow> p | None \<Rightarrow> (pcliaddr, clilen)) in
     cbind (Sendto os sockfd (take (nat (rv r)) (out_bytes r)) 0 cliaddr len) (\<lambda>_. creturn cliaddr))"

partial_function (option) dg_echo :: "os \<Rightarrow> int \<Rightarrow> nat \<Rightarrow> sockaddr \<Rightarrow> 'z proc_scheme \<Rightarrow> (unit outcome \<times> 'z proc_scheme) option" where
  "dg_echo os sockfd clilen pcliaddr s =
     cbind (dg_echo_round os sockfd pcliaddr clilen) (\<lambda>cliaddr. dg_echo os sockfd clilen cliaddr) s"

partial_function (option) dg_cli ::
    "os \<Rightarrow> int \<Rightarrow> int \<Rightarrow> sockaddr \<Rightarrow> nat \<Rightarrow> 'z proc_scheme \<Rightarrow> (unit outcome \<times> 'z proc_scheme) option" where
  "dg_cli os fp sockfd pservaddr servlen s =
     cbind (Fgets os MAXLINE fp) (\<lambda>line.
     case line of
       None \<Rightarrow> creturn ()
     | Some sendline \<Rightarrow>
         cbind (Sendto os sockfd (to_bytes sendline) 0 pservaddr servlen) (\<lambda>_.
         cbind (Recvfrom os sockfd MAXLINE 0) (\<lambda>r.
         cbind (Fputs os (from_bytes (take (nat (rv r)) (out_bytes r) @ [0])) STDOUT) (\<lambda>_.
         dg_cli os fp sockfd pservaddr servlen)))) s"

section \<open>Time\<close>

text \<open>A \<open>struct timeval\<close> is the pair of seconds and microseconds.\<close>

fun tv_sub :: "int \<times> int \<Rightarrow> int \<times> int \<Rightarrow> int \<times> int" where
  "tv_sub (out_sec, out_usec) (in_sec, in_usec) =
     (let usec = out_usec - in_usec in
      if usec < 0 then (out_sec - 1 - in_sec, usec + 1000000) else (out_sec - in_sec, usec))"

text \<open>The conversion \<open>%06ld\<close>.\<close>

definition print_06 :: "int \<Rightarrow> string" where
  "print_06 i = replicate (6 - length (print_int i)) CHR ''0'' @ print_int i"

definition gf_time :: "os \<Rightarrow> ('z proc_scheme, string) cprog" where
  "gf_time os =
     cbind (call os C_gettimeofday) (\<lambda>r.
     if rv r < 0 then err_sys os ''gettimeofday error''
     else let (sec, usec) = out_time r in
          cbind (call os (C_lib ''ctime'' [V_int sec])) (\<lambda>p.
          let str = drop 11 (out_str p) in
          creturn (take 8 str @ snprintf_text (30 - 8) (''.'' @ print_06 usec))))"

section \<open>Daemons\<close>

abbreviation (input) LOG_PID :: int where "LOG_PID \<equiv> 1"





definition daemon_inetd :: "os \<Rightarrow> string \<Rightarrow> int \<Rightarrow> ('z proc_scheme, unit) cprog" where
  "daemon_inetd os pname facility =
     cbind (cupd (\<lambda>s. s\<lparr>daemon_proc := 1\<rparr>)) (\<lambda>_.
     cbind (call os (C_lib ''openlog'' [V_str pname, V_int LOG_PID, V_int facility])) (\<lambda>_. creturn ()))"

text \<open>The result is the pair of address type and address list; \<open>None\<close> is the null pointer.\<close>

definition my_addrs :: "os \<Rightarrow> ('z proc_scheme, (int \<times> cval list) option) cprog" where
  "my_addrs os =
     cbind (call os (C_lib ''uname'' [])) (\<lambda>u.
     if rv u < 0 then creturn None
     else cbind (call os (C_lib ''gethostbyname'' [V_str (out_str u)])) (\<lambda>h.
          if rv h = 0 then creturn None else creturn (Some (out_int h, tl (outs h)))))"

definition My_addrs :: "os \<Rightarrow> ('z proc_scheme, int \<times> cval list) cprog" where
  "My_addrs os = cbind (my_addrs os) (\<lambda>p.
     case p of None \<Rightarrow> err_sys os ''my_addrs error'' | Some q \<Rightarrow> creturn q)"

section \<open>Passing descriptors\<close>

text \<open>A control message is \<open>[cmsg_len, cmsg_level, cmsg_type, data]\<close>; \<open>recvmsg\<close> answers with the data
  and, when there is one, the first control message.\<close>

abbreviation (input) SCM_RIGHTS :: int where "SCM_RIGHTS \<equiv> 1"

definition CMSG_LEN_int :: int where "CMSG_LEN_int = 20"

definition CMSG_SPACE_int :: int where "CMSG_SPACE_int = 24"

definition write_fd :: "os \<Rightarrow> int \<Rightarrow> byte list \<Rightarrow> int \<Rightarrow> ('z proc_scheme, int) cprog" where
  "write_fd os fd bytes sendfd =
     cbind (call os (C_lib ''sendmsg'' [V_int fd, V_int 0, V_bytes bytes,
              V_ints [CMSG_LEN_int, SOL_SOCKET, SCM_RIGHTS, sendfd]])) (\<lambda>r. creturn (rv r))"

definition Write_fd :: "os \<Rightarrow> int \<Rightarrow> byte list \<Rightarrow> int \<Rightarrow> ('z proc_scheme, int) cprog" where
  "Write_fd os fd bytes sendfd = cbind (write_fd os fd bytes sendfd) (\<lambda>n.
     if n < 0 then err_sys os ''write_fd error'' else creturn n)"

definition out_cmsg :: "sysret \<Rightarrow> (int \<times> int \<times> int \<times> int) option" where
  "out_cmsg r = (case outs r of [V_bytes _, V_ints [len, level, ty, fd]] \<Rightarrow> Some (len, level, ty, fd) | _ \<Rightarrow> None)"

text \<open>The second component is \<open>*recvfd\<close>; it is \<open>None\<close> when nothing was stored.\<close>

definition read_fd :: "os \<Rightarrow> int \<Rightarrow> nat \<Rightarrow> ('z proc_scheme, int \<times> int option \<times> byte list) cprog" where
  "read_fd os fd nbytes =
     cbind (call os (C_lib ''recvmsg'' [V_int fd, V_int 0, V_int (int nbytes), V_int CMSG_SPACE_int])) (\<lambda>r.
     if rv r \<le> 0 then creturn (rv r, None, out_bytes r)
     else (case out_cmsg r of
        Some (len, level, ty, d) \<Rightarrow>
          if len = CMSG_LEN_int
          then if level \<noteq> SOL_SOCKET then err_quit os ''control level != SOL_SOCKET''
               else if ty \<noteq> SCM_RIGHTS then err_quit os ''control type != SCM_RIGHTS''
               else creturn (rv r, Some d, out_bytes r)
          else creturn (rv r, Some (- 1), out_bytes r)
      | None \<Rightarrow> creturn (rv r, Some (- 1), out_bytes r)))"

definition Read_fd :: "os \<Rightarrow> int \<Rightarrow> nat \<Rightarrow> ('z proc_scheme, int \<times> int option \<times> byte list) cprog" where
  "Read_fd os fd nbytes = cbind (read_fd os fd nbytes) (\<lambda>p.
     if fst p < 0 then err_sys os ''read_fd error'' else creturn p)"

section \<open>What is echoed\<close>

lemma err_state_calls:
  "\<exists>new. calls (err_state os f l msg s) = calls s @ new \<and> (\<forall>fd. written fd new = [] \<and> received fd new = []) \<and>
     received_dgs new = [] \<and> echoed_dgs new = []"
  unfolding err_state_def Let_def
  by (cases f; cases "daemon_proc s = 0")
    (simp_all add: written_def received_def write_bytes_def read_bytes_def received_dgs_def echoed_dgs_def)

lemma Writen_only:
  assumes ok: "write_ok os" and fair: "\<And>bs. fair os (C_write fd bs)"
  shows "wp (Writen os fd data) (\<lambda>r t. \<exists>new. calls t = calls s @ new \<and> (\<forall>f. received f new = [] \<and> (f \<noteq> fd \<longrightarrow> written f new = [])) \<and>
      (case r of Ret _ \<Rightarrow> written fd new = data \<and> only_writes fd new
       | Exit n \<Rightarrow> n = 1 \<and> (\<exists>unsent. data = written fd new @ unsent) | Abort \<Rightarrow> False)) s"
proof -
  obtain p where p: "writen os fd data s = Some p"
    unfolding writen_def using writen_loop_returns[OF assms] by blast
  then obtain new where new: "calls (snd p) = calls s @ new" "only_writes fd new"
    "fst p = Ret (int (length data)) \<and> written fd new = data \<or>
     fst p = Ret (- 1) \<and> (\<exists>unsent. unsent \<noteq> [] \<and> data = written fd new @ unsent)"
    using writen_loop_partial[OF ok, of fd "length data" data s p] by (auto simp: writen_def writen_post_def)
  obtain e where e: "calls (err_state os True LOG_ERR ''writen error'' (snd p)) = calls (snd p) @ e"
    "\<forall>f. written f e = [] \<and> received f e = []"
    using err_state_calls[of os True LOG_ERR "''writen error''" "snd p"] by blast
  note quiet = only_writes_moved[OF new(2)]
  show ?thesis
  proof (cases "fst p = Ret (int (length data))")
    case True
    then have "Writen os fd data s = Some (Ret (), snd p)" using p by (cases p) (simp add: Writen_def)
    with new True quiet show ?thesis by (intro wpI) auto
  next
    case False
    then have "Writen os fd data s = Some (Exit 1, err_state os True LOG_ERR ''writen error'' (snd p))"
      using p new(3) by (cases p) (auto simp: Writen_def)
    with new e False quiet show ?thesis by (intro wpI exI[of _ "new @ e"]) auto
  qed
qed

lemma Writen_wp:
  assumes "write_ok os" and "\<And>bs. fair os (C_write fd bs)"
  shows "wp (Writen os fd data) (\<lambda>r t. \<exists>new. calls t = calls s @ new \<and> received fd new = [] \<and>
      (case r of Ret _ \<Rightarrow> written fd new = data | Exit n \<Rightarrow> n = 1 \<and> (\<exists>unsent. data = written fd new @ unsent) | Abort \<Rightarrow> False)) s"
  by (rule wp_mono[OF Writen_only[OF assms]]) (auto split: outcome.splits)

text \<open>A peer that sends a bounded number of bytes.\<close>

definition bounded_input :: "os \<Rightarrow> int \<Rightarrow> nat \<Rightarrow> bool" where
  "bounded_input os fd N \<longleftrightarrow> (\<forall>h n. 0 < rv (os h (C_read fd n)) \<longrightarrow> length (received fd h) + nat (rv (os h (C_read fd n))) \<le> N)"

definition echo_post :: "int \<Rightarrow> hist \<Rightarrow> unit outcome \<Rightarrow> bool" where
  "echo_post fd new r \<longleftrightarrow> (case r of
       Ret _ \<Rightarrow> written fd new = received fd new \<and> at_eof fd new
     | Exit n \<Rightarrow> n = 1 \<and> (\<exists>rest. received fd new = written fd new @ rest) | Abort \<Rightarrow> False)"

lemma echo_post_cons:
  assumes "echo_post fd new r" and "written fd new0 = received fd new0"
  shows "echo_post fd (new0 @ new) r"
  using assms by (cases r) (auto simp: echo_post_def at_eof_append)

lemma str_echo_step:
  assumes "read_ok os"
  shows "str_echo os fd s =
    (let r = os (calls s) (C_read fd MAXLINE); t = after os (C_read fd MAXLINE) s in
     if interrupted r then str_echo os fd t
     else if rv r < 0 then err_sys os ''str_echo: read error'' t
     else if rv r = 0 then Some (Ret (), t)
     else cbind (Writen os fd (out_bytes r)) (\<lambda>_. str_echo os fd) t)"
  using not_interrupted_errno[of os s "C_read fd MAXLINE"] read_okD(4)[OF assms, of "calls s" fd MAXLINE]
  by (subst str_echo.simps) (auto simp: Let_def interrupted_errno, auto simp: interrupted_def)

lemma str_echo_wp:
  assumes rok: "read_ok os" and wok: "write_ok os" and fr: "fair os (C_read fd MAXLINE)" and fw: "\<And>bs. fair os (C_write fd bs)"
    and bnd: "bounded_input os fd N"
  shows "wp (str_echo os fd) (\<lambda>r t. \<exists>new. calls t = calls s @ new \<and> echo_post fd new r) s"
proof (induction "N - length (received fd (calls s))" arbitrary: s rule: less_induct)
  case less
  let ?c = "C_read fd MAXLINE"
  from fr less show ?case
  proof (induction s rule: fair_induct)
    case (retry s)
    let ?t = "after os ?c s"
    have i: "interrupted (os (calls s) ?c)" "rv (os (calls s) ?c) < 0" using retry.hyps(1) by (auto simp: interrupted_def)
    then have same: "received fd (calls ?t) = received fd (calls s)" by simp
    have "wp (str_echo os fd) (\<lambda>r t. \<exists>new. calls t = calls ?t @ new \<and> echo_post fd new r) ?t"
      by (rule retry.IH) (use retry.prems same in \<open>simp_all add: retry_hist_def\<close>)
    then have "wp (str_echo os fd) (\<lambda>r t. \<exists>new. calls t = calls s @ new \<and> echo_post fd new r) ?t"
      by (rule wp_mono) (use echo_post_cons[of fd _ _ "[(?c, os (calls s) ?c)]"] i in auto)
    then show ?case using i str_echo_step[OF rok, of fd s] by (simp add: wp_def)
  next
    case (finished s)
    let ?r = "os (calls s) ?c" and ?t = "after os ?c s"
    consider "rv ?r < 0" | "rv ?r = 0" | "0 < rv ?r" by linarith
    then show ?case
    proof cases
      case 1
      obtain e where "calls (err_state os True LOG_ERR ''str_echo: read error'' ?t) = calls ?t @ e" "written fd e = []" "received fd e = []"
        using err_state_calls by blast
      then show ?thesis
        using 1 finished.hyps str_echo_step[OF rok, of fd s]
        by (auto simp: wp_def echo_post_def intro!: exI[of _ "(?c, ?r) # e"] simp flip: append_Cons)
    next
      case 2
      then have "echo_post fd [(?c, ?r)] (Ret ())" by (auto simp: echo_post_def at_eof_def)
      then show ?thesis using 2 finished.hyps str_echo_step[OF rok, of fd s] by (auto simp: wp_def)
    next
      case 3
      have r: "received fd [(?c, ?r)] = out_bytes ?r" "length (out_bytes ?r) = nat (rv ?r)" "written fd [(?c, ?r)] = []"
        using 3 read_okD(3)[OF rok, of "calls s" fd MAXLINE] by simp_all
      have more: "wp (str_echo os fd) (\<lambda>r t. \<exists>new. calls t = calls s @ new \<and> echo_post fd new r) u"
        if "calls u = calls ?t @ w" "received fd w = []" "written fd w = out_bytes ?r" for u :: "'a proc_scheme" and w
      proof -
        have "length (received fd (calls s)) + nat (rv ?r) \<le> N" using bnd 3 by (simp add: bounded_input_def)
        then have "N - length (received fd (calls u)) < N - length (received fd (calls s))"
          using that 3 r rd.moved_append[of fd "[(?c, ?r)]" w] by simp
        from finished.prems[OF this] show ?thesis
          by (rule wp_mono) (use that r echo_post_cons[of fd _ _ "[(?c, ?r)] @ w"] in \<open>auto simp del: append_Cons\<close>)
      qed
      have "wp (cbind (Writen os fd (out_bytes ?r)) (\<lambda>_. str_echo os fd)) (\<lambda>r t. \<exists>new. calls t = calls s @ new \<and> echo_post fd new r) ?t"
      proof (rule wp_bindI[OF Writen_wp[OF wok fw]])
        fix n t
        assume "\<exists>new. calls t = calls ?t @ new \<and> received fd new = [] \<and>
          (case Exit n of Ret _ \<Rightarrow> written fd new = out_bytes ?r | Exit n \<Rightarrow> n = 1 \<and> (\<exists>unsent. out_bytes ?r = written fd new @ unsent) | Abort \<Rightarrow> False)"
        then obtain w unsent where "calls t = calls ?t @ w" "received fd w = []" "n = 1" "out_bytes ?r = written fd w @ unsent" by auto
        then show "\<exists>new. calls t = calls s @ new \<and> echo_post fd new (Exit n)"
          using r by (intro exI[of _ "[(?c, ?r)] @ w"]) (simp add: echo_post_def del: append_Cons)
      qed (use more in auto)
      then show ?thesis using 3 finished.hyps str_echo_step[OF rok, of fd s] by (simp add: wp_def)
    qed
  qed
qed

text \<open>
  C9. \<open>str_echo\<close> sends back what it receives: with a peer that sends a bounded number of bytes and a
  kernel that does not interrupt calls for ever, it ends; when it returns, end of file was reached and the
  bytes it wrote are exactly the bytes it read, in order; when the process exits on an error, what was
  written is a prefix of what was read.
\<close>

theorem str_echo_echoes:
  assumes "read_ok os" and "write_ok os" and "fair os (C_read fd MAXLINE)" and "\<And>bs. fair os (C_write fd bs)"
    and "bounded_input os fd N"
  shows "wp (str_echo os fd) (\<lambda>r t. \<exists>new. calls t = calls s @ new \<and> (case r of
      Ret _ \<Rightarrow> written fd new = received fd new \<and> at_eof fd new
    | Exit n \<Rightarrow> n = 1 \<and> (\<exists>rest. received fd new = written fd new @ rest) | Abort \<Rightarrow> False)) s"
  using str_echo_wp[OF assms] by (simp add: echo_post_def)

lemma pipe_os_bounded: "bounded_input (pipe_os inp k) fd (length inp)"
  by (auto simp: bounded_input_def pipe_os_def sysret_defs)

theorem str_echo_echoes_witness:
  "\<exists>r t new. str_echo (pipe_os [1, 2, 3] 2) 4 fresh_proc = Some (r, t) \<and> calls t = calls fresh_proc @ new \<and>
     (r = Ret () \<longrightarrow> written 4 new = received 4 new)"
  using str_echo_echoes[OF pipe_os_read_ok pipe_os_write_ok pipe_os_fair pipe_os_fair pipe_os_bounded, of "[1, 2, 3]" 2 4 fresh_proc]
  by (auto simp: wp_def)

text \<open>The first \<open>n\<close> rounds of the datagram server.\<close>

fun dg_echo_rounds :: "os \<Rightarrow> int \<Rightarrow> nat \<Rightarrow> nat \<Rightarrow> sockaddr \<Rightarrow> ('z proc_scheme, sockaddr) cprog" where
  "dg_echo_rounds os sockfd clilen 0 a = creturn a"
| "dg_echo_rounds os sockfd clilen (Suc n) a =
     cbind (dg_echo_round os sockfd a clilen) (\<lambda>b. dg_echo_rounds os sockfd clilen n b)"

definition dg_post :: "nat \<Rightarrow> hist \<Rightarrow> 'a outcome \<Rightarrow> bool" where
  "dg_post n new r \<longleftrightarrow> (case r of
       Ret _ \<Rightarrow> echoed_dgs new = received_dgs new \<and> length (received_dgs new) = n
     | Exit m \<Rightarrow> m = 1 \<and> (\<exists>rest. received_dgs new = echoed_dgs new @ rest \<and> length rest \<le> 1) | Abort \<Rightarrow> False)"

lemma dg_echo_round_wp:
  assumes "recvfrom_ok os"
  shows "wp (dg_echo_round os fd a cl) (\<lambda>r t. \<exists>new. calls t = calls s @ new \<and> dg_post 1 new r) s"
proof -
  let ?c = "C_recvfrom fd MAXLINE 0"
  let ?r = "os (calls s) ?c" and ?t = "after os ?c s"
  show ?thesis
  proof (cases "rv ?r < 0")
    case True
    obtain e where e: "calls (err_state os True LOG_ERR ''recvfrom error'' ?t) = calls ?t @ e" "received_dgs e = []" "echoed_dgs e = []"
      using err_state_calls by blast
    have "dg_post 1 ([(?c, ?r)] @ e) (Exit 1 :: sockaddr outcome)"
      using True e by (simp add: dg_post_def del: append_Cons) (simp add: received_dgs_def echoed_dgs_def)
    then show ?thesis using True e(1)
      by (auto simp: dg_echo_round_def Recvfrom_def wp_simps intro!: exI[of _ "[(?c, ?r)] @ e"])
  next
    case False
    then obtain b n where b: "out_from ?r = Some (b, n)" and l: "length (out_bytes ?r) = nat (rv ?r)"
      using assms by (fastforce simp: recvfrom_ok_def Let_def)
    let ?d = "C_sendto fd (out_bytes ?r) 0 b n"
    let ?q = "os (calls ?t) ?d" and ?u = "after os ?d ?t"
    have rs: "received_dgs [(?c, ?r), (?d, ?q)] = [(out_bytes ?r, b)]"
      "echoed_dgs [(?c, ?r), (?d, ?q)] = (if rv ?q = int (length (out_bytes ?r)) then [(out_bytes ?r, b)] else [])"
      using False b by (simp_all add: received_dgs_def echoed_dgs_def)
    show ?thesis
    proof (cases "rv ?q = int (length (out_bytes ?r))")
      case True
      then have "dg_post 1 [(?c, ?r), (?d, ?q)] (Ret b)" using rs by (simp add: dg_post_def)
      then show ?thesis using False True b l
        by (auto simp: dg_echo_round_def Recvfrom_def Sendto_def wp_simps Let_def intro!: exI[of _ "[(?c, ?r), (?d, ?q)]"])
    next
      case bad: False
      obtain e where e: "calls (err_state os True LOG_ERR ''sendto error'' ?u) = calls ?u @ e" "received_dgs e = []" "echoed_dgs e = []"
        using err_state_calls by blast
      have "dg_post 1 ([(?c, ?r), (?d, ?q)] @ e) (Exit 1 :: sockaddr outcome)"
        using rs bad e by (simp add: dg_post_def del: append_Cons)
      then show ?thesis using False bad b l e(1)
        by (auto simp: dg_echo_round_def Recvfrom_def Sendto_def wp_simps Let_def intro!: exI[of _ "[(?c, ?r), (?d, ?q)] @ e"])
    qed
  qed
qed

lemma dg_echo_rounds_wp:
  assumes "recvfrom_ok os"
  shows "wp (dg_echo_rounds os fd cl n a) (\<lambda>r t. \<exists>new. calls t = calls s @ new \<and> dg_post n new r) s"
proof (induction n arbitrary: a s)
  case 0
  show ?case by (simp only: dg_echo_rounds.simps wp_basic) (simp add: dg_post_def received_dgs_def echoed_dgs_def)
next
  case (Suc n)
  show ?case
    unfolding dg_echo_rounds.simps
  proof (rule wp_bindI[OF dg_echo_round_wp[OF assms]])
    fix b :: sockaddr and t :: "'a proc_scheme"
    assume "\<exists>new. calls t = calls s @ new \<and> dg_post 1 new (Ret b)"
    then obtain new where "calls t = calls s @ new" "dg_post 1 new (Ret b)" by blast
    then show "wp (dg_echo_rounds os fd cl n b) (\<lambda>r t. \<exists>new. calls t = calls s @ new \<and> dg_post (Suc n) new r) t"
      by (intro wp_mono[OF Suc.IH]) (force simp: dg_post_def split: outcome.splits)
  qed (auto simp: dg_post_def)
qed

lemma dg_echo_unroll:
  fixes s :: "'z proc_scheme"
  shows "dg_echo os fd cl a s = cbind (dg_echo_rounds os fd cl n a) (\<lambda>b. dg_echo os fd cl b) s"
proof (induction n arbitrary: a s)
  case 0
  then show ?case by simp
next
  case (Suc n)
  have "(\<lambda>b. cbind (dg_echo_rounds os fd cl n b) (\<lambda>b. dg_echo os fd cl b)) = (\<lambda>b. dg_echo os fd cl b :: ('z proc_scheme, unit) cprog)"
    using Suc.IH by (intro ext) (rule sym)
  then show ?case by (subst dg_echo.simps) (simp add: cbind_assoc)
qed

text \<open>
  The datagram server \<open>dg_echo\<close> answers every datagram before it takes the next: for every \<open>n\<close> its
  first \<open>n\<close> rounds end, and when they have run, exactly the \<open>n\<close> datagrams received have been sent back,
  in order and each to its sender; an error ends the process with at most one datagram unanswered.
\<close>

theorem dg_echo_answers:
  assumes "recvfrom_ok os"
  shows "dg_echo os fd cl a s = cbind (dg_echo_rounds os fd cl n a) (\<lambda>b. dg_echo os fd cl b) s \<and>
    wp (dg_echo_rounds os fd cl n a) (\<lambda>r t. \<exists>new. calls t = calls s @ new \<and> (case r of
       Ret _ \<Rightarrow> echoed_dgs new = received_dgs new \<and> length (received_dgs new) = n
     | Exit m \<Rightarrow> m = 1 \<and> (\<exists>rest. received_dgs new = echoed_dgs new @ rest \<and> length rest \<le> 1) | Abort \<Rightarrow> False)) s"
  using dg_echo_unroll[of os fd cl a s n] dg_echo_rounds_wp[OF assms] by (simp add: dg_post_def)

definition chatty :: os where
  "chatty h c = (case c of
     C_recvfrom _ _ _ \<Rightarrow> \<lparr>rv = 1, err = None, outs = [V_bytes [of_nat (length h)], V_addr (Sockaddr_in 9 [10, 0, 0, 1]), V_int 16]\<rparr>
   | C_sendto _ bs _ _ _ \<Rightarrow> ok (int (length bs)) | _ \<Rightarrow> ok 0)"

theorem dg_echo_answers_witness:
  "wp (dg_echo_rounds chatty 3 16 5 null_addr) (\<lambda>r t. \<exists>new. calls t = calls fresh_proc @ new \<and> (case r of
       Ret _ \<Rightarrow> echoed_dgs new = received_dgs new \<and> length (received_dgs new) = 5
     | Exit m \<Rightarrow> m = 1 \<and> (\<exists>rest. received_dgs new = echoed_dgs new @ rest \<and> length rest \<le> 1) | Abort \<Rightarrow> False)) fresh_proc"
proof -
  have "recvfrom_ok chatty" by (auto simp: recvfrom_ok_def chatty_def Let_def ok_def out_bytes_def out_from_def)
  from dg_echo_answers[OF this] show ?thesis by blast
qed

section \<open>Time, daemons, descriptors\<close>

text \<open>
  \<open>tv_sub\<close> subtracts times: for two normalised times the result has the exact difference in
  microseconds and is normalised again.
\<close>

theorem tv_sub_difference:
  assumes "0 \<le> usec1" "usec1 < 1000000" "0 \<le> usec2" "usec2 < 1000000"
  shows "case tv_sub (sec1, usec1) (sec2, usec2) of (sec, usec) \<Rightarrow>
    sec * 1000000 + usec = (sec1 * 1000000 + usec1) - (sec2 * 1000000 + usec2) \<and> 0 \<le> usec \<and> usec < 1000000"
  using assms by (auto simp: Let_def)

theorem tv_sub_difference_witness:
  "case tv_sub (5, 100) (3, 999999) of (sec, usec) \<Rightarrow>
    sec * 1000000 + usec = (5 * 1000000 + 100) - (3 * 1000000 + 999999) \<and> 0 \<le> usec \<and> usec < (1000000 :: int)"
  by (rule tv_sub_difference) simp_all


text \<open>
  What the calls of a history mean for the process, by the descriptions of \<open>setsid\<close>, \<open>fork\<close>, \<open>close\<close> and \<open>open\<close>: whether
  it leads its session, whether it has a controlling terminal, of how many \<open>fork\<close>s it is the child, and the file
  each descriptor refers to.
\<close>

record session =
  leader :: bool
  terminal :: bool
  forks :: nat
  open_file :: "int \<Rightarrow> string option"

definition follow :: "ccall \<times> sysret \<Rightarrow> session \<Rightarrow> session" where
  "follow e k = (case e of
      (C_fork, r) \<Rightarrow> if rv r = 0 then k\<lparr>leader := False, forks := forks k + 1\<rparr> else k
    | (C_close fd, r) \<Rightarrow> k\<lparr>open_file := (open_file k)(fd := None)\<rparr>
    | (C_lib name args, r) \<Rightarrow>
        if name = ''setsid'' \<and> 0 \<le> rv r then k\<lparr>leader := True, terminal := False\<rparr>
        else if name = ''open'' \<and> 0 \<le> rv r then
          (case args of V_str path # _ \<Rightarrow> k\<lparr>open_file := (open_file k)(rv r \<mapsto> path)\<rparr> | _ \<Rightarrow> k)
        else k
    | _ \<Rightarrow> k)"

definition replay :: "session \<Rightarrow> hist \<Rightarrow> session" where
  "replay k h = fold follow h k"

lemma replay_append [simp]: "replay k (h @ h') = replay (replay k h) h'" "replay k [] = k" "replay k [e] = follow e k"
  "replay k (e # h) = replay (follow e k) h"
  by (simp_all add: replay_def)















text \<open>
  A descriptor sent with \<open>write_fd\<close> is the one \<open>read_fd\<close> reports, when the kernel hands the message
  over with its control data unchanged; and a message without control data reports -1.
\<close>

theorem write_read_fd:
  assumes "write_fd os fd bytes sendfd s = Some (Ret n, t)"
    and "C_lib ''sendmsg'' (V_int fd # V_int 0 # payload) = fst (last (calls t))"
    and "r = os' (calls u) (C_lib ''recvmsg'' [V_int fd', V_int 0, V_int (int nbytes), V_int CMSG_SPACE_int])" and "0 < rv r"
  shows "(outs r = payload \<longrightarrow> (\<exists>v. read_fd os' fd' nbytes u = Some (Ret (rv r, Some sendfd, bytes), v))) \<and>
    (outs r = [hd payload] \<longrightarrow> (\<exists>v. read_fd os' fd' nbytes u = Some (Ret (rv r, Some (- 1), bytes), v)))"
  using assms by (auto simp: write_fd_def read_fd_def out_cmsg_def out_bytes_def)

theorem write_read_fd_witness:
  "\<exists>v. read_fd (scripted [\<lparr>rv = 1, err = None, outs = [V_bytes [65], V_ints [20, 1, 1, 7]]\<rparr>]) 5 1 fresh_proc
    = Some (Ret (1, Some 7, [65]), v)"
proof -
  let ?os = "scripted [\<lparr>rv = 1, err = None, outs = [V_bytes [65], V_ints [20, 1, 1, 7]]\<rparr>]"
  have "write_fd ?os 4 [65] 7 fresh_proc = Some (Ret 1, after ?os (C_lib ''sendmsg'' [V_int 4, V_int 0, V_bytes [65], V_ints [20, 1, 1, 7]]) fresh_proc)"
    by (simp add: write_fd_def CMSG_LEN_int_def scripted_def fresh_proc_def)
  from write_read_fd[OF this, of "[V_bytes [65], V_ints [20, 1, 1, 7]]" "?os [] (C_lib ''recvmsg'' [V_int 5, V_int 0, V_int 1, V_int 24])" ?os fresh_proc 5 1]
  show ?thesis by (simp add: scripted_def fresh_proc_def CMSG_LEN_int_def CMSG_SPACE_int_def)
qed

end
