(* ===== verification/Relay.thy ===== *)
theory Relay
  imports Echo
begin

text \<open>
  The nonblocking stream client nonblock/strclinonb.c, which relays standard input to a socket and the socket
  to standard output with \<open>select\<close> and a buffer in each direction. A buffer is its array and the two pointers into it, as indices. Descriptor sets are lists;
  \<open>select\<close> answers with the descriptors left in the read and in the write set.
\<close>

abbreviation (input) EWOULDBLOCK :: int where "EWOULDBLOCK \<equiv> EAGAIN"
abbreviation (input) SHUT_WR :: int where "SHUT_WR \<equiv> 1"
abbreviation (input) STDIN_FILENO :: int where "STDIN_FILENO \<equiv> 0"
abbreviation (input) STDOUT_FILENO :: int where "STDOUT_FILENO \<equiv> 1"

section \<open>nonblock/strclinonb.c\<close>

record nbuf =
  data :: "byte list"
  iptr :: nat
  optr :: nat

record nbstate =
  to_buf :: nbuf
  fr_buf :: nbuf
  stdineof :: bool

text \<open>The kernel stores what it read at the input pointer, which then moves on.\<close>

definition nb_fill :: "nbuf \<Rightarrow> byte list \<Rightarrow> nbuf" where
  "nb_fill b bs = b\<lparr>data := take (iptr b) (data b) @ bs @ drop (iptr b + length bs) (data b), iptr := iptr b + length bs\<rparr>"

text \<open>The output pointer moves on; an empty buffer starts again at the beginning.\<close>

definition nb_drain :: "nbuf \<Rightarrow> nat \<Rightarrow> nbuf" where
  "nb_drain b n = (let o' = optr b + n in if o' = iptr b then b\<lparr>iptr := 0, optr := 0\<rparr> else b\<lparr>optr := o'\<rparr>)"

definition nb_pending :: "nbuf \<Rightarrow> byte list" where
  "nb_pending b = take (iptr b - optr b) (drop (optr b) (data b))"

definition nb_rset :: "int \<Rightarrow> nbstate \<Rightarrow> int list" where
  "nb_rset sockfd st = (if \<not> stdineof st \<and> iptr (to_buf st) < MAXLINE then [STDIN_FILENO] else []) @
     (if iptr (fr_buf st) < MAXLINE then [sockfd] else [])"

definition nb_wset :: "int \<Rightarrow> nbstate \<Rightarrow> int list" where
  "nb_wset sockfd st = (if optr (to_buf st) \<noteq> iptr (to_buf st) then [sockfd] else []) @
     (if optr (fr_buf st) \<noteq> iptr (fr_buf st) then [STDOUT_FILENO] else [])"

definition nb_read_stdin :: "os \<Rightarrow> int \<Rightarrow> int list \<Rightarrow> int list \<Rightarrow> nbstate \<Rightarrow> ('z proc_scheme, nbstate \<times> int list) cprog" where
  "nb_read_stdin os sockfd rs ws st =
     (if STDIN_FILENO \<in> set rs then
        cbind (call os (C_read STDIN_FILENO (MAXLINE - iptr (to_buf st)))) (\<lambda>n.
        if rv n < 0 then
          cbind (cget errno) (\<lambda>e. if e \<noteq> EWOULDBLOCK then err_sys os ''read error on stdin'' else creturn (st, ws))
        else if rv n = 0 then
          cbind (if optr (to_buf st) = iptr (to_buf st) then Shutdown os sockfd SHUT_WR else creturn ()) (\<lambda>_.
          creturn (st\<lparr>stdineof := True\<rparr>, ws))
        else creturn (st\<lparr>to_buf := nb_fill (to_buf st) (out_bytes n)\<rparr>, sockfd # ws))
      else creturn (st, ws))"

text \<open>The first component of the result says that the function returns.\<close>

definition nb_read_sock :: "os \<Rightarrow> int \<Rightarrow> int list \<Rightarrow> int list \<Rightarrow> nbstate \<Rightarrow> ('z proc_scheme, bool \<times> nbstate \<times> int list) cprog" where
  "nb_read_sock os sockfd rs ws st =
     (if sockfd \<in> set rs then
        cbind (call os (C_read sockfd (MAXLINE - iptr (fr_buf st)))) (\<lambda>n.
        if rv n < 0 then
          cbind (cget errno) (\<lambda>e. if e \<noteq> EWOULDBLOCK then err_sys os ''read error on socket'' else creturn (False, st, ws))
        else if rv n = 0 then
          if stdineof st then creturn (True, st, ws) else err_quit os ''str_cli: server terminated prematurely''
        else creturn (False, st\<lparr>fr_buf := nb_fill (fr_buf st) (out_bytes n)\<rparr>, STDOUT_FILENO # ws))
      else creturn (False, st, ws))"

definition nb_write_stdout :: "os \<Rightarrow> int list \<Rightarrow> nbstate \<Rightarrow> ('z proc_scheme, nbstate) cprog" where
  "nb_write_stdout os ws st =
     (if STDOUT_FILENO \<in> set ws \<and> iptr (fr_buf st) - optr (fr_buf st) > 0 then
        cbind (call os (C_write STDOUT_FILENO (nb_pending (fr_buf st)))) (\<lambda>n.
        if rv n < 0 then
          cbind (cget errno) (\<lambda>e. if e \<noteq> EWOULDBLOCK then err_sys os ''write error to stdout'' else creturn st)
        else creturn (st\<lparr>fr_buf := nb_drain (fr_buf st) (nat (rv n))\<rparr>))
      else creturn st)"

definition nb_write_sock :: "os \<Rightarrow> int \<Rightarrow> int list \<Rightarrow> nbstate \<Rightarrow> ('z proc_scheme, nbstate) cprog" where
  "nb_write_sock os sockfd ws st =
     (if sockfd \<in> set ws \<and> iptr (to_buf st) - optr (to_buf st) > 0 then
        cbind (call os (C_write sockfd (nb_pending (to_buf st)))) (\<lambda>n.
        if rv n < 0 then
          cbind (cget errno) (\<lambda>e. if e \<noteq> EWOULDBLOCK then err_sys os ''write error to socket'' else creturn st)
        else
          cbind (if optr (to_buf st) + nat (rv n) = iptr (to_buf st) \<and> stdineof st then Shutdown os sockfd SHUT_WR else creturn ()) (\<lambda>_.
          creturn (st\<lparr>to_buf := nb_drain (to_buf st) (nat (rv n))\<rparr>)))
      else creturn st)"

text \<open>One pass of the loop: whether the function returns, and the buffers.\<close>

definition nb_round :: "os \<Rightarrow> int \<Rightarrow> nbstate \<Rightarrow> ('z proc_scheme, bool \<times> nbstate) cprog" where
  "nb_round os sockfd st =
     cbind (Select os (max (max STDIN_FILENO STDOUT_FILENO) sockfd + 1) (nb_rset sockfd st) (nb_wset sockfd st) [] None) (\<lambda>r.
     cbind (nb_read_stdin os sockfd (out_ints 0 r) (out_ints 1 r) st) (\<lambda>(st, ws).
     cbind (nb_read_sock os sockfd (out_ints 0 r) ws st) (\<lambda>(over, st, ws).
     if over then creturn (True, st)
     else
     cbind (nb_write_stdout os ws st) (\<lambda>st.
     cbind (nb_write_sock os sockfd ws st) (\<lambda>st. creturn (False, st))))))"

partial_function (option) nb_loop :: "os \<Rightarrow> int \<Rightarrow> nbstate \<Rightarrow> 'z proc_scheme \<Rightarrow> (nbstate outcome \<times> 'z proc_scheme) option" where
  "nb_loop os sockfd st s =
     cbind (nb_round os sockfd st) (\<lambda>(over, st). if over then creturn st else nb_loop os sockfd st) s"

definition set_nonblock :: "os \<Rightarrow> int \<Rightarrow> ('z proc_scheme, unit) cprog" where
  "set_nonblock os fd = cbind (Fcntl os fd F_GETFL 0) (\<lambda>val. cbind (Fcntl os fd F_SETFL (val OR O_NONBLOCK)) (\<lambda>_. creturn ()))"

definition nb_empty :: nbuf where
  "nb_empty = \<lparr>data = replicate MAXLINE 0, iptr = 0, optr = 0\<rparr>"

definition str_cli_nonb :: "os \<Rightarrow> int \<Rightarrow> ('z proc_scheme, unit) cprog" where
  "str_cli_nonb os sockfd =
     cbind (set_nonblock os sockfd) (\<lambda>_.
     cbind (set_nonblock os STDIN_FILENO) (\<lambda>_.
     cbind (set_nonblock os STDOUT_FILENO) (\<lambda>_.
     cbind (nb_loop os sockfd \<lparr>to_buf = nb_empty, fr_buf = nb_empty, stdineof = False\<rparr>) (\<lambda>_. creturn ()))))"

section \<open>The buffer as a queue of bytes\<close>

locale byte_queue =
  fixes inv :: "'b \<Rightarrow> bool" and abs :: "'b \<Rightarrow> byte list" and room :: "'b \<Rightarrow> nat"
    and fill :: "'b \<Rightarrow> byte list \<Rightarrow> 'b" and drain :: "'b \<Rightarrow> nat \<Rightarrow> 'b"
  assumes fill: "inv b \<Longrightarrow> length bs \<le> room b \<Longrightarrow> inv (fill b bs) \<and> abs (fill b bs) = abs b @ bs"
    and drain: "inv b \<Longrightarrow> n \<le> length (abs b) \<Longrightarrow> inv (drain b n) \<and> abs (drain b n) = drop n (abs b)"
begin

text \<open>What went in is what came out and what is still there.\<close>

lemma fill_conserves: "inv b \<Longrightarrow> length bs \<le> room b \<Longrightarrow> inp = outp @ abs b \<Longrightarrow> inp @ bs = outp @ abs (fill b bs)"
  using fill by simp

lemma drain_conserves: "inv b \<Longrightarrow> n \<le> length (abs b) \<Longrightarrow> inp = outp @ abs b \<Longrightarrow> inp = (outp @ take n (abs b)) @ abs (drain b n)"
  using drain by simp

lemma drain_empty: "inv b \<Longrightarrow> n \<le> length (abs b) \<Longrightarrow> abs (drain b n) = [] \<longleftrightarrow> n = length (abs b)"
  using drain by auto

end

definition nb_inv :: "nbuf \<Rightarrow> bool" where
  "nb_inv b \<longleftrightarrow> length (data b) = MAXLINE \<and> optr b \<le> iptr b \<and> iptr b \<le> MAXLINE"

lemma length_nb_pending: "nb_inv b \<Longrightarrow> length (nb_pending b) = iptr b - optr b"
  by (auto simp: nb_inv_def nb_pending_def min_def)

interpretation nbq: byte_queue nb_inv nb_pending "\<lambda>b. MAXLINE - iptr b" nb_fill nb_drain
proof unfold_locales
  fix b :: nbuf and bs :: "byte list"
  assume b: "nb_inv b" and l: "length bs \<le> MAXLINE - iptr b"
  define old where "old = drop (optr b) (take (iptr b) (data b))"
  have len: "length (take (iptr b) (data b)) = iptr b" "length old = iptr b - optr b" "optr b \<le> iptr b" "iptr b \<le> MAXLINE"
    "length (data b) = MAXLINE" using b by (auto simp: nb_inv_def old_def)
  have "take (iptr b + length bs - optr b) (drop (optr b) (take (iptr b) (data b) @ bs @ rest)) = old @ bs" for rest
    unfolding old_def[symmetric] drop_append using len by (simp add: old_def[symmetric])
  moreover have "nb_pending b = old" unfolding nb_pending_def old_def by (simp only: drop_take)
  ultimately have "take (iptr b + length bs - optr b) (drop (optr b) (take (iptr b) (data b) @ bs @ drop (iptr b + length bs) (data b))) =
     nb_pending b @ bs" by (simp only:)
  moreover have "nb_pending (nb_fill b bs) = take (iptr b + length bs - optr b) (drop (optr b) (take (iptr b) (data b) @ bs @ drop (iptr b + length bs) (data b)))"
    by (simp add: nb_fill_def nb_pending_def del: drop_append take_append)
  moreover have "nb_inv (nb_fill b bs)" using len l by (simp add: nb_inv_def nb_fill_def)
  ultimately show "nb_inv (nb_fill b bs) \<and> nb_pending (nb_fill b bs) = nb_pending b @ bs" by (simp only:)
next
  fix b n
  assume b: "nb_inv b" and n: "n \<le> length (nb_pending b)"
  then have "n \<le> iptr b - optr b" by (simp add: length_nb_pending)
  with b show "nb_inv (nb_drain b n) \<and> nb_pending (nb_drain b n) = drop n (nb_pending b)"
    by (auto simp: nb_inv_def nb_drain_def nb_pending_def Let_def drop_take add.commute)
qed

section \<open>What is relayed\<close>

text \<open>\<open>select(2)\<close>: only descriptors asked for are left in the sets, and without a timeout at least one.\<close>

definition select_ok :: "os \<Rightarrow> bool" where
  "select_ok os \<longleftrightarrow> (\<forall>h n rd wr ex tm. let r = os h (C_select n rd wr ex tm) in 0 \<le> rv r \<longrightarrow>
     set (out_ints 0 r) \<subseteq> set rd \<and> set (out_ints 1 r) \<subseteq> set wr \<and>
     (tm = None \<longrightarrow> out_ints 0 r \<noteq> [] \<or> out_ints 1 r \<noteq> []))"

definition would_block :: "sysret \<Rightarrow> bool" where
  "would_block r \<longleftrightarrow> rv r < 0 \<and> err r = Some EWOULDBLOCK"

text \<open>A descriptor that \<open>select\<close> reported ready does not block the next time it is used, and a write to it
  accepts something.\<close>

definition ready_ok :: "os \<Rightarrow> bool" where
  "ready_ok os \<longleftrightarrow> (\<forall>h n rd wr ex tm r h1 fd. let h' = h @ (C_select n rd wr ex tm, r) # h1 in
     (fd \<in> set (out_ints 0 r) \<and> (\<forall>m x. (C_read fd m, x) \<notin> set h1) \<longrightarrow> (\<forall>m. \<not> would_block (os h' (C_read fd m)))) \<and>
     (fd \<in> set (out_ints 1 r) \<and> (\<forall>b x. (C_write fd b, x) \<notin> set h1) \<longrightarrow>
        (\<forall>b. b \<noteq> [] \<longrightarrow> \<not> would_block (os h' (C_write fd b)) \<and> rv (os h' (C_write fd b)) \<noteq> 0)))"

definition is_fin :: "int \<Rightarrow> ccall \<times> sysret \<Rightarrow> bool" where
  "is_fin fd p \<longleftrightarrow> fst p = C_lib ''shutdown'' [V_int fd, V_int SHUT_WR]"

definition fins :: "int \<Rightarrow> hist \<Rightarrow> nat" where
  "fins fd h = length (filter (is_fin fd) h)"

lemma fins_append [simp]: "fins fd (g @ h) = fins fd g + fins fd h" "fins fd [] = 0"
  by (simp_all add: fins_def)

text \<open>Everything read is written or waits in a buffer, and the output half was shut down once all input was
  forwarded, and only then.\<close>

definition nb_ok :: "int \<Rightarrow> nbstate \<Rightarrow> hist \<Rightarrow> bool" where
  "nb_ok sockfd st new \<longleftrightarrow> nb_inv (to_buf st) \<and> nb_inv (fr_buf st) \<and>
     received STDIN_FILENO new = written sockfd new @ nb_pending (to_buf st) \<and>
     received sockfd new = written STDOUT_FILENO new @ nb_pending (fr_buf st) \<and>
     fins sockfd new = (if stdineof st \<and> nb_pending (to_buf st) = [] then 1 else 0)"

definition nb_safe :: "int \<Rightarrow> hist \<Rightarrow> bool" where
  "nb_safe sockfd new \<longleftrightarrow> (\<exists>p q. received STDIN_FILENO new = written sockfd new @ p \<and> received sockfd new = written STDOUT_FILENO new @ q)"

text \<open>What is still to come: bytes to read, twice, bytes to write, and the end of the input.\<close>

definition nb_todo :: "int \<Rightarrow> nat \<Rightarrow> nat \<Rightarrow> nbstate \<Rightarrow> hist \<Rightarrow> nat" where
  "nb_todo sockfd N0 N1 st h = 2 * (N0 - length (received STDIN_FILENO h)) + length (nb_pending (to_buf st)) +
     2 * (N1 - length (received sockfd h)) + length (nb_pending (fr_buf st)) + (if stdineof st then 0 else 1)"

lemma moved_single:
  "received fd [(C_read f n, r)] = (if f = fd \<and> 0 < rv r then out_bytes r else [])"
  "written fd [(C_write f bs, r)] = (if f = fd \<and> 0 < rv r then take (nat (rv r)) bs else [])"
  "received fd [(C_select m rd wr ex tm, r)] = []" "written fd [(C_select m rd wr ex tm, r)] = []"
  "received fd [(C_fcntl f m i, r)] = []" "written fd [(C_fcntl f m i, r)] = []"
  "fins fd [(C_read f n, r)] = 0" "fins fd [(C_write f bs, r)] = 0" "fins fd [(C_select m rd wr ex tm, r)] = 0" "fins fd [(C_fcntl f m i, r)] = 0"
  "fins fd [(C_lib ''shutdown'' [V_int g, V_int SHUT_WR], r)] = (if g = fd then 1 else 0)"
  by (auto simp: received_def read_bytes_def written_def write_bytes_def fins_def is_fin_def)

definition relay_env :: "os \<Rightarrow> int \<Rightarrow> nat \<Rightarrow> nat \<Rightarrow> bool" where
  "relay_env os sockfd N0 N1 \<longleftrightarrow> sockfd \<noteq> STDIN_FILENO \<and> sockfd \<noteq> STDOUT_FILENO \<and> read_ok os \<and> write_ok os \<and> select_ok os \<and> ready_ok os \<and>
     bounded_input os STDIN_FILENO N0 \<and> bounded_input os sockfd N1"

text \<open>A return satisfies \<open>P\<close>; when the process exits, the calls since \<open>h0\<close> satisfy \<open>safe\<close>.\<close>

abbreviation safe_post :: "(hist \<Rightarrow> bool) \<Rightarrow> hist \<Rightarrow> ('a \<Rightarrow> 'z proc_scheme \<Rightarrow> bool) \<Rightarrow> 'a outcome \<Rightarrow> 'z proc_scheme \<Rightarrow> bool" where
  "safe_post safe h0 P r t \<equiv> (case r of Ret a \<Rightarrow> P a t | Exit n \<Rightarrow> n = 1 \<and> (\<exists>new. calls t = h0 @ new \<and> safe new) | Abort \<Rightarrow> False)"

text \<open>The calls of the error functions.\<close>

definition reporting :: "ccall \<Rightarrow> bool" where
  "reporting c \<longleftrightarrow> (case c of C_strerror e \<Rightarrow> True | C_syslog l x \<Rightarrow> True | C_fputs x f \<Rightarrow> True | C_fflush f \<Rightarrow> True | _ \<Rightarrow> False)"

lemma err_state_reports: "\<exists>e. calls (err_state os f l msg s) = calls s @ e \<and> (\<forall>p \<in> set e. reporting (fst p))"
  unfolding err_state_def Let_def by (cases f; cases "daemon_proc s = 0") (simp_all add: reporting_def)

text \<open>A property of histories that some calls, those of the error functions among them, and reads that fail do not
  disturb.\<close>

locale exit_safe =
  fixes safe :: "hist \<Rightarrow> bool" and calm :: "ccall \<Rightarrow> bool"
  assumes calm: "safe new \<Longrightarrow> calm c \<Longrightarrow> safe (new @ [(c, r)])"
    and report: "reporting c \<Longrightarrow> calm c"
    and failed_read: "safe new \<Longrightarrow> rv r < 0 \<Longrightarrow> safe (new @ [(C_read fd m, r)])"
begin

lemma quiet: "safe new \<Longrightarrow> \<forall>p \<in> set e. calm (fst p) \<Longrightarrow> safe (new @ e)"
proof (induction e rule: rev_induct)
  case (snoc p e)
  then show ?case using calm[of "new @ e" "fst p" "snd p"] by simp
qed simp

lemma bind:
  assumes "wp m (safe_post safe h0 P) s" and "\<And>a t. P a t \<Longrightarrow> wp (f a) (safe_post safe h0 Q) t"
  shows "wp (cbind m f) (safe_post safe h0 Q) s"
  by (rule wp_bindI[OF assms(1)]) (use assms(2) in auto)

lemma err:
  assumes "calls t = h0 @ new" and "safe new"
  shows "wp (err_sys os msg) (safe_post safe h0 P) t" and "wp (err_quit os msg) (safe_post safe h0 P) t"
proof -
  have "\<exists>new. calls (err_state os f LOG_ERR msg t) = h0 @ new \<and> safe new" for f
  proof -
    obtain e where "calls (err_state os f LOG_ERR msg t) = calls t @ e" "\<forall>p \<in> set e. reporting (fst p)"
      using err_state_reports by blast
    with assms show ?thesis by (intro exI[of _ "new @ e"]) (simp add: quiet report)
  qed
  then show "wp (err_sys os msg) (safe_post safe h0 P) t" "wp (err_quit os msg) (safe_post safe h0 P) t"
    by (simp_all add: wp_err)
qed

text \<open>One such call, and the exit when it fails.\<close>

lemma quiet_call:
  assumes t: "calls t = h0 @ new" and "safe new" and q: "calm c"
    and P: "\<not> bad (os (calls t) c) \<Longrightarrow> P (g (os (calls t) c)) (after os c t)"
  shows "wp (cbind (call os c) (\<lambda>r. if bad r then err_sys os msg else creturn (g r))) (safe_post safe h0 P) t"
proof -
  have "wp (err_sys os msg) (safe_post safe h0 P) (after os c t)"
    by (rule err(1)[of _ _ "new @ [(c, os (calls t) c)]"]) (use assms(2) q t in \<open>simp_all add: calm\<close>)
  then show ?thesis using P by (simp add: wp_bind[of "call _ _"] wp_call wp_if wp_basic)
qed

lemma Read_wp:
  assumes "read_ok os" and t: "calls t = h0 @ new" and "safe new"
  shows "wp (Read os fd m) (safe_post safe h0 (\<lambda>r t'. calls t' = calls t @ [(C_read fd m, r)] \<and> r = os (calls t) (C_read fd m) \<and> 0 \<le> rv r \<and>
     length (out_bytes r) = nat (rv r))) t" (is "wp _ (safe_post _ _ ?P) _")
proof -
  let ?r = "os (calls t) (C_read fd m)"
  have "wp (err_sys os msg) (safe_post safe h0 ?P) (after os (C_read fd m) t)" if "rv ?r = - 1" for msg
    by (rule err(1)[of _ _ "new @ [(C_read fd m, ?r)]"]) (use assms(2,3) that in \<open>auto intro!: failed_read\<close>)
  then show ?thesis using read_okD[OF assms(1), of "calls t" fd m]
    unfolding Read_def wp_bind[of "call _ _"] wp_call by (auto simp: wp_basic)
qed

end

abbreviation relay_post :: "hist \<Rightarrow> int \<Rightarrow> ('a \<Rightarrow> 'z proc_scheme \<Rightarrow> bool) \<Rightarrow> 'a outcome \<Rightarrow> 'z proc_scheme \<Rightarrow> bool" where
  "relay_post h0 sockfd \<equiv> safe_post (nb_safe sockfd) h0"

text \<open>Calls that move no bytes.\<close>

definition silent :: "ccall \<Rightarrow> bool" where
  "silent c \<longleftrightarrow> (\<forall>fd r. written fd [(c, r)] = [] \<and> received fd [(c, r)] = [])"

lemma silent_calls [simp]:
  "silent (C_lib x vs)" "silent (C_close f)" "silent (C_socket a b c)" "silent (C_bind f sa l)" "silent (C_listen f i)" "silent (C_accept f)"
  "silent (C_select m rd wr ex tm)" "silent (C_fcntl f y i)"
  by (simp_all add: silent_def written_def received_def write_bytes_def read_bytes_def)

lemma silent_reporting: "reporting c \<Longrightarrow> silent c"
  by (cases c) (simp_all add: reporting_def silent_def)

interpretation relay: exit_safe "nb_safe sockfd" silent for sockfd
  by unfold_locales (auto simp: nb_safe_def silent_def silent_reporting[unfolded silent_def] moved_single)

lemmas relay_bind = relay.bind
lemmas relay_err = relay.err

lemma nb_safe_ok: "nb_ok sockfd st new \<Longrightarrow> nb_safe sockfd new"
  by (auto simp: nb_ok_def nb_safe_def)

lemma relay_shutdown:
  assumes "calls t = h0 @ new" and "nb_safe sockfd new"
  shows "wp (Shutdown os fd SHUT_WR) (relay_post h0 sockfd (\<lambda>_ t'. \<exists>r. calls t' = calls t @ [(C_lib ''shutdown'' [V_int fd, V_int SHUT_WR], r)])) t"
  unfolding Shutdown_def by (rule relay.quiet_call[OF assms]) auto

text \<open>The two directions, one call at a time.\<close>

lemma stdin_bytes:
  assumes "nb_ok sockfd st new" and "sockfd \<noteq> 0" and "length bs \<le> MAXLINE - iptr (to_buf st)" and "bs \<noteq> []" and "\<not> stdineof st"
    and "received 0 [e] = bs" "received sockfd [e] = []" "\<forall>fd. written fd [e] = []" "fins sockfd [e] = 0"
  shows "nb_ok sockfd (st\<lparr>to_buf := nb_fill (to_buf st) bs\<rparr>) (new @ [e])"
  using assms nbq.fill[of "to_buf st" bs] by (auto simp: nb_ok_def)

lemma sock_bytes:
  assumes "nb_ok sockfd st new" and "length bs \<le> MAXLINE - iptr (fr_buf st)"
    and "received sockfd [e] = bs" "received 0 [e] = []" "\<forall>fd. written fd [e] = []" "fins sockfd [e] = 0"
  shows "nb_ok sockfd (st\<lparr>fr_buf := nb_fill (fr_buf st) bs\<rparr>) (new @ [e])"
  using assms nbq.fill[of "fr_buf st" bs] by (auto simp: nb_ok_def)

lemma read_progress: "a + k \<le> N \<Longrightarrow> 0 < k \<Longrightarrow> 2 * (N - (a + k)) + k < 2 * (N - a)" for a k N :: nat
  by simp

lemma nb_read_stdin_wp:
  fixes t :: "'z proc_scheme"
  assumes env: "relay_env os sockfd N0 N1" and t: "calls t = h0 @ new" and okst: "nb_ok sockfd st new" and rs: "0 \<in> set rs \<Longrightarrow> \<not> stdineof st"
  shows "wp (nb_read_stdin os sockfd rs ws st) (relay_post h0 sockfd (\<lambda>(st', ws') t'. \<exists>w. calls t' = calls t @ w \<and> nb_ok sockfd st' (new @ w) \<and>
      (\<forall>p \<in> set w. (\<exists>m. fst p = C_read 0 m) \<or> (\<exists>x vs. fst p = C_lib x vs)) \<and> set ws \<subseteq> set ws' \<and> fr_buf st' = fr_buf st \<and>
      (nb_pending (to_buf st) \<noteq> [] \<longrightarrow> nb_pending (to_buf st') \<noteq> []) \<and>
      nb_todo sockfd N0 N1 st' (calls t') \<le> nb_todo sockfd N0 N1 st (calls t) \<and>
      (0 \<in> set rs \<and> \<not> would_block (os (calls t) (C_read 0 (MAXLINE - iptr (to_buf st)))) \<longrightarrow>
         nb_todo sockfd N0 N1 st' (calls t') < nb_todo sockfd N0 N1 st (calls t)))) t"
proof (cases "0 \<in> set rs")
  case False
  then show ?thesis using okst by (simp add: nb_read_stdin_def wp_basic)
next
  case True
  let ?c = "C_read 0 (MAXLINE - iptr (to_buf st))"
  let ?r = "os (calls t) ?c" and ?u = "after os ?c t"
  have e: "sockfd \<noteq> 0" "read_ok os" "bounded_input os 0 N0" using env by (auto simp: relay_env_def)
  have u: "calls ?u = h0 @ (new @ [(?c, ?r)])" using t by simp
  have eof: "\<not> stdineof st" by (rule rs[OF True])
  consider "rv ?r < 0" | "rv ?r = 0" | "0 < rv ?r" by linarith
  then show ?thesis
  proof cases
    case 1
    then have q: "nb_ok sockfd st (new @ [(?c, ?r)])" using okst e(1) by (simp add: nb_ok_def moved_single)
    have "wp (err_sys os m) (relay_post h0 sockfd P) ?u" for m and P :: "nbstate \<times> int list \<Rightarrow> 'z proc_scheme \<Rightarrow> bool"
      by (rule relay_err(1)[OF u nb_safe_ok[OF q]])
    moreover have "would_block ?r" if "errno ?u = EWOULDBLOCK"
      using that 1 read_okD(4)[OF e(2) 1] by (auto simp: would_block_def errno_after)
    ultimately show ?thesis using True 1 q e(1)
      by (auto simp: nb_read_stdin_def wp_bind[of "call _ _"] wp_bind[of "cget _"] wp_call wp_cget wp_basic wp_if nb_todo_def moved_single
          intro!: exI[of _ "[(?c, ?r)]"])
  next
    case 2
    have s: "nb_safe sockfd (new @ [(?c, ?r)])" using nb_safe_ok[OF okst] 2 e(1) by (simp add: nb_safe_def moved_single)
    let ?P = "\<lambda>_ t'. \<exists>w. calls t' = calls t @ w \<and> nb_ok sockfd (st\<lparr>stdineof := True\<rparr>) (new @ w) \<and>
        (\<forall>p \<in> set w. (\<exists>m. fst p = C_read 0 m) \<or> (\<exists>x vs. fst p = C_lib x vs)) \<and> received 0 w = [] \<and> received sockfd w = []"
    have "wp (if optr (to_buf st) = iptr (to_buf st) then Shutdown os sockfd SHUT_WR else creturn ()) (relay_post h0 sockfd ?P) ?u"
    proof (rule wp_ifI)
      assume "optr (to_buf st) = iptr (to_buf st)"
      then have p: "nb_pending (to_buf st) = []" by (simp add: nb_pending_def)
      show "wp (Shutdown os sockfd SHUT_WR) (relay_post h0 sockfd ?P) ?u"
      proof (rule wp_mono[OF relay_shutdown[OF u s]])
        fix r :: "unit outcome" and t' :: "'z proc_scheme"
        assume "relay_post h0 sockfd (\<lambda>_ t'. \<exists>r. calls t' = calls ?u @ [(C_lib ''shutdown'' [V_int sockfd, V_int SHUT_WR], r)]) r t'"
        then show "relay_post h0 sockfd ?P r t'"
        proof (cases r)
          case (Ret a)
          with \<open>relay_post h0 sockfd _ r t'\<close> obtain q where "calls t' = calls t @ ([(?c, ?r)] @ [(C_lib ''shutdown'' [V_int sockfd, V_int SHUT_WR], q)])" by auto
          moreover have "nb_ok sockfd (st\<lparr>stdineof := True\<rparr>) (new @ ([(?c, ?r)] @ [(C_lib ''shutdown'' [V_int sockfd, V_int SHUT_WR], q)]))"
            using okst 2 e(1) eof p by (simp add: nb_ok_def moved_single del: append_Cons append.simps)
          moreover have "received 0 ([(?c, ?r)] @ [(C_lib ''shutdown'' [V_int sockfd, V_int SHUT_WR], q)]) = []"
            "received sockfd ([(?c, ?r)] @ [(C_lib ''shutdown'' [V_int sockfd, V_int SHUT_WR], q)]) = []"
            using 2 e(1) by (simp_all add: moved_single del: append_Cons append.simps)
          ultimately show ?thesis using Ret by force
        qed auto
      qed
    next
      assume "optr (to_buf st) \<noteq> iptr (to_buf st)"
      then have p: "nb_pending (to_buf st) \<noteq> []" using okst length_nb_pending[of "to_buf st"] by (auto simp: nb_ok_def nb_inv_def)
      show "wp (creturn ()) (relay_post h0 sockfd ?P) ?u"
        using okst 2 e(1) eof p by (auto simp: wp_basic nb_ok_def moved_single intro!: exI[of _ "[(?c, ?r)]"])
    qed
    then have "wp (cbind (if optr (to_buf st) = iptr (to_buf st) then Shutdown os sockfd SHUT_WR else creturn ()) (\<lambda>_. creturn (st\<lparr>stdineof := True\<rparr>, ws)))
      (relay_post h0 sockfd (\<lambda>(st', ws') t'. \<exists>w. calls t' = calls t @ w \<and> nb_ok sockfd st' (new @ w) \<and>
      (\<forall>p \<in> set w. (\<exists>m. fst p = C_read 0 m) \<or> (\<exists>x vs. fst p = C_lib x vs)) \<and> set ws \<subseteq> set ws' \<and> fr_buf st' = fr_buf st \<and>
      (nb_pending (to_buf st) \<noteq> [] \<longrightarrow> nb_pending (to_buf st') \<noteq> []) \<and>
      nb_todo sockfd N0 N1 st' (calls t') \<le> nb_todo sockfd N0 N1 st (calls t) \<and>
      (0 \<in> set rs \<and> \<not> would_block ?r \<longrightarrow> nb_todo sockfd N0 N1 st' (calls t') < nb_todo sockfd N0 N1 st (calls t)))) ?u"
      by (rule relay_bind) (use eof in \<open>auto simp: wp_basic nb_todo_def\<close>)
    then show ?thesis using True 2 by (simp add: nb_read_stdin_def wp_bind[of "call _ _"] wp_call)
  next
    case 3
    have b: "length (out_bytes ?r) = nat (rv ?r)" "rv ?r \<le> int (MAXLINE - iptr (to_buf st))"
      using 3 read_okD[OF e(2), of "calls t" 0 "MAXLINE - iptr (to_buf st)"] by auto
    have n: "length (received 0 (calls t)) + nat (rv ?r) \<le> N0" using e(3) 3 by (simp add: bounded_input_def)
    have q: "nb_ok sockfd (st\<lparr>to_buf := nb_fill (to_buf st) (out_bytes ?r)\<rparr>) (new @ [(?c, ?r)])"
      by (rule stdin_bytes[OF okst e(1)]) (use 3 b e(1) eof in \<open>auto simp: moved_single\<close>)
    have "nb_pending (nb_fill (to_buf st) (out_bytes ?r)) = nb_pending (to_buf st) @ out_bytes ?r"
      using nbq.fill[of "to_buf st" "out_bytes ?r"] okst b 3 by (auto simp: nb_ok_def)
    moreover from this have "nb_todo sockfd N0 N1 (st\<lparr>to_buf := nb_fill (to_buf st) (out_bytes ?r)\<rparr>) (calls t @ [(?c, ?r)]) < nb_todo sockfd N0 N1 st (calls t)"
      using b(1) 3 e(1) read_progress[OF n] by (simp add: nb_todo_def moved_single)
    ultimately show ?thesis using True 3 q
      by (auto simp: nb_read_stdin_def wp_bind[of "call _ _"] wp_call wp_basic wp_if intro!: exI[of _ "[(?c, ?r)]"])
  qed
qed

lemma nb_read_sock_wp:
  fixes t :: "'z proc_scheme"
  assumes env: "relay_env os sockfd N0 N1" and t: "calls t = h0 @ new" and okst: "nb_ok sockfd st new"
  shows "wp (nb_read_sock os sockfd rs ws st) (relay_post h0 sockfd (\<lambda>(over, st', ws') t'. \<exists>w. calls t' = calls t @ w \<and> nb_ok sockfd st' (new @ w) \<and>
      (\<forall>p \<in> set w. \<exists>m. fst p = C_read sockfd m) \<and> set ws \<subseteq> set ws' \<and> to_buf st' = to_buf st \<and>
      (nb_pending (fr_buf st) \<noteq> [] \<longrightarrow> nb_pending (fr_buf st') \<noteq> []) \<and> (over \<longrightarrow> stdineof st' \<and> at_eof sockfd w) \<and>
      nb_todo sockfd N0 N1 st' (calls t') \<le> nb_todo sockfd N0 N1 st (calls t) \<and>
      (sockfd \<in> set rs \<and> \<not> over \<and> \<not> would_block (os (calls t) (C_read sockfd (MAXLINE - iptr (fr_buf st)))) \<longrightarrow>
         nb_todo sockfd N0 N1 st' (calls t') < nb_todo sockfd N0 N1 st (calls t)))) t"
proof (cases "sockfd \<in> set rs")
  case False
  then show ?thesis using okst by (simp add: nb_read_sock_def wp_basic)
next
  case True
  let ?c = "C_read sockfd (MAXLINE - iptr (fr_buf st))"
  let ?r = "os (calls t) ?c" and ?u = "after os ?c t"
  have e: "sockfd \<noteq> 0" "read_ok os" "bounded_input os sockfd N1" using env by (auto simp: relay_env_def)
  have u: "calls ?u = h0 @ (new @ [(?c, ?r)])" using t by simp
  have q: "nb_ok sockfd st (new @ [(?c, ?r)])" if "rv ?r \<le> 0" using okst e(1) that by (auto simp: nb_ok_def moved_single)
  have err: "wp (err_sys os m) (relay_post h0 sockfd P) ?u" "wp (err_quit os m) (relay_post h0 sockfd P) ?u"
    if "rv ?r \<le> 0" for m and P :: "bool \<times> nbstate \<times> int list \<Rightarrow> 'z proc_scheme \<Rightarrow> bool"
    using relay_err[OF u nb_safe_ok[OF q[OF that]]] by auto
  consider "rv ?r < 0" | "rv ?r = 0" | "0 < rv ?r" by linarith
  then show ?thesis
  proof cases
    case 1
    have "would_block ?r" if "errno ?u = EWOULDBLOCK"
      using that 1 read_okD(4)[OF e(2) 1] by (auto simp: would_block_def errno_after)
    then show ?thesis using True 1 q e(1) err(1)
      by (auto simp: nb_read_sock_def wp_bind[of "call _ _"] wp_bind[of "cget _"] wp_call wp_cget wp_basic wp_if nb_todo_def moved_single
          intro!: exI[of _ "[(?c, ?r)]"])
  next
    case 2
    then have "at_eof sockfd [(?c, ?r)]" by (auto simp: at_eof_def)
    with 2 True q err(2) e(1) show ?thesis
      by (auto simp: nb_read_sock_def wp_bind[of "call _ _"] wp_call wp_basic wp_if nb_todo_def moved_single intro!: exI[of _ "[(?c, ?r)]"])
  next
    case 3
    have b: "length (out_bytes ?r) = nat (rv ?r)" "rv ?r \<le> int (MAXLINE - iptr (fr_buf st))"
      using 3 read_okD[OF e(2), of "calls t" sockfd "MAXLINE - iptr (fr_buf st)"] by auto
    have n: "length (received sockfd (calls t)) + nat (rv ?r) \<le> N1" using e(3) 3 by (simp add: bounded_input_def)
    have q: "nb_ok sockfd (st\<lparr>fr_buf := nb_fill (fr_buf st) (out_bytes ?r)\<rparr>) (new @ [(?c, ?r)])"
      by (rule sock_bytes[OF okst]) (use 3 b e(1) in \<open>auto simp: moved_single\<close>)
    have "nb_pending (nb_fill (fr_buf st) (out_bytes ?r)) = nb_pending (fr_buf st) @ out_bytes ?r"
      using nbq.fill[of "fr_buf st" "out_bytes ?r"] okst b 3 by (auto simp: nb_ok_def)
    moreover from this have "nb_todo sockfd N0 N1 (st\<lparr>fr_buf := nb_fill (fr_buf st) (out_bytes ?r)\<rparr>) (calls t @ [(?c, ?r)]) < nb_todo sockfd N0 N1 st (calls t)"
      using b(1) 3 e(1) read_progress[OF n] by (simp add: nb_todo_def moved_single)
    ultimately show ?thesis using True 3 q
      by (auto simp: nb_read_sock_def wp_bind[of "call _ _"] wp_call wp_basic wp_if intro!: exI[of _ "[(?c, ?r)]"])
  qed
qed

lemma pending_drained:
  assumes "nb_inv b" and "n \<le> length (nb_pending b)"
  shows "nb_inv (nb_drain b n)" and "nb_pending (nb_drain b n) = drop n (nb_pending b)"
  using nbq.drain[OF assms] by auto

lemma nb_write_stdout_wp:
  fixes t :: "'z proc_scheme"
  assumes env: "relay_env os sockfd N0 N1" and t: "calls t = h0 @ new" and okst: "nb_ok sockfd st new"
  shows "wp (nb_write_stdout os ws st) (relay_post h0 sockfd (\<lambda>st' t'. \<exists>w. calls t' = calls t @ w \<and> nb_ok sockfd st' (new @ w) \<and>
      (\<forall>p \<in> set w. \<exists>m. fst p = C_write 1 m) \<and> to_buf st' = to_buf st \<and>
      nb_todo sockfd N0 N1 st' (calls t') \<le> nb_todo sockfd N0 N1 st (calls t) \<and>
      (let r = os (calls t) (C_write 1 (nb_pending (fr_buf st))) in 1 \<in> set ws \<and> nb_pending (fr_buf st) \<noteq> [] \<and> \<not> would_block r \<and> rv r \<noteq> 0 \<longrightarrow>
         nb_todo sockfd N0 N1 st' (calls t') < nb_todo sockfd N0 N1 st (calls t)))) t"
proof (cases "1 \<in> set ws \<and> iptr (fr_buf st) - optr (fr_buf st) > 0")
  case False
  then show ?thesis using okst length_nb_pending[of "fr_buf st"] by (auto simp: nb_write_stdout_def wp_basic nb_ok_def Let_def)
next
  case True
  let ?c = "C_write 1 (nb_pending (fr_buf st))"
  let ?r = "os (calls t) ?c" and ?u = "after os ?c t"
  have e: "sockfd \<noteq> 1" "write_ok os" using env by (auto simp: relay_env_def)
  have u: "calls ?u = h0 @ (new @ [(?c, ?r)])" using t by simp
  show ?thesis
  proof (cases "rv ?r < 0")
    case 1: True
    then have q: "nb_ok sockfd st (new @ [(?c, ?r)])" using okst e(1) by (auto simp: nb_ok_def moved_single)
    have "would_block ?r" if "errno ?u = EWOULDBLOCK"
      using that 1 write_okD(3)[OF e(2) 1] by (auto simp: would_block_def errno_after)
    then show ?thesis using True 1 q relay_err(1)[OF u nb_safe_ok[OF q]]
      by (auto simp: nb_write_stdout_def wp_bind[of "call _ _"] wp_bind[of "cget _"] wp_call wp_cget wp_basic wp_if nb_todo_def Let_def moved_single
          intro!: exI[of _ "[(?c, ?r)]"])
  next
    case False
    have n: "nat (rv ?r) \<le> length (nb_pending (fr_buf st))" and fr: "nb_inv (fr_buf st)"
      using write_okD(2)[OF e(2), of "calls t" 1 "nb_pending (fr_buf st)"] okst by (auto simp: nb_ok_def)
    note d = pending_drained[OF fr n]
    have "nb_ok sockfd (st\<lparr>fr_buf := nb_drain (fr_buf st) (nat (rv ?r))\<rparr>) (new @ [(?c, ?r)])"
      using okst d e(1) False by (auto simp: nb_ok_def moved_single)
    with True False d n show ?thesis
      by (auto simp: nb_write_stdout_def wp_bind[of "call _ _"] wp_call wp_basic wp_if nb_todo_def Let_def moved_single intro!: exI[of _ "[(?c, ?r)]"])
  qed
qed

lemma nb_write_sock_wp:
  fixes t :: "'z proc_scheme"
  assumes env: "relay_env os sockfd N0 N1" and t: "calls t = h0 @ new" and okst: "nb_ok sockfd st new"
  shows "wp (nb_write_sock os sockfd ws st) (relay_post h0 sockfd (\<lambda>st' t'. \<exists>w. calls t' = calls t @ w \<and> nb_ok sockfd st' (new @ w) \<and>
      nb_todo sockfd N0 N1 st' (calls t') \<le> nb_todo sockfd N0 N1 st (calls t) \<and>
      (let r = os (calls t) (C_write sockfd (nb_pending (to_buf st))) in sockfd \<in> set ws \<and> nb_pending (to_buf st) \<noteq> [] \<and> \<not> would_block r \<and> rv r \<noteq> 0 \<longrightarrow>
         nb_todo sockfd N0 N1 st' (calls t') < nb_todo sockfd N0 N1 st (calls t)))) t"
proof (cases "sockfd \<in> set ws \<and> iptr (to_buf st) - optr (to_buf st) > 0")
  case False
  then show ?thesis using okst length_nb_pending[of "to_buf st"] by (auto simp: nb_write_sock_def wp_basic nb_ok_def Let_def)
next
  case True
  let ?c = "C_write sockfd (nb_pending (to_buf st))"
  let ?r = "os (calls t) ?c" and ?u = "after os ?c t"
  have e: "sockfd \<noteq> 1" "sockfd \<noteq> 0" "write_ok os" using env by (auto simp: relay_env_def)
  have u: "calls ?u = h0 @ (new @ [(?c, ?r)])" using t by simp
  show ?thesis
  proof (cases "rv ?r < 0")
    case 1: True
    then have q: "nb_ok sockfd st (new @ [(?c, ?r)])" using okst e(1) by (auto simp: nb_ok_def moved_single)
    have "would_block ?r" if "errno ?u = EWOULDBLOCK"
      using that 1 write_okD(3)[OF e(3) 1] by (auto simp: would_block_def errno_after)
    then show ?thesis using True 1 q relay_err(1)[OF u nb_safe_ok[OF q]]
      by (auto simp: nb_write_sock_def wp_bind[of "call _ _"] wp_bind[of "cget _"] wp_call wp_cget wp_basic wp_if nb_todo_def Let_def moved_single
          intro!: exI[of _ "[(?c, ?r)]"])
  next
    case False
    let ?st = "st\<lparr>to_buf := nb_drain (to_buf st) (nat (rv ?r))\<rparr>" and ?f = "C_lib ''shutdown'' [V_int sockfd, V_int SHUT_WR]"
    have n: "nat (rv ?r) \<le> length (nb_pending (to_buf st))" and inv: "nb_inv (to_buf st)"
      using write_okD(2)[OF e(3), of "calls t" sockfd "nb_pending (to_buf st)"] okst by (auto simp: nb_ok_def)
    note d = pending_drained[OF inv n]
    have ne: "nb_pending (to_buf st) \<noteq> []" using True length_nb_pending[OF inv] by auto
    have "optr (to_buf st) + nat (rv ?r) = iptr (to_buf st) \<longleftrightarrow> nat (rv ?r) = length (nb_pending (to_buf st))"
      using length_nb_pending[OF inv] True inv by (auto simp: nb_inv_def)
    then have full: "optr (to_buf st) + nat (rv ?r) = iptr (to_buf st) \<longleftrightarrow> nb_pending (nb_drain (to_buf st) (nat (rv ?r))) = []"
      using d(2) n by auto
    have s: "nb_safe sockfd (new @ [(?c, ?r)])"
      using okst e False by (auto simp: nb_ok_def nb_safe_def moved_single) (metis append_take_drop_id)
    let ?P = "\<lambda>_ t'. \<exists>w. calls t' = calls t @ w \<and> nb_ok sockfd ?st (new @ w) \<and> (\<forall>fd. received fd w = [])"
    have "wp (if optr (to_buf st) + nat (rv ?r) = iptr (to_buf st) \<and> stdineof st then Shutdown os sockfd SHUT_WR else creturn ()) (relay_post h0 sockfd ?P) ?u"
    proof (rule wp_ifI)
      assume a: "optr (to_buf st) + nat (rv ?r) = iptr (to_buf st) \<and> stdineof st"
      have ok2: "nb_ok sockfd ?st (new @ [(?c, ?r)] @ [(?f, q)])" for q
        using okst d e False ne full a by (auto simp: nb_ok_def moved_single simp del: append_Cons append.simps)
      have "received fd ([(?c, ?r)] @ [(?f, q)]) = []" for fd q by (simp only: rd.moved_append) simp
      with ok2 have "\<exists>w. h @ [(?f, q)] = calls t @ w \<and> nb_ok sockfd ?st (new @ w) \<and> (\<forall>fd. received fd w = [])"
        if "h = calls ?u" for q h using that by (intro exI[of _ "[(?c, ?r)] @ [(?f, q)]"]) simp
      then show "wp (Shutdown os sockfd SHUT_WR) (relay_post h0 sockfd ?P) ?u"
        by (intro wp_mono[OF relay_shutdown[OF u s]]) (auto split: outcome.splits)
    next
      assume a: "\<not> (optr (to_buf st) + nat (rv ?r) = iptr (to_buf st) \<and> stdineof st)"
      have "nb_ok sockfd ?st (new @ [(?c, ?r)])"
        using okst d e False ne full a by (auto simp: nb_ok_def moved_single)
      then show "wp (creturn ()) (relay_post h0 sockfd ?P) ?u"
        by (auto simp: wp_basic moved_single intro!: exI[of _ "[(?c, ?r)]"])
    qed
    then have "wp (cbind (if optr (to_buf st) + nat (rv ?r) = iptr (to_buf st) \<and> stdineof st then Shutdown os sockfd SHUT_WR else creturn ()) (\<lambda>_. creturn ?st))
      (relay_post h0 sockfd (\<lambda>st' t'. \<exists>w. calls t' = calls t @ w \<and> nb_ok sockfd st' (new @ w) \<and>
      nb_todo sockfd N0 N1 st' (calls t') \<le> nb_todo sockfd N0 N1 st (calls t) \<and>
      (sockfd \<in> set ws \<and> nb_pending (to_buf st) \<noteq> [] \<and> \<not> would_block ?r \<and> rv ?r \<noteq> 0 \<longrightarrow>
         nb_todo sockfd N0 N1 st' (calls t') < nb_todo sockfd N0 N1 st (calls t)))) ?u"
      by (rule relay_bind) (use d n False in \<open>auto simp: wp_basic nb_todo_def\<close>)
    then show ?thesis
      unfolding nb_write_sock_def Let_def if_P[OF True] wp_bind[of "call _ _"] wp_call outcome.case if_not_P[OF False] .
  qed
qed

lemma select_okD:
  assumes "select_ok os" and "0 \<le> rv (os h (C_select n rd wr ex tm))"
  shows "set (out_ints 0 (os h (C_select n rd wr ex tm))) \<subseteq> set rd" and "set (out_ints 1 (os h (C_select n rd wr ex tm))) \<subseteq> set wr"
    and "tm = None \<Longrightarrow> out_ints 0 (os h (C_select n rd wr ex tm)) \<noteq> [] \<or> out_ints 1 (os h (C_select n rd wr ex tm)) \<noteq> []"
  using assms unfolding select_ok_def Let_def by blast+

lemma ready_okD:
  assumes "ready_ok os"
  shows "fd \<in> set (out_ints 0 r) \<Longrightarrow> (\<And>m x. (C_read fd m, x) \<notin> set h1) \<Longrightarrow>
      \<not> would_block (os ((h @ [(C_select n rd wr ex tm, r)]) @ h1) (C_read fd m))"
    and "fd \<in> set (out_ints 1 r) \<Longrightarrow> (\<And>b x. (C_write fd b, x) \<notin> set h1) \<Longrightarrow> b \<noteq> [] \<Longrightarrow>
      \<not> would_block (os ((h @ [(C_select n rd wr ex tm, r)]) @ h1) (C_write fd b)) \<and> rv (os ((h @ [(C_select n rd wr ex tm, r)]) @ h1) (C_write fd b)) \<noteq> 0"
  using assms unfolding ready_ok_def Let_def by (simp; blast)+

text \<open>The writing half of a pass: something is written when \<open>select\<close> (the result \<open>r\<close>) found a descriptor with data
  waiting for it writable.\<close>

lemma nb_writes_wp:
  fixes t :: "'z proc_scheme"
  assumes env: "relay_env os sockfd N0 N1" and t: "calls t = h0 @ new" and okst: "nb_ok sockfd st new"
    and sel: "calls t = (h @ [(C_select n rd wr ex tm, r)]) @ h1" "\<And>fd b x. (C_write fd b, x) \<notin> set h1" "set (out_ints 1 r) \<subseteq> set ws"
  shows "wp (cbind (nb_write_stdout os ws st) (\<lambda>st. nb_write_sock os sockfd ws st)) (relay_post h0 sockfd (\<lambda>st' t'. \<exists>new'. calls t' = h0 @ new' \<and> nb_ok sockfd st' new' \<and>
      nb_todo sockfd N0 N1 st' (calls t') \<le> nb_todo sockfd N0 N1 st (calls t) \<and>
      (1 \<in> set (out_ints 1 r) \<and> nb_pending (fr_buf st) \<noteq> [] \<or> sockfd \<in> set (out_ints 1 r) \<and> nb_pending (to_buf st) \<noteq> [] \<longrightarrow>
         nb_todo sockfd N0 N1 st' (calls t') < nb_todo sockfd N0 N1 st (calls t)))) t"
proof (rule relay_bind[OF nb_write_stdout_wp[OF env t okst]], clarify)
  fix st3 w3 and t3 :: "'z proc_scheme"
  let ?todo = "nb_todo sockfd N0 N1"
  assume 3: "calls t3 = calls t @ w3" "nb_ok sockfd st3 (new @ w3)" "\<forall>p \<in> set w3. \<exists>m. fst p = C_write 1 m" "to_buf st3 = to_buf st"
    "?todo st3 (calls t3) \<le> ?todo st (calls t)"
    "let r = os (calls t) (C_write 1 (nb_pending (fr_buf st))) in 1 \<in> set ws \<and> nb_pending (fr_buf st) \<noteq> [] \<and> \<not> would_block r \<and> rv r \<noteq> 0 \<longrightarrow>
       ?todo st3 (calls t3) < ?todo st (calls t)"
  have e: "sockfd \<noteq> 1" "ready_ok os" using env by (auto simp: relay_env_def)
  have c3: "calls t3 = h0 @ (new @ w3)" "calls t3 = (h @ [(C_select n rd wr ex tm, r)]) @ (h1 @ w3)" using 3(1) t sel(1) by simp_all
  note rdy = ready_okD(2)[OF e(2), where h = h and r = r and n = n and rd = rd and wr = wr and ex = ex and tm = tm]
  have first: "?todo st3 (calls t3) < ?todo st (calls t)" if "1 \<in> set (out_ints 1 r)" "nb_pending (fr_buf st) \<noteq> []"
    using 3(6) that sel(2,3) rdy[of 1 h1 "nb_pending (fr_buf st)", folded sel(1)] by (auto simp: Let_def)
  have second: "\<not> would_block (os (calls t3) (C_write sockfd b)) \<and> rv (os (calls t3) (C_write sockfd b)) \<noteq> 0"
    if "sockfd \<in> set (out_ints 1 r)" "b \<noteq> []" for b
    unfolding c3(2) by (rule rdy) (use that sel(2) 3(3) e(1) in force)+
  show "wp (nb_write_sock os sockfd ws st3) (relay_post h0 sockfd (\<lambda>st' t'. \<exists>new'. calls t' = h0 @ new' \<and> nb_ok sockfd st' new' \<and>
      ?todo st' (calls t') \<le> ?todo st (calls t) \<and>
      (1 \<in> set (out_ints 1 r) \<and> nb_pending (fr_buf st) \<noteq> [] \<or> sockfd \<in> set (out_ints 1 r) \<and> nb_pending (to_buf st) \<noteq> [] \<longrightarrow>
         ?todo st' (calls t') < ?todo st (calls t)))) t3"
  proof (rule wp_mono[OF nb_write_sock_wp[OF env c3(1) 3(2)]], goal_cases)
    case (1 x t4)
    show ?case
    proof (cases x)
      case (Ret st4)
      with 1 obtain w4 where 4: "calls t4 = calls t3 @ w4" "nb_ok sockfd st4 ((new @ w3) @ w4)" "?todo st4 (calls t4) \<le> ?todo st3 (calls t3)"
        "let r = os (calls t3) (C_write sockfd (nb_pending (to_buf st3))) in sockfd \<in> set ws \<and> nb_pending (to_buf st3) \<noteq> [] \<and> \<not> would_block r \<and> rv r \<noteq> 0 \<longrightarrow>
           ?todo st4 (calls t4) < ?todo st3 (calls t3)" by auto
      have "?todo st4 (calls t4) < ?todo st3 (calls t3)" if "sockfd \<in> set (out_ints 1 r)" "nb_pending (to_buf st) \<noteq> []"
        using 4(4) second[OF that] that sel(3) 3(4) by (auto simp: Let_def)
      with first 3(5) 4(3) have "?todo st4 (calls t4) \<le> ?todo st (calls t)"
        "1 \<in> set (out_ints 1 r) \<and> nb_pending (fr_buf st) \<noteq> [] \<or> sockfd \<in> set (out_ints 1 r) \<and> nb_pending (to_buf st) \<noteq> [] \<longrightarrow>
         ?todo st4 (calls t4) < ?todo st (calls t)" by linarith+
      moreover have "calls t4 = h0 @ ((new @ w3) @ w4)" using 4(1) c3(1) by simp
      ultimately show ?thesis using 4(2) Ret by auto
    qed (use 1 in auto)
  qed
qed

text \<open>One pass of the loop keeps the books, and something gets done in it.\<close>

lemma nb_round_go:
  fixes t :: "'z proc_scheme"
  assumes env: "relay_env os sockfd N0 N1" and t: "calls t = h0 @ new" and okst: "nb_ok sockfd st new"
    and sel: "calls t = h @ [(C_select n (nb_rset sockfd st) (nb_wset sockfd st) ex None, r)]"
      "set (out_ints 0 r) \<subseteq> set (nb_rset sockfd st)" "set (out_ints 1 r) \<subseteq> set (nb_wset sockfd st)" "out_ints 0 r \<noteq> [] \<or> out_ints 1 r \<noteq> []"
  shows "wp (cbind (nb_read_stdin os sockfd (out_ints 0 r) (out_ints 1 r) st) (\<lambda>(st, ws).
     cbind (nb_read_sock os sockfd (out_ints 0 r) ws st) (\<lambda>(over, st, ws).
     if over then creturn (True, st)
     else cbind (cbind (nb_write_stdout os ws st) (\<lambda>st. nb_write_sock os sockfd ws st)) (\<lambda>st. creturn (False, st)))))
    (relay_post h0 sockfd (\<lambda>(over, st') t'. \<exists>new'. calls t' = h0 @ new' \<and> nb_ok sockfd st' new' \<and> (over \<longrightarrow> stdineof st' \<and> at_eof sockfd new') \<and>
      (\<not> over \<longrightarrow> nb_todo sockfd N0 N1 st' (calls t') < nb_todo sockfd N0 N1 st (calls t)))) t" (is "wp _ ?Q t")
proof -
  let ?rs = "out_ints 0 r" and ?ws = "out_ints 1 r" and ?todo = "nb_todo sockfd N0 N1"
  have e: "sockfd \<noteq> 0" "sockfd \<noteq> 1" "ready_ok os" using env by (auto simp: relay_env_def)
  have rs: "\<not> stdineof st" if "0 \<in> set ?rs" using sel(2) that e(1) by (auto simp: nb_rset_def split: if_splits)
  have ws: "1 \<in> set ?ws \<Longrightarrow> nb_pending (fr_buf st) \<noteq> []" "sockfd \<in> set ?ws \<Longrightarrow> nb_pending (to_buf st) \<noteq> []"
    using sel(3) e(2) okst length_nb_pending[of "fr_buf st"] length_nb_pending[of "to_buf st"]
    by (auto simp: nb_wset_def nb_ok_def nb_inv_def split: if_splits)
  obtain fd where "fd \<in> set ?rs \<or> fd \<in> set ?ws" using sel(4) by (meson ex_in_conv set_empty)
  then have some: "0 \<in> set ?rs \<or> sockfd \<in> set ?rs \<or> 1 \<in> set ?ws \<or> sockfd \<in> set ?ws"
    using sel(2,3) by (auto simp: nb_rset_def nb_wset_def split: if_splits)
  note rdy = ready_okD(1)[OF e(3), where h = h and r = r and n = n and rd = "nb_rset sockfd st" and wr = "nb_wset sockfd st"
      and ex = ex and tm = None, folded sel(1)]
  show ?thesis
  proof (rule relay_bind[OF nb_read_stdin_wp[OF env t okst rs]], assumption, clarify)
    fix st1 ws1 w1 and t1 :: "'z proc_scheme"
    assume 1: "calls t1 = calls t @ w1" "nb_ok sockfd st1 (new @ w1)"
      "\<forall>p \<in> set w1. (\<exists>m. fst p = C_read 0 m) \<or> (\<exists>x vs. fst p = C_lib x vs)" "set ?ws \<subseteq> set ws1" "fr_buf st1 = fr_buf st"
      "nb_pending (to_buf st) \<noteq> [] \<longrightarrow> nb_pending (to_buf st1) \<noteq> []" "?todo st1 (calls t1) \<le> ?todo st (calls t)"
      "0 \<in> set ?rs \<and> \<not> would_block (os (calls t) (C_read 0 (MAXLINE - iptr (to_buf st)))) \<longrightarrow> ?todo st1 (calls t1) < ?todo st (calls t)"
    have c1: "calls t1 = h0 @ (new @ w1)" using 1(1) t by simp
    have p1: "?todo st1 (calls t1) < ?todo st (calls t)" if "0 \<in> set ?rs" using 1(8) that rdy[of 0 "[]"] by simp
    show "wp (cbind (nb_read_sock os sockfd ?rs ws1 st1) (\<lambda>(over, st, ws).
       if over then creturn (True, st)
       else cbind (cbind (nb_write_stdout os ws st) (\<lambda>st. nb_write_sock os sockfd ws st)) (\<lambda>st. creturn (False, st)))) ?Q t1"
    proof (rule relay_bind[OF nb_read_sock_wp[OF env c1 1(2)]], clarify, rule wp_ifI)
      fix over st2 ws2 w2 and t2 :: "'z proc_scheme"
      assume 2: "calls t2 = calls t1 @ w2" "nb_ok sockfd st2 ((new @ w1) @ w2)"
        "\<forall>p \<in> set w2. \<exists>m. fst p = C_read sockfd m" "set ws1 \<subseteq> set ws2" "to_buf st2 = to_buf st1"
        "nb_pending (fr_buf st1) \<noteq> [] \<longrightarrow> nb_pending (fr_buf st2) \<noteq> []" "over \<longrightarrow> stdineof st2 \<and> at_eof sockfd w2"
        "?todo st2 (calls t2) \<le> ?todo st1 (calls t1)"
        "sockfd \<in> set ?rs \<and> \<not> over \<and> \<not> would_block (os (calls t1) (C_read sockfd (MAXLINE - iptr (fr_buf st1)))) \<longrightarrow>
           ?todo st2 (calls t2) < ?todo st1 (calls t1)"
      have c2: "calls t2 = h0 @ ((new @ w1) @ w2)" using 2(1) c1 by simp
      {
        assume over
        with 2(7) have "stdineof st2" "at_eof sockfd ((new @ w1) @ w2)" by (simp_all add: at_eof_append del: append_assoc)
        with c2 2(2) show "wp (creturn (True, st2)) ?Q t2" by (auto simp: wp_basic)
      next
        assume over: "\<not> over"
        have "\<not> would_block (os (calls t1) (C_read sockfd m))" if "sockfd \<in> set ?rs" for m
          unfolding 1(1) using 1(3) e(1) by (intro rdy that) force
        then have p2: "?todo st2 (calls t2) < ?todo st1 (calls t1)" if "sockfd \<in> set ?rs" using 2(9) that over by simp
        have ct2: "calls t2 = (h @ [(C_select n (nb_rset sockfd st) (nb_wset sockfd st) ex None, r)]) @ (w1 @ w2)" using 2(1) 1(1) sel(1) by simp
        have nw: "(C_write fd b, x) \<notin> set (w1 @ w2)" for fd b x using 1(3) 2(3) by force
        have pend: "1 \<in> set ?ws \<Longrightarrow> nb_pending (fr_buf st2) \<noteq> []" "sockfd \<in> set ?ws \<Longrightarrow> nb_pending (to_buf st2) \<noteq> []"
          using ws 1(5,6) 2(5,6) by auto
        show "wp (cbind (cbind (nb_write_stdout os ws2 st2) (\<lambda>st. nb_write_sock os sockfd ws2 st)) (\<lambda>st. creturn (False, st))) ?Q t2"
        proof (rule relay_bind[OF nb_writes_wp[OF env c2 2(2) ct2 nw]], goal_cases)
          case 1
          show ?case using \<open>set ?ws \<subseteq> set ws1\<close> 2(4) by blast
        next
          case (2 st4 t4)
          then have "?todo st4 (calls t4) < ?todo st (calls t)"
            using some p1 p2 pend \<open>?todo st1 (calls t1) \<le> _\<close> \<open>?todo st2 (calls t2) \<le> _\<close> by linarith
          with 2 show ?case unfolding wp_basic by auto
        qed
      }
    qed
  qed
qed

lemma nb_round_wp:
  fixes s :: "'z proc_scheme"
  assumes env: "relay_env os sockfd N0 N1" and s: "calls s = h0 @ new" and okst: "nb_ok sockfd st new"
  shows "wp (nb_round os sockfd st) (relay_post h0 sockfd (\<lambda>(over, st') t'. \<exists>new'. calls t' = h0 @ new' \<and> nb_ok sockfd st' new' \<and>
      (over \<longrightarrow> stdineof st' \<and> at_eof sockfd new') \<and>
      (\<not> over \<longrightarrow> nb_todo sockfd N0 N1 st' (calls t') < nb_todo sockfd N0 N1 st (calls s)))) s" (is "wp _ ?Q s")
proof -
  let ?c = "C_select (max (max 0 1) sockfd + 1) (nb_rset sockfd st) (nb_wset sockfd st) [] None"
  define r where "r = os (calls s) ?c"
  define t where "t = after os ?c s"
  have ct: "calls t = calls s @ [(?c, r)]" by (simp add: t_def r_def)
  have t: "calls t = h0 @ (new @ [(?c, r)])" and okt: "nb_ok sockfd st (new @ [(?c, r)])"
    using s okst by (simp_all add: ct nb_ok_def moved_single)
  have same: "nb_todo sockfd N0 N1 st (calls s) = nb_todo sockfd N0 N1 st (calls t)" by (simp add: ct nb_todo_def moved_single)
  have "select_ok os" using env by (simp add: relay_env_def)
  note sel = select_okD[OF this, of "calls s" "max (max 0 1) sockfd + 1" "nb_rset sockfd st" "nb_wset sockfd st" "[]" None, folded r_def]
  have go: "wp (cbind (nb_read_stdin os sockfd (out_ints 0 r) (out_ints 1 r) st) (\<lambda>(st, ws).
     cbind (nb_read_sock os sockfd (out_ints 0 r) ws st) (\<lambda>(over, st, ws).
     if over then creturn (True, st)
     else cbind (nb_write_stdout os ws st) (\<lambda>st. cbind (nb_write_sock os sockfd ws st) (\<lambda>st. creturn (False, st)))))) ?Q t" if "\<not> rv r < 0"
    unfolding same by (rule nb_round_go[OF env t okt ct sel, unfolded cbind_assoc]) (use that in simp_all)
  have "wp (err_sys os m) ?Q t" for m by (rule relay_err(1)[OF t nb_safe_ok[OF okt]])
  with go show ?thesis
    unfolding nb_round_def Select_def cbind_assoc wp_bind[of "call _ _"] wp_call outcome.case r_def[symmetric] t_def[symmetric]
    by (cases "rv r < 0") (simp_all add: wp_bind[of "err_sys _ _"] wp_bind[of "creturn _"] wp_basic wp_err)
qed

lemma nb_loop_wp:
  fixes s :: "'z proc_scheme"
  assumes env: "relay_env os sockfd N0 N1" and "calls s = h0 @ new" and "nb_ok sockfd st new"
  shows "wp (nb_loop os sockfd st) (relay_post h0 sockfd (\<lambda>st' t'. \<exists>new'. calls t' = h0 @ new' \<and> nb_ok sockfd st' new' \<and> stdineof st' \<and> at_eof sockfd new')) s"
  using assms(2,3)
proof (induction "nb_todo sockfd N0 N1 st (calls s)" arbitrary: st s new rule: less_induct)
  case (less st s new)
  let ?Q = "relay_post h0 sockfd (\<lambda>st' (t' :: 'z proc_scheme). \<exists>new'. calls t' = h0 @ new' \<and> nb_ok sockfd st' new' \<and> stdineof st' \<and> at_eof sockfd new')"
  have "wp (cbind (nb_round os sockfd st) (\<lambda>(over, st). if over then creturn st else nb_loop os sockfd st)) ?Q s"
    by (rule relay_bind[OF nb_round_wp[OF env less.prems]], clarify, rule wp_ifI) (auto simp: wp_basic intro!: less.hyps)
  then show ?case unfolding wp_def by (subst nb_loop.simps) simp
qed

lemma set_nonblock_wp:
  assumes "calls t = h0 @ new" and "nb_ok sockfd st new"
  shows "wp (set_nonblock os fd) (relay_post h0 sockfd (\<lambda>_ t'. \<exists>new'. calls t' = h0 @ new' \<and> nb_ok sockfd st new')) t"
proof -
  have step: "wp (Fcntl os fd cmd arg) (relay_post h0 sockfd (\<lambda>_ t'. \<exists>new'. calls t' = h0 @ new' \<and> nb_ok sockfd st new')) t"
    if "calls t = h0 @ new" "nb_ok sockfd st new" for cmd arg and t :: "'b proc_scheme" and new
  proof -
    let ?e = "(C_fcntl fd cmd arg, os (calls t) (C_fcntl fd cmd arg))"
    have t: "calls (after os (C_fcntl fd cmd arg) t) = h0 @ (new @ [?e])" "nb_ok sockfd st (new @ [?e])"
      using that by (simp_all add: nb_ok_def moved_single)
    then show ?thesis using relay_err(1)[OF t(1) nb_safe_ok[OF t(2)]]
      unfolding Fcntl_def by (auto simp: wp_bind[of "call _ _"] wp_call wp_basic wp_if)
  qed
  show ?thesis unfolding set_nonblock_def
    by (rule relay_bind[OF step[OF assms]], clarify, rule relay_bind[OF step]) (auto simp: wp_basic)
qed

text \<open>
  C11. The nonblocking client relays without loss or repetition, whatever partial reads and writes the
  kernel answers with: with input of bounded length in both directions it ends; what it wrote to the socket is
  a prefix of what it read from standard input, and what it wrote to standard output a prefix of what it read
  from the socket. When it returns, end of file was read from the socket, at most a buffer of either is
  missing, and the connection was shut down for writing exactly once if all of the input was sent, and not at all otherwise.
\<close>

theorem nonblocking_client_relays:
  assumes "sockfd \<noteq> STDIN_FILENO" "sockfd \<noteq> STDOUT_FILENO" and "read_ok os" "write_ok os" and "select_ok os" "ready_ok os"
    and "bounded_input os STDIN_FILENO N0" "bounded_input os sockfd N1"
  shows "wp (str_cli_nonb os sockfd) (\<lambda>r t. \<exists>new unsent unshown. calls t = calls s @ new \<and>
      received STDIN_FILENO new = written sockfd new @ unsent \<and> received sockfd new = written STDOUT_FILENO new @ unshown \<and>
      (case r of
        Ret _ \<Rightarrow> at_eof sockfd new \<and> length unsent \<le> MAXLINE \<and> length unshown \<le> MAXLINE \<and> fins sockfd new = (if unsent = [] then 1 else 0)
      | Exit n \<Rightarrow> n = 1 | Abort \<Rightarrow> False)) s"
proof -
  let ?st = "\<lparr>to_buf = nb_empty, fr_buf = nb_empty, stdineof = False\<rparr>" and ?h = "calls s"
  have env: "relay_env os sockfd N0 N1" using assms by (simp add: relay_env_def)
  have start: "calls s = ?h @ []" "nb_ok sockfd ?st []" by (simp_all add: nb_ok_def nb_empty_def nb_inv_def nb_pending_def)
  have "wp (str_cli_nonb os sockfd) (relay_post ?h sockfd (\<lambda>_ t'. \<exists>st' new'. calls t' = ?h @ new' \<and> nb_ok sockfd st' new' \<and> stdineof st' \<and> at_eof sockfd new')) s"
    unfolding str_cli_nonb_def
    by (rule relay_bind[OF set_nonblock_wp[OF start]], clarify, rule relay_bind[OF set_nonblock_wp], assumption+, clarify,
        rule relay_bind[OF set_nonblock_wp], assumption+, clarify, rule relay_bind[OF nb_loop_wp[OF env]], assumption+)
      (auto simp: wp_basic)
  then show ?thesis
  proof (rule wp_mono, goal_cases)
    case (1 r t)
    show ?case
    proof (cases r)
      case (Ret a)
      with 1 obtain st' new where "calls t = ?h @ new" "nb_ok sockfd st' new" "stdineof st'" "at_eof sockfd new" by auto
      moreover have "length (nb_pending b) \<le> MAXLINE" if "nb_inv b" for b using that length_nb_pending[OF that] by (auto simp: nb_inv_def)
      ultimately show ?thesis using Ret
        by (intro exI[of _ new] exI[of _ "nb_pending (to_buf st')"] exI[of _ "nb_pending (fr_buf st')"]) (simp add: nb_ok_def)
    qed (use 1 in \<open>auto simp: nb_safe_def\<close>)
  qed
qed

text \<open>A kernel that delivers all it has, and accepts all it is given.\<close>

definition open_os :: "byte list \<Rightarrow> byte list \<Rightarrow> os" where
  "open_os inp0 inp h c = (case c of
     C_read fd n \<Rightarrow> ok_bytes (take n (drop (length (received fd h)) (if fd = 0 then inp0 else inp)))
   | C_write fd bs \<Rightarrow> ok (int (length bs))
   | C_select n rd wr ex tm \<Rightarrow> if rd = [] \<and> wr = [] then fails EINTR else \<lparr>rv = int (length rd + length wr), err = None, outs = [V_ints rd, V_ints wr]\<rparr>
   | _ \<Rightarrow> ok 0)"

lemma open_os_stream: "read_ok (open_os a b)" "write_ok (open_os a b)" "bounded_input (open_os a b) 0 (length a)"
  by (auto simp: read_ok_def write_ok_def bounded_input_def open_os_def sysret_defs Let_def)

lemma open_os_bounded: "fd \<noteq> 0 \<Longrightarrow> bounded_input (open_os a b) fd (length b)"
  by (auto simp: bounded_input_def open_os_def sysret_defs Let_def)

lemma open_os_select: "select_ok (open_os a b)"
proof -
  have "set (out_ints 0 r) \<subseteq> set rd \<and> set (out_ints 1 r) \<subseteq> set wr \<and> (out_ints 0 r \<noteq> [] \<or> out_ints 1 r \<noteq> [])"
    if "r = open_os a b h (C_select n rd wr ex tm)" "0 \<le> rv r" for r h n rd wr ex tm
  proof (cases "rd = [] \<and> wr = []")
    case True
    with that show ?thesis by (simp add: open_os_def fails_def)
  next
    case False
    then have "r = \<lparr>rv = int (length rd + length wr), err = None, outs = [V_ints rd, V_ints wr]\<rparr>"
      unfolding that(1) open_os_def ccall.case by (rule if_not_P)
    then have "out_ints 0 r = rd" "out_ints 1 r = wr" by (simp_all add: out_ints_def)
    with False show ?thesis by simp
  qed
  then show ?thesis unfolding select_ok_def Let_def by blast
qed

lemma open_os_ready: "ready_ok (open_os a b)"
  unfolding ready_ok_def would_block_def open_os_def ccall.case Let_def
  by (auto simp: ok_bytes_def ok_def)

theorem nonblocking_client_relays_witness:
  "wp (str_cli_nonb (open_os [104, 105] [33]) 3) (\<lambda>r t. \<exists>new unsent unshown. calls t = calls fresh_proc @ new \<and>
      received STDIN_FILENO new = written 3 new @ unsent \<and> received 3 new = written STDOUT_FILENO new @ unshown \<and>
      (case r of
        Ret _ \<Rightarrow> at_eof 3 new \<and> length unsent \<le> MAXLINE \<and> length unshown \<le> MAXLINE \<and> fins 3 new = (if unsent = [] then 1 else 0)
      | Exit n \<Rightarrow> n = 1 | Abort \<Rightarrow> False)) fresh_proc"
  by (rule nonblocking_client_relays[OF _ _ open_os_stream(1,2) open_os_select open_os_ready open_os_stream(3) open_os_bounded]) simp_all

text \<open>A standard output that takes nothing, and is never reported writable, while the server sends one byte and closes.\<close>

definition stuck_stdout :: os where
  "stuck_stdout h c = (case c of
     C_read fd n \<Rightarrow> ok_bytes (if fd = 3 \<and> received 3 h = [] then [65] else [])
   | C_write fd bs \<Rightarrow> fails EWOULDBLOCK
   | C_select n rd wr ex tm \<Rightarrow> if rd = [] then fails EINTR else \<lparr>rv = int (length rd), err = None, outs = [V_ints rd, V_ints []]\<rparr>
   | _ \<Rightarrow> ok 0)"

definition one_byte :: nbstate where
  "one_byte = \<lparr>to_buf = nb_empty, fr_buf = nb_fill nb_empty [65], stdineof = True\<rparr>"

lemma one_byte_sizes: "iptr nb_empty = 0" "optr nb_empty = 0" "iptr (nb_fill nb_empty [65]) = 1" "optr (nb_fill nb_empty [65]) = 0" "0 < MAXLINE" "Suc 0 < MAXLINE"
  by (simp_all add: nb_empty_def nb_fill_def MAXLINE_def)

lemma stuck_select: "out_ints 0 (stuck_stdout h (C_select n (x # rd) wr ex tm)) = x # rd" "out_ints 1 (stuck_stdout h (C_select n (x # rd) wr ex tm)) = []"
  "out_ints (Suc 0) (stuck_stdout h (C_select n (x # rd) wr ex tm)) = []" "\<not> rv (stuck_stdout h (C_select n (x # rd) wr ex tm)) < 0"
  by (simp_all add: stuck_stdout_def out_ints_def)

lemma stuck_calls:
  "stuck_stdout h (C_read 0 n) = ok_bytes []" "received 3 h = [] \<Longrightarrow> stuck_stdout h (C_read 3 n) = ok_bytes [65]"
  "received 3 h = [65] \<Longrightarrow> stuck_stdout h (C_read 3 n) = ok_bytes []" "stuck_stdout h (C_write fd bs) = fails EWOULDBLOCK"
  "stuck_stdout h (C_lib f xs) = ok 0" "stuck_stdout h (C_fcntl fd i j) = ok 0"
  by (simp_all add: stuck_stdout_def)

lemma result_simps: "rv (ok_bytes bs) = int (length bs)" "out_bytes (ok_bytes bs) = bs" "rv (ok n) = n" "rv (fails e) = - 1" "err (fails e) = Some e"
  by (simp_all add: sysret_defs)

lemma moved_Cons:
  "received fd (p # h) = received fd [p] @ received fd h" "written fd (p # h) = written fd [p] @ written fd h" if "h \<noteq> []"
  using rd.moved_append[of fd "[p]" h] wr.moved_append[of fd "[p]" h] by simp_all

lemmas stuck_simps = stuck_select stuck_calls result_simps moved_Cons moved_single one_byte_sizes errno_after

lemma stuck_first_round:
  assumes "received 3 (calls s) = []"
  shows "\<exists>t. nb_round stuck_stdout 3 \<lparr>to_buf = nb_empty, fr_buf = nb_empty, stdineof = False\<rparr> s = Some (Ret (False, one_byte), t) \<and>
    received 3 (calls t) = [65] \<and> written 1 (calls t) = written 1 (calls s)"
proof -
  let ?s1 = "after stuck_stdout (C_select 4 [0, 3] [] [] None) s" and ?st = "\<lparr>to_buf = nb_empty, fr_buf = nb_empty, stdineof = True\<rparr>"
  have 1: "Select stuck_stdout (max (max 0 1) 3 + 1) [0, 3] [] [] None s = Some (Ret (stuck_stdout (calls s) (C_select 4 [0, 3] [] [] None)), ?s1)"
    by (simp add: Select_def stuck_simps)
  let ?s2 = "after stuck_stdout (C_lib ''shutdown'' [V_int 3, V_int 1]) (after stuck_stdout (C_read 0 MAXLINE) ?s1)"
  have 2: "nb_read_stdin stuck_stdout 3 [0, 3] [] (?st\<lparr>stdineof := False\<rparr>) ?s1 = Some (Ret (?st, []), ?s2)"
    by (simp add: nb_read_stdin_def Shutdown_def stuck_simps)
  have r: "received 3 (calls ?s2) = []" using assms by (simp add: stuck_simps)
  let ?s3 = "after stuck_stdout (C_read 3 MAXLINE) ?s2"
  have 3: "nb_read_sock stuck_stdout 3 [0, 3] [] ?st ?s2 = Some (Ret (False, one_byte, [1]), ?s3)"
    using r by (simp add: nb_read_sock_def one_byte_def stuck_simps del: calls_after)
  let ?s4 = "after stuck_stdout (C_write 1 (nb_pending (fr_buf one_byte))) ?s3"
  have 4: "nb_write_stdout stuck_stdout [1] one_byte ?s3 = Some (Ret one_byte, ?s4)"
    by (simp add: nb_write_stdout_def one_byte_def stuck_simps)
  have 5: "nb_write_sock stuck_stdout 3 [1] one_byte ?s4 = Some (Ret one_byte, ?s4)" by (simp add: nb_write_sock_def)
  have "received 3 (calls ?s4) = [65]" "written 1 (calls ?s4) = written 1 (calls s)" using assms by (simp_all add: stuck_simps)
  moreover have "nb_round stuck_stdout 3 (?st\<lparr>stdineof := False\<rparr>) s = Some (Ret (False, one_byte), ?s4)"
    using 1 2 3 4 5 by (simp add: nb_round_def nb_rset_def nb_wset_def stuck_simps)
  ultimately show ?thesis by auto
qed

lemma stuck_second_round:
  assumes "received 3 (calls s) = [65]"
  shows "\<exists>t. nb_round stuck_stdout 3 one_byte s = Some (Ret (True, one_byte), t) \<and> received 3 (calls t) = [65] \<and> written 1 (calls t) = written 1 (calls s)"
proof -
  let ?s1 = "after stuck_stdout (C_select 4 [3] [1] [] None) s"
  have 1: "Select stuck_stdout (max (max 0 1) 3 + 1) [3] [1] [] None s = Some (Ret (stuck_stdout (calls s) (C_select 4 [3] [1] [] None)), ?s1)"
    by (simp add: Select_def stuck_simps)
  have 2: "nb_read_stdin stuck_stdout 3 [3] [] one_byte ?s1 = Some (Ret (one_byte, []), ?s1)" by (simp add: nb_read_stdin_def)
  have r: "received 3 (calls ?s1) = [65]" using assms by (simp add: stuck_simps)
  let ?s3 = "after stuck_stdout (C_read 3 (MAXLINE - 1)) ?s1"
  have 3: "nb_read_sock stuck_stdout 3 [3] [] one_byte ?s1 = Some (Ret (True, one_byte, []), ?s3)"
    using r by (simp add: nb_read_sock_def one_byte_def stuck_simps del: calls_after)
  have "received 3 (calls ?s3) = [65]" "written 1 (calls ?s3) = written 1 (calls s)" using assms by (simp_all add: stuck_simps)
  moreover have "nb_round stuck_stdout 3 one_byte s = Some (Ret (True, one_byte), ?s3)"
    using 1 2 3 by (simp add: nb_round_def nb_rset_def nb_wset_def one_byte_def stuck_simps)
  ultimately show ?thesis by auto
qed

text \<open>
  C21. The nonblocking client can lose output: with such a standard output it returns normally although
  the byte it read from the socket was never written.
\<close>

theorem nonblocking_client_loses:
  "\<exists>t. str_cli_nonb stuck_stdout 3 fresh_proc = Some (Ret (), t) \<and> received 3 (calls t) = [65] \<and> written STDOUT_FILENO (calls t) = []"
proof -
  have fc: "\<exists>t. set_nonblock stuck_stdout fd s = Some (Ret (), t) \<and> received 3 (calls t) = received 3 (calls s) \<and> written 1 (calls t) = written 1 (calls s)"
    for fd and s :: proc by (simp add: set_nonblock_def Fcntl_def stuck_simps)
  obtain s1 where 1: "set_nonblock stuck_stdout 3 fresh_proc = Some (Ret (), s1)" "received 3 (calls s1) = []" "written 1 (calls s1) = []"
    using fc[of 3 fresh_proc] by (auto simp: fresh_proc_def)
  obtain s2 where 2: "set_nonblock stuck_stdout 0 s1 = Some (Ret (), s2)" "received 3 (calls s2) = []" "written 1 (calls s2) = []" using fc[of 0 s1] 1 by auto
  obtain s3 where 3: "set_nonblock stuck_stdout 1 s2 = Some (Ret (), s3)" "received 3 (calls s3) = []" "written 1 (calls s3) = []" using fc[of 1 s2] 2 by auto
  obtain s4 where 4: "nb_round stuck_stdout 3 \<lparr>to_buf = nb_empty, fr_buf = nb_empty, stdineof = False\<rparr> s3 = Some (Ret (False, one_byte), s4)"
    "received 3 (calls s4) = [65]" "written 1 (calls s4) = []" using stuck_first_round[OF 3(2)] 3(3) by auto
  obtain s5 where 5: "nb_round stuck_stdout 3 one_byte s4 = Some (Ret (True, one_byte), s5)" "received 3 (calls s5) = [65]" "written 1 (calls s5) = []"
    using stuck_second_round[OF 4(2)] 4(3) by auto
  have "nb_loop stuck_stdout 3 one_byte s4 = Some (Ret one_byte, s5)" using 5 by (subst nb_loop.simps) simp
  with 4 have "nb_loop stuck_stdout 3 \<lparr>to_buf = nb_empty, fr_buf = nb_empty, stdineof = False\<rparr> s3 = Some (Ret one_byte, s5)" by (subst nb_loop.simps) simp
  with 1 2 3 5 show ?thesis by (simp add: str_cli_nonb_def)
qed

end
