(* ===== verification/Relay_Select.thy ===== *)
theory Relay_Select
  imports Relay
begin

text \<open>
  The blocking stream client select/strcliselect02.c, with the books of the nonblocking one: what was read
  in either direction has been written, after every pass of the loop.
\<close>

section \<open>select/strcliselect02.c\<close>

partial_function (option) str_cli_select ::
    "os \<Rightarrow> int \<Rightarrow> int \<Rightarrow> bool \<Rightarrow> 'z proc_scheme \<Rightarrow> (unit outcome \<times> 'z proc_scheme) option" where
  "str_cli_select os fp sockfd eof s =
     cbind (Select os (max fp sockfd + 1) ((if \<not> eof then [fp] else []) @ [sockfd]) [] [] None) (\<lambda>r.
     cbind (if sockfd \<in> set (out_ints 0 r) then
              cbind (Read os sockfd MAXLINE) (\<lambda>n.
              if rv n = 0 then if eof then creturn True else err_quit os ''str_cli: server terminated prematurely''
              else cbind (Write os STDOUT_FILENO (out_bytes n)) (\<lambda>_. creturn False))
            else creturn False) (\<lambda>over.
     if over then creturn ()
     else if fp \<in> set (out_ints 0 r) then
       cbind (Read os fp MAXLINE) (\<lambda>n.
       if rv n = 0 then cbind (Shutdown os sockfd SHUT_WR) (\<lambda>_. str_cli_select os fp sockfd True)
       else cbind (Writen os sockfd (out_bytes n)) (\<lambda>_. str_cli_select os fp sockfd eof))
     else str_cli_select os fp sockfd eof)) s"

section \<open>What is relayed\<close>

definition sel_books :: "int \<Rightarrow> bool \<Rightarrow> hist \<Rightarrow> bool" where
  "sel_books sockfd eof new \<longleftrightarrow> received STDIN_FILENO new = written sockfd new \<and> received sockfd new = written STDOUT_FILENO new \<and>
     fins sockfd new = (if eof then 1 else 0)"

definition sel_todo :: "int \<Rightarrow> nat \<Rightarrow> nat \<Rightarrow> bool \<Rightarrow> hist \<Rightarrow> nat" where
  "sel_todo sockfd N0 N1 eof h = (N0 - length (received STDIN_FILENO h)) + (N1 - length (received sockfd h)) + (if eof then 0 else 1)"

lemma sel_safe: "sel_books sockfd eof new \<Longrightarrow> nb_safe sockfd new"
  by (simp add: sel_books_def nb_safe_def)

lemma fins_only_writes [simp]: "only_writes f h \<Longrightarrow> fins fd h = 0"
  by (induction h) (auto simp: fins_def is_fin_def)

lemma sel_sock_wp:
  fixes t :: "'z proc_scheme"
  assumes env: "sockfd \<noteq> 0" "sockfd \<noteq> 1" "read_ok os" "write_ok os" "bounded_input os sockfd N1"
    and t: "calls t = h0 @ new" and okst: "sel_books sockfd eof new"
  shows "wp (if sockfd \<in> set rs then
              cbind (Read os sockfd MAXLINE) (\<lambda>n.
              if rv n = 0 then if eof then creturn True else err_quit os ''str_cli: server terminated prematurely''
              else cbind (Write os STDOUT_FILENO (out_bytes n)) (\<lambda>_. creturn False))
            else creturn False)
    (relay_post h0 sockfd (\<lambda>over t'. \<exists>new'. calls t' = h0 @ new' \<and> sel_books sockfd eof new' \<and> (over \<longrightarrow> eof \<and> at_eof sockfd new') \<and>
       sel_todo sockfd N0 N1 eof (calls t') \<le> sel_todo sockfd N0 N1 eof (calls t) \<and>
       (sockfd \<in> set rs \<and> \<not> over \<longrightarrow> sel_todo sockfd N0 N1 eof (calls t') < sel_todo sockfd N0 N1 eof (calls t)))) t" (is "wp _ ?Q t")
proof (rule wp_ifI)
  assume "sockfd \<in> set rs"
  show "wp (cbind (Read os sockfd MAXLINE) (\<lambda>n.
              if rv n = 0 then if eof then creturn True else err_quit os ''str_cli: server terminated prematurely''
              else cbind (Write os STDOUT_FILENO (out_bytes n)) (\<lambda>_. creturn False))) ?Q t"
  proof (rule relay_bind[OF relay.Read_wp[OF env(3) t sel_safe[OF okst]]], elim conjE)
    fix r and u :: "'z proc_scheme"
    let ?c = "C_read sockfd MAXLINE"
    assume u: "calls u = calls t @ [(?c, r)]" and r: "r = os (calls t) ?c" "0 \<le> rv r" "length (out_bytes r) = nat (rv r)"
    have hu: "calls u = h0 @ (new @ [(?c, r)])" using u t by simp
    show "wp (if rv r = 0 then if eof then creturn True else err_quit os ''str_cli: server terminated prematurely''
              else cbind (Write os STDOUT_FILENO (out_bytes r)) (\<lambda>_. creturn False)) ?Q u"
    proof (rule wp_ifI)
      assume z: "rv r = 0"
      then have b: "sel_books sockfd eof (new @ [(?c, r)])" using okst env(1) by (simp add: sel_books_def moved_single)
      have same: "sel_todo sockfd N0 N1 eof (calls u) = sel_todo sockfd N0 N1 eof (calls t)"
        using z env(1) unfolding u by (simp add: sel_todo_def moved_single)
      have "at_eof sockfd (new @ [(?c, r)])" using z by (auto simp: at_eof_def)
      then show "wp (if eof then creturn True else err_quit os ''str_cli: server terminated prematurely'') ?Q u"
        using relay_err(2)[OF hu sel_safe[OF b]] b hu same by (cases eof) (auto simp: wp_basic)
    next
      assume nz: "rv r \<noteq> 0"
      let ?d = "C_write 1 (out_bytes r)"
      define q where "q = os (calls u) ?d"
      define v where "v = after os ?d u"
      have n: "length (received sockfd (calls t)) + nat (rv r) \<le> N1" using env(5) nz r by (auto simp: bounded_input_def)
      have cv: "calls v = calls t @ [(?c, r)] @ [(?d, q)]" unfolding v_def q_def calls_after u by simp
      then have hv: "calls v = h0 @ (new @ [(?c, r)] @ [(?d, q)])" using t by simp
      define w where "w = (if 0 < rv q then take (nat (rv q)) (out_bytes r) else [])"
      have moved: "received 0 ([(?c, r)] @ [(?d, q)]) = []" "received sockfd ([(?c, r)] @ [(?d, q)]) = out_bytes r"
        "written sockfd ([(?c, r)] @ [(?d, q)]) = []" "written 1 ([(?c, r)] @ [(?d, q)]) = w"
        "fins sockfd ([(?c, r)] @ [(?d, q)]) = 0"
        using env(1,2) nz r(2) unfolding rd.moved_append wr.moved_append fins_append w_def by (simp_all add: moved_single)
      obtain rest where "out_bytes r = w @ rest"
      proof (cases "0 < rv q")
        case True
        then show ?thesis using that[of "drop (nat (rv q)) (out_bytes r)"] unfolding w_def by (simp only: append_take_drop_id if_True)
      next
        case False
        then show ?thesis using that[of "out_bytes r"] by (simp add: w_def)
      qed
      then have sf: "nb_safe sockfd (new @ [(?c, r)] @ [(?d, q)])"
        using okst unfolding sel_books_def nb_safe_def rd.moved_append[of _ new] wr.moved_append[of _ new] moved by simp
      have books: "sel_books sockfd eof (new @ [(?c, r)] @ [(?d, q)])" if "rv q = int (length (out_bytes r))"
        using okst nz r(2,3) that unfolding sel_books_def rd.moved_append[of _ new] wr.moved_append[of _ new] fins_append(1)[of _ new] moved by (simp add: w_def)
      have todo: "sel_todo sockfd N0 N1 eof (calls v) < sel_todo sockfd N0 N1 eof (calls t)"
        using n nz r(2,3) unfolding sel_todo_def cv rd.moved_append[of _ "calls t"] moved by simp
      show "wp (cbind (Write os STDOUT_FILENO (out_bytes r)) (\<lambda>_. creturn False)) ?Q u"
        unfolding Write_def cbind_assoc wp_bind[of "call _ _"] wp_call outcome.case q_def[symmetric] v_def[symmetric]
      proof (cases "rv q = int (length (out_bytes r))")
        case True
        then have "\<exists>new'. calls v = h0 @ new' \<and> sel_books sockfd eof new'" using hv books by blast
        then show "wp (cbind (if rv q \<noteq> int (length (out_bytes r)) then err_sys os ''write error'' else creturn ()) (\<lambda>_. creturn False)) ?Q v"
          using True todo by (simp add: wp_bind[of "creturn _"] wp_basic less_imp_le)
      next
        case False
        then show "wp (cbind (if rv q \<noteq> int (length (out_bytes r)) then err_sys os ''write error'' else creturn ()) (\<lambda>_. creturn False)) ?Q v"
          using relay_err(1)[OF hv sf, where P = "\<lambda>_ _. True"] by (simp add: wp_bind[of "err_sys _ _"] wp_err)
      qed
    qed
  qed
qed (use t okst in \<open>auto simp: wp_basic\<close>)

text \<open>The other half of a pass, with what follows it as \<open>k\<close>.\<close>

lemma sel_stdin_wp:
  fixes t :: "'z proc_scheme"
  assumes env: "sockfd \<noteq> 0" "sockfd \<noteq> 1" "read_ok os" "write_ok os" "\<And>bs. fair os (C_write sockfd bs)" "bounded_input os 0 N0"
    and t: "calls t = h0 @ new" and okst: "sel_books sockfd eof new" and eof: "\<not> eof"
    and k: "\<And>eof' u new'. calls u = h0 @ new' \<Longrightarrow> sel_books sockfd eof' new' \<Longrightarrow>
       sel_todo sockfd N0 N1 eof' (calls u) < sel_todo sockfd N0 N1 eof (calls t) \<Longrightarrow> wp (k eof') (relay_post h0 sockfd Q) u"
  shows "wp (cbind (Read os 0 MAXLINE) (\<lambda>n.
       if rv n = 0 then cbind (Shutdown os sockfd SHUT_WR) (\<lambda>_. k True)
       else cbind (Writen os sockfd (out_bytes n)) (\<lambda>_. k eof))) (relay_post h0 sockfd Q) t"
proof (rule relay_bind[OF relay.Read_wp[OF env(3) t sel_safe[OF okst]]], elim conjE)
  fix r and u :: "'z proc_scheme"
  let ?c = "C_read 0 MAXLINE"
  assume u: "calls u = calls t @ [(?c, r)]" and r: "r = os (calls t) ?c" "0 \<le> rv r" "length (out_bytes r) = nat (rv r)"
  have hu: "calls u = h0 @ (new @ [(?c, r)])" using u t by simp
  show "wp (if rv r = 0 then cbind (Shutdown os sockfd SHUT_WR) (\<lambda>_. k True) else cbind (Writen os sockfd (out_bytes r)) (\<lambda>_. k eof)) (relay_post h0 sockfd Q) u"
  proof (rule wp_ifI)
    assume z: "rv r = 0"
    have sf: "nb_safe sockfd (new @ [(?c, r)])" using sel_safe[OF okst] z by (simp add: nb_safe_def moved_single)
    show "wp (cbind (Shutdown os sockfd SHUT_WR) (\<lambda>_. k True)) (relay_post h0 sockfd Q) u"
    proof (rule relay_bind[OF relay_shutdown[OF hu sf]], elim exE)
      fix q :: sysret and v :: "'z proc_scheme"
      let ?f = "(C_lib ''shutdown'' [V_int sockfd, V_int SHUT_WR], q)"
      assume v: "calls v = calls u @ [?f]"
      have none: "received fd [(?c, r)] = []" "received fd [?f] = []" "written fd [(?c, r)] = []" "written fd [?f] = []"
        "fins sockfd [(?c, r)] = 0" "fins sockfd [?f] = 1" for fd using z by (simp_all add: moved_single)
      show "wp (k True) (relay_post h0 sockfd Q) v"
      proof (rule k)
        show "calls v = h0 @ ((new @ [(?c, r)]) @ [?f])" using v hu by simp
        show "sel_books sockfd True ((new @ [(?c, r)]) @ [?f])"
          using okst eof unfolding sel_books_def rd.moved_append wr.moved_append fins_append(1) none by simp
        show "sel_todo sockfd N0 N1 True (calls v) < sel_todo sockfd N0 N1 eof (calls t)"
          using eof unfolding sel_todo_def v u rd.moved_append none by simp
      qed
    qed
  next
    assume nz: "rv r \<noteq> 0"
    have n: "length (received 0 (calls t)) + nat (rv r) \<le> N0" using env(6) nz r by (auto simp: bounded_input_def)
    have one: "received 0 [(?c, r)] = out_bytes r" "received sockfd [(?c, r)] = []" "written fd [(?c, r)] = []" "fins sockfd [(?c, r)] = 0" for fd
      using nz r(2) env(1) by (simp_all add: moved_single)
    show "wp (cbind (Writen os sockfd (out_bytes r)) (\<lambda>_. k eof)) (relay_post h0 sockfd Q) u"
    proof (rule wp_bindI[OF Writen_only[OF env(4,5)]], goal_cases)
      case (1 a v)
      then obtain w where v: "calls v = calls u @ w" and w: "\<And>f. received f w = []" "\<And>f. f \<noteq> sockfd \<Longrightarrow> written f w = []" "written sockfd w = out_bytes r" "only_writes sockfd w"
        by auto
      show ?case
      proof (rule k)
        show "calls v = h0 @ ((new @ [(?c, r)]) @ w)" using v hu by simp
        show "sel_books sockfd eof ((new @ [(?c, r)]) @ w)"
          using okst w env(2) unfolding sel_books_def rd.moved_append wr.moved_append fins_append(1) one by simp
        show "sel_todo sockfd N0 N1 eof (calls v) < sel_todo sockfd N0 N1 eof (calls t)"
          using n nz r(2,3) unfolding sel_todo_def v u rd.moved_append one w(1) by simp
      qed
    next
      case (2 m v)
      then obtain w unsent where v: "calls v = calls u @ w" "m = 1" and w: "\<And>f. received f w = []" "\<And>f. f \<noteq> sockfd \<Longrightarrow> written f w = []" "out_bytes r = written sockfd w @ unsent"
        by auto
      have "nb_safe sockfd ((new @ [(?c, r)]) @ w)"
        using okst w env(2) unfolding nb_safe_def sel_books_def rd.moved_append wr.moved_append one by simp
      then show ?case using v hu by (auto intro!: exI[of _ "(new @ [(?c, r)]) @ w"])
    qed auto
  qed
qed

lemma str_cli_select_wp:
  fixes s :: "'z proc_scheme"
  assumes env: "sockfd \<noteq> 0" "sockfd \<noteq> 1" "read_ok os" "write_ok os" "\<And>bs. fair os (C_write sockfd bs)" "select_ok os" "bounded_input os 0 N0" "bounded_input os sockfd N1"
    and "calls s = h0 @ new" and "sel_books sockfd eof new"
  shows "wp (str_cli_select os 0 sockfd eof) (relay_post h0 sockfd (\<lambda>_ t. \<exists>new. calls t = h0 @ new \<and> sel_books sockfd True new \<and> at_eof sockfd new)) s"
  using assms(9,10)
proof (induction "sel_todo sockfd N0 N1 eof (calls s)" arbitrary: eof s new rule: less_induct)
  case (less eof s new)
  let ?Q = "relay_post h0 sockfd (\<lambda>_ t. \<exists>new. calls (t :: 'z proc_scheme) = h0 @ new \<and> sel_books sockfd True new \<and> at_eof sockfd new)"
  let ?rd = "(if \<not> eof then [0] else []) @ [sockfd]"
  let ?c = "C_select (max 0 sockfd + 1) ?rd [] [] None"
  define r where "r = os (calls s) ?c"
  define t where "t = after os ?c s"
  have ct: "calls t = calls s @ [(?c, r)]" by (simp add: t_def r_def)
  have t: "calls t = h0 @ (new @ [(?c, r)])" and okt: "sel_books sockfd eof (new @ [(?c, r)])"
    using less.prems by (simp_all add: ct sel_books_def moved_single)
  have same: "sel_todo sockfd N0 N1 eof (calls t) = sel_todo sockfd N0 N1 eof (calls s)" by (simp add: ct sel_todo_def moved_single)
  note sel = select_okD[OF env(6), of "calls s" "max 0 sockfd + 1" ?rd "[]" "[]" None, folded r_def]
  let ?body = "\<lambda>r. cbind (if sockfd \<in> set (out_ints 0 r) then
              cbind (Read os sockfd MAXLINE) (\<lambda>n.
              if rv n = 0 then if eof then creturn True else err_quit os ''str_cli: server terminated prematurely''
              else cbind (Write os STDOUT_FILENO (out_bytes n)) (\<lambda>_. creturn False))
            else creturn False) (\<lambda>over.
     if over then creturn ()
     else if 0 \<in> set (out_ints 0 r) then
       cbind (Read os 0 MAXLINE) (\<lambda>n.
       if rv n = 0 then cbind (Shutdown os sockfd SHUT_WR) (\<lambda>_. str_cli_select os 0 sockfd True)
       else cbind (Writen os sockfd (out_bytes n)) (\<lambda>_. str_cli_select os 0 sockfd eof))
     else str_cli_select os 0 sockfd eof)"
  have go: "wp (?body r) ?Q t" if ret: "0 \<le> rv r"
  proof (rule relay_bind[OF sel_sock_wp[OF env(1-4,8) t okt, where ?N0.0 = N0]], elim exE conjE, intro wp_ifI)
    fix over new' and u :: "'z proc_scheme"
    assume u: "calls u = h0 @ new'" "sel_books sockfd eof new'" "over \<longrightarrow> eof \<and> at_eof sockfd new'"
      "sel_todo sockfd N0 N1 eof (calls u) \<le> sel_todo sockfd N0 N1 eof (calls t)"
      "sockfd \<in> set (out_ints 0 r) \<and> \<not> over \<longrightarrow> sel_todo sockfd N0 N1 eof (calls u) < sel_todo sockfd N0 N1 eof (calls t)"
    show "wp (creturn ()) ?Q u" if over using u that by (auto simp: wp_basic)
    assume over: "\<not> over"
    show "wp (str_cli_select os 0 sockfd eof) ?Q u" if "0 \<notin> set (out_ints 0 r)"
    proof (rule less.hyps[OF _ u(1,2)])
      have "sockfd \<in> set (out_ints 0 r)" using sel(1,2)[OF ret] sel(3)[OF ret] that by (cases "out_ints 0 r") (auto split: if_splits)
      with u(5) over same show "sel_todo sockfd N0 N1 eof (calls u) < sel_todo sockfd N0 N1 eof (calls s)" by simp
    qed
    assume ready: "0 \<in> set (out_ints 0 r)"
    have "\<not> eof" using sel(1)[OF ret] ready env(1) by (auto split: if_splits)
    from sel_stdin_wp[OF env(1-5,7) u(1,2) this, where ?N1.0 = N1]
    show "wp (cbind (Read os 0 MAXLINE) (\<lambda>n.
       if rv n = 0 then cbind (Shutdown os sockfd SHUT_WR) (\<lambda>_. str_cli_select os 0 sockfd True)
       else cbind (Writen os sockfd (out_bytes n)) (\<lambda>_. str_cli_select os 0 sockfd eof))) ?Q u"
      by this (rule less.hyps, use u(4) same in auto)
  qed
  have "wp (err_sys os m) ?Q t" for m by (rule relay_err(1)[OF t sel_safe[OF okt]])
  with go have "wp (cbind (Select os (max 0 sockfd + 1) ?rd [] [] None) ?body) ?Q s"
    unfolding Select_def cbind_assoc wp_bind[of "call _ _"] wp_call outcome.case r_def[symmetric] t_def[symmetric]
    by (cases "rv r < 0") (simp_all add: wp_bind[of "err_sys _ _"] wp_bind[of "creturn _"] wp_basic wp_err)
  then show ?case unfolding wp_def by (subst str_cli_select.simps) simp
qed

text \<open>
  C17. The blocking client relays everything: with input of bounded length in both directions it ends, and
  when it returns, exactly what was read from standard input was sent, exactly what came from the socket was
  shown, end of file was read from the socket, and the connection was shut down for writing once; when the
  process exits on an error, nothing was written that had not been read.
\<close>

theorem blocking_client_relays:
  assumes "sockfd \<noteq> STDIN_FILENO" "sockfd \<noteq> STDOUT_FILENO" and "read_ok os" "write_ok os" "\<And>bs. fair os (C_write sockfd bs)" "select_ok os"
    and "bounded_input os STDIN_FILENO N0" "bounded_input os sockfd N1"
  shows "wp (str_cli_select os STDIN_FILENO sockfd False) (\<lambda>r t. \<exists>new. calls t = calls s @ new \<and> (case r of
        Ret _ \<Rightarrow> received STDIN_FILENO new = written sockfd new \<and> received sockfd new = written STDOUT_FILENO new \<and>
          at_eof sockfd new \<and> fins sockfd new = 1
      | Exit n \<Rightarrow> n = 1 \<and> (\<exists>p q. received STDIN_FILENO new = written sockfd new @ p \<and> received sockfd new = written STDOUT_FILENO new @ q)
      | Abort \<Rightarrow> False)) s"
proof -
  have "calls s = calls s @ []" "sel_books sockfd False []" by (simp_all add: sel_books_def)
  from str_cli_select_wp[OF assms this] show ?thesis
    by (rule wp_mono) (auto simp: sel_books_def nb_safe_def split: outcome.splits)
qed

lemma open_os_fair: "fair (open_os a b) (C_write fd bs)"
  by (simp add: fair_def interrupted_def open_os_def ok_def)

theorem blocking_client_relays_witness:
  "wp (str_cli_select (open_os [104, 105] [33]) STDIN_FILENO 3 False) (\<lambda>r t. \<exists>new. calls t = calls fresh_proc @ new \<and> (case r of
        Ret _ \<Rightarrow> received STDIN_FILENO new = written 3 new \<and> received 3 new = written STDOUT_FILENO new \<and>
          at_eof 3 new \<and> fins 3 new = 1
      | Exit n \<Rightarrow> n = 1 \<and> (\<exists>p q. received STDIN_FILENO new = written 3 new @ p \<and> received 3 new = written STDOUT_FILENO new @ q)
      | Abort \<Rightarrow> False)) fresh_proc"
  by (rule blocking_client_relays[OF _ _ open_os_stream(1,2) open_os_fair open_os_select open_os_stream(3) open_os_bounded]) simp_all

end
