(* ===== verification/Select_Server.thy ===== *)
theory Select_Server
  imports Relay Sock_Util
begin

text \<open>
  The single-process TCP echo server tcpcliserv/tcpservselect01.c: one table of clients, one descriptor set and one
  \<open>select\<close> for the listening socket and every connection. The table keeps the size the source gives it. A
  descriptor set is a list; the source's \<open>fd_set\<close> has room for the descriptors below \<open>FD_SETSIZE\<close> only, and
  \<open>select_server_limit\<close> says when that is enough.
\<close>

section \<open>tcpcliserv/tcpservselect01.c\<close>

definition FD_SETSIZE :: nat where "FD_SETSIZE = 1024"
definition SERV_PORT :: u16 where "SERV_PORT = 9877"

record srv =
  client :: "int list"
  maxi :: int
  maxfd :: int
  allset :: "int list"

definition FD_SET :: "int \<Rightarrow> int list \<Rightarrow> int list" where
  "FD_SET fd S = (if fd \<in> set S then S else fd # S)"

definition FD_CLR :: "int \<Rightarrow> int list \<Rightarrow> int list" where
  "FD_CLR fd S = removeAll fd S"

text \<open>The first available entry, or the length of the table.\<close>

fun srv_free :: "int list \<Rightarrow> nat" where
  "srv_free [] = 0"
| "srv_free (c # cs) = (if c < 0 then 0 else Suc (srv_free cs))"

definition srv_add :: "int \<Rightarrow> srv \<Rightarrow> srv" where
  "srv_add connfd st =
     (let i = srv_free (client st) in
      st\<lparr>client := (client st)[i := connfd], allset := FD_SET connfd (allset st),
         maxfd := (if connfd > maxfd st then connfd else maxfd st),
         maxi := (if int i > maxi st then int i else maxi st)\<rparr>)"

definition srv_accept :: "os \<Rightarrow> int \<Rightarrow> srv \<Rightarrow> ('z proc_scheme, srv) cprog" where
  "srv_accept os listenfd st =
     cbind (Accept os listenfd) (\<lambda>r.
     if srv_free (client st) = FD_SETSIZE then err_quit os ''too many clients''
     else creturn (srv_add (rv r) st))"

definition srv_drop :: "nat \<Rightarrow> int \<Rightarrow> srv \<Rightarrow> srv" where
  "srv_drop i sockfd st = st\<lparr>allset := FD_CLR sockfd (allset st), client := (client st)[i := - 1]\<rparr>"

definition srv_serve :: "os \<Rightarrow> nat \<Rightarrow> int \<Rightarrow> srv \<Rightarrow> ('z proc_scheme, srv) cprog" where
  "srv_serve os i sockfd st =
     cbind (Read os sockfd MAXLINE) (\<lambda>n.
     if rv n = 0 then cbind (Close os sockfd) (\<lambda>_. creturn (srv_drop i sockfd st))
     else cbind (Writen os sockfd (out_bytes n)) (\<lambda>_. creturn st))"

text \<open>The indices still to be checked are a list.\<close>

fun srv_clients :: "os \<Rightarrow> int list \<Rightarrow> nat list \<Rightarrow> int \<Rightarrow> srv \<Rightarrow> ('z proc_scheme, srv) cprog" where
  "srv_clients os rset [] nready st = creturn st"
| "srv_clients os rset (i # is) nready st =
     (let sockfd = client st ! i in
      if sockfd < 0 then srv_clients os rset is nready st
      else if sockfd \<in> set rset then
        cbind (srv_serve os i sockfd st) (\<lambda>st.
        if nready - 1 \<le> 0 then creturn st else srv_clients os rset is (nready - 1) st)
      else srv_clients os rset is nready st)"

definition srv_scan :: "os \<Rightarrow> int list \<Rightarrow> int \<Rightarrow> srv \<Rightarrow> ('z proc_scheme, srv) cprog" where
  "srv_scan os rset nready st = srv_clients os rset [0..<nat (maxi st + 1)] nready st"

definition srv_round :: "os \<Rightarrow> int \<Rightarrow> srv \<Rightarrow> ('z proc_scheme, srv) cprog" where
  "srv_round os listenfd st =
     cbind (Select os (maxfd st + 1) (allset st) [] [] None) (\<lambda>r.
     if listenfd \<in> set (out_ints 0 r) then
       cbind (srv_accept os listenfd st) (\<lambda>st.
       if rv r - 1 \<le> 0 then creturn st else srv_scan os (out_ints 0 r) (rv r - 1) st)
     else srv_scan os (out_ints 0 r) (rv r) st)"

partial_function (option) srv_loop :: "os \<Rightarrow> int \<Rightarrow> srv \<Rightarrow> 'z proc_scheme \<Rightarrow> (unit outcome \<times> 'z proc_scheme) option" where
  "srv_loop os listenfd st s = cbind (srv_round os listenfd st) (\<lambda>st. srv_loop os listenfd st) s"

definition srv_init :: "int \<Rightarrow> srv" where
  "srv_init listenfd = \<lparr>client = replicate FD_SETSIZE (- 1), maxi = - 1, maxfd = listenfd, allset = FD_SET listenfd []\<rparr>"

definition srv_listen :: "os \<Rightarrow> ('z proc_scheme, int) cprog" where
  "srv_listen os =
     cbind (Socket os AF_INET SOCK_STREAM 0) (\<lambda>listenfd.
     cbind (Bind os listenfd (Sockaddr_in (ntohs SERV_PORT) [0, 0, 0, 0]) 16) (\<lambda>_.
     cbind (Listen os listenfd LISTENQ) (\<lambda>_. creturn listenfd)))"

definition select_server :: "os \<Rightarrow> ('z proc_scheme, unit) cprog" where
  "select_server os = cbind (srv_listen os) (\<lambda>listenfd. srv_loop os listenfd (srv_init listenfd))"

text \<open>The first \<open>n\<close> passes of the loop.\<close>

fun srv_rounds :: "os \<Rightarrow> int \<Rightarrow> nat \<Rightarrow> srv \<Rightarrow> ('z proc_scheme, srv) cprog" where
  "srv_rounds os listenfd 0 st = creturn st"
| "srv_rounds os listenfd (Suc n) st = cbind (srv_round os listenfd st) (\<lambda>st. srv_rounds os listenfd n st)"

section \<open>Histories\<close>

text \<open>The descriptors that are open after a history: the standard ones, and what \<open>socket\<close> and \<open>accept\<close> handed out
  and \<open>close\<close> has not released.\<close>

definition open_step :: "int set \<Rightarrow> ccall \<times> sysret \<Rightarrow> int set" where
  "open_step S p = (case fst p of
       C_socket f t pr \<Rightarrow> if 0 \<le> rv (snd p) then insert (rv (snd p)) S else S
     | C_accept fd \<Rightarrow> if 0 \<le> rv (snd p) then insert (rv (snd p)) S else S
     | C_close fd \<Rightarrow> S - {fd}
     | _ \<Rightarrow> S)"

definition open_fds :: "hist \<Rightarrow> int set" where
  "open_fds h = foldl open_step {0, 1, 2} h"

definition reads_of :: "hist \<Rightarrow> int list" where
  "reads_of h = concat (map (\<lambda>p. case fst p of C_read fd n \<Rightarrow> [fd] | _ \<Rightarrow> []) h)"

lemma open_fds_append: "open_fds (g @ h) = foldl open_step (open_fds g) h"
  by (simp add: open_fds_def)

lemma reads_of_append [simp]: "reads_of (g @ h) = reads_of g @ reads_of h" "reads_of [] = []"
  by (simp_all add: reads_of_def)

lemma open_step_simps [simp]:
  "open_step S (C_socket f t pr, r) = (if 0 \<le> rv r then insert (rv r) S else S)"
  "open_step S (C_accept fd, r) = (if 0 \<le> rv r then insert (rv r) S else S)"
  "open_step S (C_close fd, r) = S - {fd}"
  "open_step S (C_read fd n, r) = S" "open_step S (C_write fd bs, r) = S"
  "open_step S (C_select m rd wr ex tm, r) = S" "open_step S (C_bind fd a l, r) = S" "open_step S (C_listen fd b, r) = S"
  "open_step S (C_lib x vs, r) = S"
  by (simp_all add: open_step_def)

lemma reads_of_simps [simp]:
  "reads_of ((C_read fd n, r) # h) = fd # reads_of h" "reads_of ((C_write fd bs, r) # h) = reads_of h"
  "reads_of ((C_close fd, r) # h) = reads_of h" "reads_of ((C_accept fd, r) # h) = reads_of h"
  by (simp_all add: reads_of_def)

lemma only_writes_frame:
  assumes "only_writes fd w"
  shows "foldl open_step S w = S" and "reads_of w = []"
  using assms by (induction w arbitrary: S) auto

lemma moved_set_up [simp]:
  "written fd [(C_accept f, r)] = []" "received fd [(C_accept f, r)] = []"
  "written fd [(C_close f, r)] = []" "received fd [(C_close f, r)] = []"
  "written fd [(C_socket a b c, r)] = []" "received fd [(C_socket a b c, r)] = []"
  "written fd [(C_bind f sa l, r)] = []" "received fd [(C_bind f sa l, r)] = []"
  "written fd [(C_listen f b, r)] = []" "received fd [(C_listen f b, r)] = []"
  by (simp_all add: written_def received_def write_bytes_def read_bytes_def)

section \<open>Accepting\<close>

definition aborted :: "sysret \<Rightarrow> bool" where
  "aborted r \<longleftrightarrow> rv r < 0 \<and> (err r = Some EPROTO \<or> err r = Some ECONNABORTED)"

text \<open>\<open>accept(2)\<close>: a failure sets \<open>errno\<close>, and not every connection is aborted before it is accepted.\<close>

definition accept_ok :: "os \<Rightarrow> bool" where
  "accept_ok os \<longleftrightarrow> (\<forall>h fd. (rv (os h (C_accept fd)) < 0 \<longrightarrow> err (os h (C_accept fd)) \<noteq> None) \<and>
     (\<exists>k. \<not> aborted (os ((retry_hist os (C_accept fd) ^^ k) h) (C_accept fd))))"

text \<open>\<open>socket(2)\<close> and \<open>accept(2)\<close> return a descriptor that is not open.\<close>

definition fresh_ok :: "os \<Rightarrow> bool" where
  "fresh_ok os \<longleftrightarrow> (\<forall>h. (\<forall>fd. 0 \<le> rv (os h (C_accept fd)) \<longrightarrow> rv (os h (C_accept fd)) \<notin> open_fds h) \<and>
     (\<forall>a b c. 0 \<le> rv (os h (C_socket a b c)) \<longrightarrow> rv (os h (C_socket a b c)) \<notin> open_fds h))"

definition failed_accepts :: "int \<Rightarrow> hist \<Rightarrow> bool" where
  "failed_accepts fd h \<longleftrightarrow> (\<forall>p \<in> set h. fst p = C_accept fd \<and> rv (snd p) < 0)"

lemma failed_accepts_frame:
  assumes "failed_accepts fd w"
  shows "foldl open_step S w = S" and "reads_of w = []" and "written f w = []" and "received f w = []"
  using assms by (induction w arbitrary: S)
    (auto simp: failed_accepts_def open_step_def reads_of_def written_def received_def write_bytes_def read_bytes_def)

context exit_safe
begin

abbreviation accept_post :: "os \<Rightarrow> int \<Rightarrow> hist \<Rightarrow> sysret \<Rightarrow> 'z proc_scheme \<Rightarrow> bool" where
  "accept_post os fd h r t' \<equiv> (\<exists>w. calls t' = h @ w @ [(C_accept fd, r)] \<and> failed_accepts fd w \<and>
     0 \<le> rv r \<and> r = os (h @ w) (C_accept fd))"

lemma Accept_last:
  assumes ok: "accept_ok os" and calm_accept: "calm (C_accept fd)" and t: "calls t = h0 @ new" "safe new" and last: "\<not> aborted (os (calls t) (C_accept fd))"
  shows "wp (Accept os fd) (safe_post safe h0 (accept_post os fd (calls t))) t"
proof (cases "rv (os (calls t) (C_accept fd)) < 0")
  case True
  let ?e = "(C_accept fd, os (calls t) (C_accept fd))" and ?u = "after os (C_accept fd) t"
  have u: "calls ?u = h0 @ (new @ [?e])" "safe (new @ [?e])" using t calm_accept by (simp_all add: calm)
  have "err (os (calls t) (C_accept fd)) \<noteq> None" using ok True by (simp add: accept_ok_def)
  then have "\<not> accept_transient os fd t"
    using last True by (auto simp: accept_transient_def aborted_def errno_after)
  from Accept_failure[OF True this] show ?thesis
    using err(1)[OF u, where msg = "''accept error''" and os = os] by (simp add: wp_def wp_err)
next
  case False
  then show ?thesis using Accept_success[of os t fd] by (auto simp: wp_def failed_accepts_def intro!: exI[of _ "[]"])
qed

lemma Accept_wp:
  fixes t :: "'z proc_scheme"
  assumes ok: "accept_ok os" and calm_accept: "calm (C_accept fd)" and "calls t = h0 @ new" and "safe new"
  shows "wp (Accept os fd) (safe_post safe h0 (accept_post os fd (calls t))) t"
proof -
  obtain k where "\<not> aborted (os ((retry_hist os (C_accept fd) ^^ k) (calls t)) (C_accept fd))"
    using ok by (auto simp: accept_ok_def)
  then show ?thesis using assms(3,4)
  proof (induction k arbitrary: t new)
    case (0 t new)
    then show ?case by (intro Accept_last[OF ok calm_accept]) simp_all
  next
    case (Suc k t new)
    let ?r = "os (calls t) (C_accept fd)" and ?u = "after os (C_accept fd) t"
    show ?case
    proof (cases "aborted ?r")
      case True
      then have tr: "accept_transient os fd t" and neg: "rv ?r < 0" by (auto simp: accept_transient_def aborted_def errno_after)
      have "\<not> aborted (os ((retry_hist os (C_accept fd) ^^ k) (calls ?u)) (C_accept fd))"
        using Suc.prems(1) unfolding calls_after_retry by (simp add: funpow_swap1)
      moreover have "calls ?u = h0 @ (new @ [(C_accept fd, ?r)])" "safe (new @ [(C_accept fd, ?r)])"
        using Suc.prems calm_accept by (simp_all add: calm)
      ultimately have "wp (Accept os fd) (safe_post safe h0 (accept_post os fd (calls ?u))) ?u" by (rule Suc.IH)
      moreover have "accept_post os fd (calls t) r v" if later: "accept_post os fd (calls ?u) r v" for r and v :: "'z proc_scheme"
      proof -
        obtain w where "calls v = calls ?u @ w @ [(C_accept fd, r)]" "failed_accepts fd w" "0 \<le> rv r" "r = os (calls ?u @ w) (C_accept fd)"
          using later by blast
        then show ?thesis using neg by (intro exI[of _ "(C_accept fd, ?r) # w"]) (auto simp: failed_accepts_def)
      qed
      ultimately have "wp (Accept os fd) (safe_post safe h0 (accept_post os fd (calls t))) ?u"
        by (elim wp_mono) (auto split: outcome.splits)
      then show ?thesis unfolding wp_def Accept_transient[OF tr] .
    qed (rule Accept_last[OF ok calm_accept Suc.prems(2,3)])
  qed
qed

end

section \<open>The table and the descriptor set\<close>

definition conns :: "srv \<Rightarrow> int set" where
  "conns st = {c \<in> set (client st). 0 \<le> c}"

text \<open>The set holds the listening socket and the clients of the table, each client is in one entry, and the two
  bounds cover everything in use.\<close>

definition srv_inv :: "int \<Rightarrow> srv \<Rightarrow> bool" where
  "srv_inv listenfd st \<longleftrightarrow> length (client st) = FD_SETSIZE \<and> distinct (filter (\<lambda>c. 0 \<le> c) (client st)) \<and>
     set (allset st) = insert listenfd (conns st) \<and> 0 \<le> listenfd \<and> listenfd \<notin> conns st \<and>
     (\<forall>fd \<in> set (allset st). fd \<le> maxfd st) \<and> (\<forall>i < FD_SETSIZE. 0 \<le> client st ! i \<longrightarrow> int i \<le> maxi st) \<and>
     - 1 \<le> maxi st \<and> maxi st < int FD_SETSIZE"

lemma srv_free_le: "srv_free cs \<le> length cs"
  by (induction cs) auto

lemma srv_free_lt: "srv_free cs < length cs \<Longrightarrow> cs ! srv_free cs < 0"
  by (induction cs) (auto split: if_splits)

lemma srv_free_full: "srv_free cs = length cs \<longleftrightarrow> (\<forall>c \<in> set cs. 0 \<le> c)"
  by (induction cs) auto

lemma conns_filter: "conns st = set (filter (\<lambda>c. 0 \<le> c) (client st))"
  by (auto simp: conns_def)

lemma srv_init_inv: "0 \<le> listenfd \<Longrightarrow> srv_inv listenfd (srv_init listenfd) \<and> conns (srv_init listenfd) = {}"
  by (auto simp: srv_inv_def srv_init_def conns_def FD_SET_def)

lemma srv_add_inv:
  assumes inv: "srv_inv listenfd st" and free: "srv_free (client st) \<noteq> FD_SETSIZE" and fd: "0 \<le> connfd" "connfd \<notin> set (allset st)"
  shows "srv_inv listenfd (srv_add connfd st) \<and> conns (srv_add connfd st) = insert connfd (conns st)"
proof -
  let ?i = "srv_free (client st)" and ?P = "\<lambda>c :: int. 0 \<le> c"
  have i: "?i < length (client st)" using srv_free_le[of "client st"] inv free by (simp add: srv_inv_def)
  note old = filter_entry[OF i, of ?P] and new = filter_update[OF i, of ?P connfd]
  have f: "conns (srv_add connfd st) = insert connfd (conns st)"
    using srv_free_lt[OF i] fd(1) unfolding conns_filter by (simp add: srv_add_def Let_def old new del: filter_append)
  have "distinct (filter ?P (client (srv_add connfd st)))"
  proof -
    have d: "distinct (filter ?P (client st))" "connfd \<notin> set (filter ?P (client st))"
      using inv fd(2) by (auto simp: srv_inv_def conns_filter)
    then show ?thesis using srv_free_lt[OF i] fd(1) by (simp add: srv_add_def Let_def old new)
  qed
  moreover have "client (srv_add connfd st) ! j = (if j = ?i then connfd else client st ! j)" if "j < FD_SETSIZE" for j
    using i by (simp add: srv_add_def Let_def)
  ultimately show ?thesis using inv f fd i by (auto simp: srv_inv_def srv_add_def Let_def FD_SET_def; force)
qed

lemma srv_drop_inv:
  assumes inv: "srv_inv listenfd st" and i: "i < FD_SETSIZE" and c: "client st ! i = sockfd" "0 \<le> sockfd"
  shows "srv_inv listenfd (srv_drop i sockfd st) \<and> conns (srv_drop i sockfd st) = conns st - {sockfd} \<and> sockfd \<in> conns st"
proof -
  let ?P = "\<lambda>c :: int. 0 \<le> c"
  have l: "i < length (client st)" using inv i by (simp add: srv_inv_def)
  note old = filter_entry[OF l, of ?P] and new = filter_update[OF l, of ?P "- 1"]
  have d: "distinct (filter ?P (client st))" using inv by (simp add: srv_inv_def)
  have f: "conns (srv_drop i sockfd st) = conns st - {sockfd}" "sockfd \<in> conns st"
    using d c unfolding conns_filter by (simp_all add: srv_drop_def old new del: filter_append)
  have "distinct (filter ?P (client (srv_drop i sockfd st)))" using d c by (simp add: srv_drop_def old new)
  moreover have "client (srv_drop i sockfd st) ! j = (if j = i then - 1 else client st ! j)" if "j < FD_SETSIZE" for j
    using l by (simp add: srv_drop_def)
  ultimately show ?thesis using inv f by (auto simp: srv_inv_def srv_drop_def FD_CLR_def)
qed

section \<open>What the server does\<close>

definition echo_books :: "hist \<Rightarrow> bool" where
  "echo_books new \<longleftrightarrow> (\<forall>fd. written fd new = received fd new)"

definition echo_safe :: "hist \<Rightarrow> bool" where
  "echo_safe new \<longleftrightarrow> (\<forall>fd. \<exists>p. received fd new = written fd new @ p)"

interpretation echo: exit_safe echo_safe silent
  by unfold_locales (auto simp: echo_safe_def silent_def silent_reporting[unfolded silent_def] moved_single)

lemma echo_books_safe: "echo_books new \<Longrightarrow> echo_safe new"
  by (simp add: echo_books_def echo_safe_def)

text \<open>Beside the table: the descriptors opened since the server started are the listening socket and the clients.\<close>

definition srv_ok :: "int set \<Rightarrow> int \<Rightarrow> srv \<Rightarrow> hist \<Rightarrow> hist \<Rightarrow> bool" where
  "srv_ok B listenfd st h0 new \<longleftrightarrow> srv_inv listenfd st \<and> open_fds (h0 @ new) = B \<union> insert listenfd (conns st) \<and>
     conns st \<inter> B = {} \<and> echo_books new"

lemma srv_ok_quiet:
  assumes "srv_ok B listenfd st h0 new" and "\<And>S. foldl open_step S e = S" and "\<And>fd. written fd e = received fd e"
  shows "srv_ok B listenfd st h0 (new @ e)"
  using assms by (simp add: srv_ok_def echo_books_def open_fds_append)

text \<open>\<open>select(2)\<close>: the return value is the number of descriptors left in the sets.\<close>

definition select_counts :: "os \<Rightarrow> bool" where
  "select_counts os \<longleftrightarrow> (\<forall>h n rd wr tm. let r = os h (C_select n rd wr [] tm) in 0 \<le> rv r \<longrightarrow>
     distinct (out_ints 0 r) \<and> distinct (out_ints 1 r) \<and> rv r = int (length (out_ints 0 r) + length (out_ints 1 r)))"

definition srv_env :: "os \<Rightarrow> bool" where
  "srv_env os \<longleftrightarrow> read_ok os \<and> write_ok os \<and> (\<forall>fd bs. fair os (C_write fd bs)) \<and> accept_ok os \<and> fresh_ok os \<and> select_ok os \<and> select_counts os"

abbreviation srv_post :: "hist \<Rightarrow> ('a \<Rightarrow> 'z proc_scheme \<Rightarrow> bool) \<Rightarrow> 'a outcome \<Rightarrow> 'z proc_scheme \<Rightarrow> bool" where
  "srv_post \<equiv> safe_post echo_safe"

lemma srv_close:
  assumes t: "calls t = h0 @ new" and ok: "srv_ok B listenfd st h0 new" and i: "i < FD_SETSIZE" "client st ! i = sockfd" "0 \<le> sockfd"
  shows "wp (cbind (Close os sockfd) (\<lambda>_. creturn (srv_drop i sockfd st))) (srv_post h0 (\<lambda>st' t'. \<exists>r. st' = srv_drop i sockfd st \<and>
     calls t' = calls t @ [(C_close sockfd, r)] \<and> srv_ok B listenfd st' h0 (new @ [(C_close sockfd, r)]))) t"
proof (rule echo.bind[where P = "\<lambda>_ t'. \<exists>r. calls t' = calls t @ [(C_close sockfd, r)]"])
  have s: "echo_safe new" using ok by (simp add: srv_ok_def echo_books_safe)
  show "wp (Close os sockfd) (srv_post h0 (\<lambda>_ t'. \<exists>r. calls t' = calls t @ [(C_close sockfd, r)])) t"
    unfolding Close_def by (rule echo.quiet_call[OF t s]) auto
  fix a t'
  assume "\<exists>r. calls t' = calls t @ [(C_close sockfd, r)]"
  moreover have "srv_ok B listenfd (srv_drop i sockfd st) h0 (new @ [(C_close sockfd, r)])" for r
    using ok srv_drop_inv[of listenfd st i sockfd] i by (auto simp: srv_ok_def echo_books_def open_fds_append srv_inv_def simp flip: append_assoc)
  ultimately show "wp (creturn (srv_drop i sockfd st)) (srv_post h0 (\<lambda>st' t'. \<exists>r. st' = srv_drop i sockfd st \<and>
     calls t' = calls t @ [(C_close sockfd, r)] \<and> srv_ok B listenfd st' h0 (new @ [(C_close sockfd, r)]))) t'"
    by (auto simp: wp_basic)
qed

text \<open>One client: what arrived is sent back, or the entry is given up.\<close>

lemma srv_serve_wp:
  fixes t :: "'z proc_scheme"
  assumes env: "srv_env os" and t: "calls t = h0 @ new" and ok: "srv_ok B listenfd st h0 new"
    and i: "i < FD_SETSIZE" "client st ! i = sockfd" "0 \<le> sockfd"
  shows "wp (srv_serve os i sockfd st) (srv_post h0 (\<lambda>st' t'. \<exists>w. calls t' = calls t @ w \<and> srv_ok B listenfd st' h0 (new @ w) \<and>
     reads_of w = [sockfd] \<and> maxi st' = maxi st \<and> (\<forall>j. j \<noteq> i \<longrightarrow> client st' ! j = client st ! j))) t" (is "wp _ (srv_post h0 ?P) t")
proof -
  have e: "read_ok os" "write_ok os" "\<And>fd bs. fair os (C_write fd bs)" using env by (auto simp: srv_env_def)
  have books: "echo_books new" using ok by (simp add: srv_ok_def)
  show ?thesis unfolding srv_serve_def
  proof (rule echo.bind[OF echo.Read_wp[OF e(1) t echo_books_safe[OF books]]], elim conjE, rule wp_ifI)
    fix r :: sysret and u :: "'z proc_scheme"
    let ?c = "(C_read sockfd MAXLINE, r)"
    assume u: "calls u = calls t @ [?c]" and r: "0 \<le> rv r" "length (out_bytes r) = nat (rv r)"
    have hu: "calls u = h0 @ (new @ [?c])" using u t by simp
    {
      assume z: "rv r = 0"
      have "srv_ok B listenfd st h0 (new @ [?c])" by (rule srv_ok_quiet[OF ok]) (use z in \<open>simp_all add: moved_single\<close>)
      from srv_close[OF hu this i] show "wp (cbind (Close os sockfd) (\<lambda>_. creturn (srv_drop i sockfd st))) (srv_post h0 ?P) u"
      proof (rule wp_mono, goal_cases)
        case (1 x v)
        then show ?case
        proof (cases x)
          case (Ret st')
          with 1 obtain q where q: "st' = srv_drop i sockfd st" "calls v = calls t @ [?c, (C_close sockfd, q)]"
            "srv_ok B listenfd st' h0 (new @ [?c, (C_close sockfd, q)])" using u by auto
          then have "?P st' v" by (intro exI[of _ "[?c, (C_close sockfd, q)]"]) (simp add: srv_drop_def)
          then show ?thesis using Ret by simp
        qed auto
      qed
    next
      assume nz: "rv r \<noteq> 0"
      have one: "received fd [?c] = (if fd = sockfd then out_bytes r else [])" "written fd [?c] = []" for fd
        using nz r(1) by (simp_all add: moved_single)
      show "wp (cbind (Writen os sockfd (out_bytes r)) (\<lambda>_. creturn st)) (srv_post h0 ?P) u"
      proof (rule wp_bindI[OF Writen_only[OF e(2,3)]], goal_cases)
        case (1 a v)
        then obtain w where v: "calls v = calls u @ w" and w: "\<And>f. received f w = []" "\<And>f. f \<noteq> sockfd \<Longrightarrow> written f w = []"
          "written sockfd w = out_bytes r" "only_writes sockfd w" by auto
        have "srv_ok B listenfd st h0 (new @ ([?c] @ w))"
        proof (rule srv_ok_quiet[OF ok])
          show "foldl open_step S ([?c] @ w) = S" for S using only_writes_frame(1)[OF w(4)] by simp
          show "written fd ([?c] @ w) = received fd ([?c] @ w)" for fd
            using w(1,2,3) unfolding rd.moved_append wr.moved_append one by (cases "fd = sockfd") simp_all
        qed
        then have "?P st v" using v u only_writes_frame(2)[OF w(4)] by (intro exI[of _ "[?c] @ w"]) simp
        then show ?case by (simp add: wp_basic)
      next
        case (2 m v)
        then obtain w unsent where v: "calls v = calls u @ w" "m = 1" and w: "\<And>f. received f w = []" "\<And>f. f \<noteq> sockfd \<Longrightarrow> written f w = []"
          "out_bytes r = written sockfd w @ unsent" by auto
        have "\<exists>p. received fd ((new @ [?c]) @ w) = written fd ((new @ [?c]) @ w) @ p" for fd
          using books w unfolding echo_books_def rd.moved_append wr.moved_append one by (cases "fd = sockfd") simp_all
        then have "echo_safe ((new @ [?c]) @ w)" by (simp add: echo_safe_def)
        then show ?case using v hu by (auto intro!: exI[of _ "(new @ [?c]) @ w"])
      qed auto
    }
  qed
qed

text \<open>Counting the ready descriptors down is as good as looking at every entry, when the count is right.\<close>

lemma srv_clients_wp:
  fixes t :: "'z proc_scheme"
  assumes env: "srv_env os" and t: "calls t = h0 @ new" and ok: "srv_ok B listenfd st h0 new"
    and "is": "distinct is" "set is \<subseteq> {..<FD_SETSIZE}"
    and nready: "int (length (filter (\<lambda>i. 0 \<le> client st ! i \<and> client st ! i \<in> set rset) is)) \<le> nready"
  shows "wp (srv_clients os rset is nready st) (srv_post h0 (\<lambda>st' t'. \<exists>w. calls t' = calls t @ w \<and> srv_ok B listenfd st' h0 (new @ w) \<and>
     reads_of w = map (\<lambda>i. client st ! i) (filter (\<lambda>i. 0 \<le> client st ! i \<and> client st ! i \<in> set rset) is))) t"
  using t ok "is" nready
proof (induction "is" arbitrary: t new st nready)
  case (Nil t new st nready)
  then show ?case unfolding srv_clients.simps wp_basic by simp
next
  case (Cons i "is" t new st nready)
  let ?ready = "\<lambda>st i. 0 \<le> client st ! i \<and> client st ! i \<in> set rset"
  show ?case
  proof (cases "?ready st i")
    case False
    then have skip: "srv_clients os rset (i # is) nready st = srv_clients os rset is nready st" "filter (?ready st) (i # is) = filter (?ready st) is"
      by (auto simp: Let_def)
    show ?thesis unfolding skip
      by (rule Cons.IH[OF Cons.prems(1,2)]) (use Cons.prems(3,4,5) False in \<open>simp_all split: if_splits\<close>)
  next
    case True
    let ?P = "\<lambda>st' t'. \<exists>w. calls t' = calls t @ w \<and> srv_ok B listenfd st' h0 (new @ w) \<and> reads_of w = map (\<lambda>i. client st ! i) (filter (?ready st) (i # is))"
    have step: "srv_clients os rset (i # is) nready st = cbind (srv_serve os i (client st ! i) st) (\<lambda>st.
        if nready - 1 \<le> 0 then creturn st else srv_clients os rset is (nready - 1) st)" using True by (simp add: Let_def)
    show ?thesis unfolding step
    proof (rule echo.bind[OF srv_serve_wp[OF env Cons.prems(1,2)]], goal_cases)
      case (4 st' v)
      then obtain w where w: "calls v = calls t @ w" "srv_ok B listenfd st' h0 (new @ w)" "reads_of w = [client st ! i]"
        "\<forall>j. j \<noteq> i \<longrightarrow> client st' ! j = client st ! j" by auto
      have hv: "calls v = h0 @ (new @ w)" using w(1) Cons.prems(1) by simp
      have same: "filter (?ready st') is = filter (?ready st) is" "map (\<lambda>i. client st' ! i) (filter (?ready st) is) = map (\<lambda>i. client st ! i) (filter (?ready st) is)"
        using w(4) Cons.prems(3) by (auto intro!: filter_cong)
      show ?case
      proof (rule wp_ifI)
        assume over: "nready - 1 \<le> 0"
        have "1 + int (length (filter (?ready st) is)) \<le> nready" using Cons.prems(5) True by simp
        with over have "length (filter (?ready st) is) \<le> 0" by linarith
        then have "filter (?ready st) is = []" by (simp only: le_zero_eq length_0_conv)
        then show "wp (creturn st') (srv_post h0 ?P) v" using w True by (auto simp: wp_basic)
      next
        have "wp (srv_clients os rset is (nready - 1) st') (srv_post h0 (\<lambda>st'' t'. \<exists>w'. calls t' = calls v @ w' \<and> srv_ok B listenfd st'' h0 ((new @ w) @ w') \<and>
           reads_of w' = map (\<lambda>i. client st' ! i) (filter (?ready st') is))) v"
          by (rule Cons.IH[OF hv w(2)]) (use Cons.prems(3,4,5) True in \<open>simp_all add: same\<close>)
        then show "wp (srv_clients os rset is (nready - 1) st') (srv_post h0 ?P) v"
        proof (rule wp_mono, goal_cases)
          case (1 x u)
          then show ?case
          proof (cases x)
            case (Ret st'')
            with 1 obtain w' where "calls u = calls v @ w'" "srv_ok B listenfd st'' h0 ((new @ w) @ w')"
              "reads_of w' = map (\<lambda>i. client st ! i) (filter (?ready st) is)" unfolding same by auto
            then have "?P st'' u" using w True by (intro exI[of _ "w @ w'"]) simp
            then show ?thesis using Ret by simp
          qed auto
        qed
      qed
    qed (use True Cons.prems(4) in auto)
  qed
qed

lemma filter_prefix:
  assumes "n \<le> length cs" and "\<And>i. n \<le> i \<Longrightarrow> i < length cs \<Longrightarrow> \<not> P (cs ! i)"
  shows "map (\<lambda>i. cs ! i) (filter (\<lambda>i. P (cs ! i)) [0..<n]) = filter P cs"
proof -
  have "filter P cs = filter P (map (\<lambda>i. cs ! i) [0..<length cs])" by (simp add: map_nth)
  also have "\<dots> = map (\<lambda>i. cs ! i) (filter (\<lambda>i. P (cs ! i)) [0..<length cs])" by (simp add: filter_map comp_def)
  also have "[0..<length cs] = [0..<n] @ [n..<length cs]" using upt_add_eq_append[of 0 n "length cs - n"] assms(1) by simp
  also have "filter (\<lambda>i. P (cs ! i)) ([0..<n] @ [n..<length cs]) = filter (\<lambda>i. P (cs ! i)) [0..<n]"
    using assms(2) by (simp add: filter_empty_conv)
  finally show ?thesis by simp
qed

definition ready_clients :: "int list \<Rightarrow> srv \<Rightarrow> int list" where
  "ready_clients rset st = filter (\<lambda>c. 0 \<le> c \<and> c \<in> set rset) (client st)"

lemma srv_scan_wp:
  assumes env: "srv_env os" and t: "calls t = h0 @ new" and ok: "srv_ok B listenfd st h0 new"
    and nready: "int (length (ready_clients rset st)) \<le> nready"
  shows "wp (srv_scan os rset nready st) (srv_post h0 (\<lambda>st' t'. \<exists>w. calls t' = calls t @ w \<and> srv_ok B listenfd st' h0 (new @ w) \<and>
     reads_of w = ready_clients rset st)) t"
proof -
  let ?n = "nat (maxi st + 1)" and ?P = "\<lambda>c. 0 \<le> c \<and> c \<in> set rset"
  have inv: "srv_inv listenfd st" using ok by (simp add: srv_ok_def)
  have n: "?n \<le> length (client st)" "\<And>i. ?n \<le> i \<Longrightarrow> i < length (client st) \<Longrightarrow> \<not> ?P (client st ! i)"
    using inv by (force simp: srv_inv_def)+
  have all: "map (\<lambda>i. client st ! i) (filter (\<lambda>i. ?P (client st ! i)) [0..<?n]) = ready_clients rset st"
    unfolding ready_clients_def by (rule filter_prefix[where P = ?P, OF n])
  show ?thesis unfolding srv_scan_def all[symmetric]
  proof (rule srv_clients_wp[OF env t ok])
    show "set [0..<?n] \<subseteq> {..<FD_SETSIZE}" using inv by (auto simp: srv_inv_def)
    show "int (length (filter (\<lambda>i. ?P (client st ! i)) [0..<?n])) \<le> nready"
      using nready unfolding all[symmetric] length_map .
  qed simp
qed

text \<open>A new client has a descriptor that \<open>select\<close> was not asked about.\<close>

lemma ready_clients_add:
  assumes "srv_inv listenfd st" and "srv_free (client st) \<noteq> FD_SETSIZE" and "connfd \<notin> set rset"
  shows "ready_clients rset (srv_add connfd st) = ready_clients rset st"
proof -
  have i: "srv_free (client st) < length (client st)" using srv_free_le[of "client st"] assms by (simp add: srv_inv_def)
  then show ?thesis using srv_free_lt[OF i] assms(3) filter_update[OF i, of "\<lambda>c. 0 \<le> c \<and> c \<in> set rset" connfd]
      filter_entry[OF i, of "\<lambda>c. 0 \<le> c \<and> c \<in> set rset"] by (simp add: ready_clients_def srv_add_def Let_def)
qed

lemma srv_accept_wp:
  fixes t :: "'z proc_scheme"
  assumes env: "srv_env os" and t: "calls t = h0 @ new" and ok: "srv_ok B listenfd st h0 new" and rset: "set rset \<subseteq> set (allset st)"
  shows "wp (srv_accept os listenfd st) (srv_post h0 (\<lambda>st' t'. \<exists>w. calls t' = calls t @ w \<and> srv_ok B listenfd st' h0 (new @ w) \<and>
     reads_of w = [] \<and> ready_clients rset st' = ready_clients rset st)) t"
proof -
  have e: "accept_ok os" "fresh_ok os" using env by (auto simp: srv_env_def)
  have st: "srv_inv listenfd st" "open_fds (calls t) = B \<union> insert listenfd (conns st)" "conns st \<inter> B = {}" "echo_books new"
    using ok t by (auto simp: srv_ok_def)
  show ?thesis unfolding srv_accept_def
  proof (rule echo.bind[OF echo.Accept_wp[OF e(1) silent_calls(6) t echo_books_safe[OF st(4)]]], elim exE conjE)
    fix r :: sysret and w and u :: "'z proc_scheme"
    let ?w = "w @ [(C_accept listenfd, r)]"
    assume u: "calls u = calls t @ ?w" and w: "failed_accepts listenfd w" and r: "0 \<le> rv r" "r = os (calls t @ w) (C_accept listenfd)"
    note quiet = failed_accepts_frame[OF w]
    have opened: "foldl open_step S ?w = insert (rv r) S" for S using r(1) by (simp add: quiet(1))
    have books: "echo_books (new @ ?w)" using st(4) by (simp add: echo_books_def quiet(3,4))
    have fresh: "rv r \<notin> open_fds (calls t)" using e(2) r unfolding fresh_ok_def by (metis open_fds_append quiet(1))
    show "wp (if srv_free (client st) = FD_SETSIZE then err_quit os ''too many clients'' else creturn (srv_add (rv r) st))
      (srv_post h0 (\<lambda>st' t'. \<exists>w. calls t' = calls t @ w \<and> srv_ok B listenfd st' h0 (new @ w) \<and> reads_of w = [] \<and>
         ready_clients rset st' = ready_clients rset st)) u"
    proof (rule wp_ifI)
      show "wp (err_quit os ''too many clients'') (srv_post h0 P) u" for P :: "srv \<Rightarrow> 'z proc_scheme \<Rightarrow> bool"
        by (rule echo.err(2)[OF _ echo_books_safe[OF books]]) (use u t in simp)
      assume free: "srv_free (client st) \<noteq> FD_SETSIZE"
      have new: "rv r \<notin> set (allset st)" "rv r \<notin> B" using fresh st(1,2) by (auto simp: srv_inv_def)
      then have "srv_ok B listenfd (srv_add (rv r) st) h0 (new @ ?w)"
        using srv_add_inv[OF st(1) free r(1)] st(2,3) books t opened[of "open_fds (calls t)"]
        unfolding srv_ok_def append_assoc[symmetric] by (auto simp: open_fds_append)
      moreover have "ready_clients rset (srv_add (rv r) st) = ready_clients rset st"
        by (rule ready_clients_add[OF st(1) free]) (use new rset in auto)
      ultimately show "wp (creturn (srv_add (rv r) st)) (srv_post h0 (\<lambda>st' t'. \<exists>w. calls t' = calls t @ w \<and> srv_ok B listenfd st' h0 (new @ w) \<and>
          reads_of w = [] \<and> ready_clients rset st' = ready_clients rset st)) u"
        unfolding wp_basic using u quiet(2) by (auto intro!: exI[of _ ?w])
    qed
  qed
qed

lemma ready_clients_count:
  assumes inv: "srv_inv listenfd st" and d: "distinct rset"
  shows "length (ready_clients rset st) + (if listenfd \<in> set rset then 1 else 0) \<le> length rset"
proof -
  have "ready_clients rset st = filter (\<lambda>c. c \<in> set rset) (filter (\<lambda>c. 0 \<le> c) (client st))"
    unfolding ready_clients_def filter_filter by (rule filter_cong) auto
  then have "distinct (ready_clients rset st)" using inv by (simp only: srv_inv_def distinct_filter)
  then have "length (ready_clients rset st) = card (set (ready_clients rset st))" by (simp add: distinct_card)
  also have "\<dots> \<le> card (set rset - {listenfd})"
    by (rule card_mono) (use inv in \<open>auto simp: ready_clients_def srv_inv_def conns_def\<close>)
  also have "\<dots> = length rset - (if listenfd \<in> set rset then 1 else 0)"
    using d by (simp add: card_Diff_singleton_if distinct_card)
  finally show ?thesis using d by (cases rset) (auto split: if_splits)
qed

lemma srv_round_wp:
  fixes t :: "'z proc_scheme"
  assumes env: "srv_env os" and t: "calls t = h0 @ new" and ok: "srv_ok B listenfd st h0 new"
  shows "wp (srv_round os listenfd st) (srv_post h0 (\<lambda>st' t'. \<exists>r w. calls t' = calls t @ (C_select (maxfd st + 1) (allset st) [] [] None, r) # w \<and>
     srv_ok B listenfd st' h0 (new @ (C_select (maxfd st + 1) (allset st) [] [] None, r) # w) \<and> reads_of w = ready_clients (out_ints 0 r) st)) t"
    (is "wp _ (srv_post h0 ?P) t")
proof -
  let ?c = "C_select (maxfd st + 1) (allset st) [] [] None"
  define r where "r = os (calls t) ?c"
  define u where "u = after os ?c t"
  let ?rset = "out_ints 0 r"
  have u: "calls u = calls t @ [(?c, r)]" and hu: "calls u = h0 @ (new @ [(?c, r)])" using t by (simp_all add: u_def r_def)
  have oku: "srv_ok B listenfd st h0 (new @ [(?c, r)])" by (rule srv_ok_quiet[OF ok]) (simp_all add: moved_single)
  have inv: "srv_inv listenfd st" and s: "echo_safe (new @ [(?c, r)])" using oku by (auto simp: srv_ok_def echo_books_safe)
  have sel: "set ?rset \<subseteq> set (allset st)" "distinct ?rset" "rv r = int (length ?rset)" if "0 \<le> rv r"
    using env that unfolding srv_env_def select_ok_def select_counts_def Let_def r_def by fastforce+
  have scan: "wp (srv_scan os ?rset nready st') (srv_post h0 ?P) v"
    if v: "calls v = calls u @ w" "srv_ok B listenfd st' h0 ((new @ [(?c, r)]) @ w)" "reads_of w = []"
      "ready_clients ?rset st' = ready_clients ?rset st" "int (length (ready_clients ?rset st)) \<le> nready" for nready st' w and v :: "'z proc_scheme"
  proof -
    have "calls v = h0 @ ((new @ [(?c, r)]) @ w)" using v(1) hu by simp
    from srv_scan_wp[OF env this v(2), of ?rset nready] show ?thesis
    proof (rule wp_mono[OF _], goal_cases)
      case (2 x v')
      then show ?case
      proof (cases x)
        case (Ret st'')
        with 2 obtain w' where "calls v' = calls v @ w'" "srv_ok B listenfd st'' h0 (((new @ [(?c, r)]) @ w) @ w')" "reads_of w' = ready_clients ?rset st"
          using v(4) by auto
        then have "?P st'' v'" using v(1,3) u by (intro exI[of _ r] exI[of _ "w @ w'"]) simp
        then show ?thesis using Ret by simp
      qed auto
    qed (use v(4,5) in simp)
  qed
  show ?thesis unfolding srv_round_def Select_def cbind_assoc wp_bind[of "call _ _"] wp_call outcome.case r_def[symmetric] u_def[symmetric]
  proof (cases "rv r < 0")
    case True
    show "wp (cbind (if rv r < 0 then err_sys os ''select error'' else creturn r) (\<lambda>r.
      if listenfd \<in> set (out_ints 0 r) then cbind (srv_accept os listenfd st) (\<lambda>st. if rv r - 1 \<le> 0 then creturn st else srv_scan os (out_ints 0 r) (rv r - 1) st)
      else srv_scan os (out_ints 0 r) (rv r) st)) (srv_post h0 ?P) u"
      using True echo.err(1)[OF hu s, where P = "\<lambda>_ _. True"] by (simp add: wp_bind[of "err_sys _ _"] wp_err)
  next
    case False
    note sel = sel[OF False[unfolded not_less]]
    note count = ready_clients_count[OF inv sel(2)]
    have "wp (if listenfd \<in> set ?rset then cbind (srv_accept os listenfd st) (\<lambda>st. if rv r - 1 \<le> 0 then creturn st else srv_scan os ?rset (rv r - 1) st)
      else srv_scan os ?rset (rv r) st) (srv_post h0 ?P) u"
    proof (rule wp_ifI)
      assume l: "listenfd \<in> set ?rset"
      then have few: "int (length (ready_clients ?rset st)) \<le> rv r - 1" using count sel(3) by simp
      show "wp (cbind (srv_accept os listenfd st) (\<lambda>st. if rv r - 1 \<le> 0 then creturn st else srv_scan os ?rset (rv r - 1) st)) (srv_post h0 ?P) u"
      proof (rule echo.bind[OF srv_accept_wp[OF env hu oku sel(1)]], elim exE conjE, rule wp_ifI)
        fix st' w and v :: "'z proc_scheme"
        assume v: "calls v = calls u @ w" "srv_ok B listenfd st' h0 ((new @ [(?c, r)]) @ w)" "reads_of w = []" "ready_clients ?rset st' = ready_clients ?rset st"
        {
          assume "rv r - 1 \<le> 0"
          then have "length (ready_clients ?rset st) \<le> 0" using few by linarith
          then have "reads_of w = ready_clients ?rset st" using v(3) by simp
          then have "?P st' v" using v(1,2) u by (intro exI[of _ r] exI[of _ w]) simp
          then show "wp (creturn st') (srv_post h0 ?P) v" by (simp add: wp_basic)
        next
          show "wp (srv_scan os ?rset (rv r - 1) st') (srv_post h0 ?P) v" by (rule scan[OF v few])
        }
      qed
    next
      show "wp (srv_scan os ?rset (rv r) st) (srv_post h0 ?P) u"
        by (rule scan[where w = "[]"]) (use oku count sel(3) in auto)
    qed
    then show "wp (cbind (if rv r < 0 then err_sys os ''select error'' else creturn r) (\<lambda>r.
      if listenfd \<in> set (out_ints 0 r) then cbind (srv_accept os listenfd st) (\<lambda>st. if rv r - 1 \<le> 0 then creturn st else srv_scan os (out_ints 0 r) (rv r - 1) st)
      else srv_scan os (out_ints 0 r) (rv r) st)) (srv_post h0 ?P) u"
      using False by (simp only: if_False wp_bind[of "creturn _"] wp_basic outcome.case)
  qed
qed

lemma srv_rounds_wp:
  fixes t :: "'z proc_scheme"
  assumes env: "srv_env os" and "calls t = h0 @ new" and "srv_ok B listenfd st h0 new"
  shows "wp (srv_rounds os listenfd n st) (srv_post h0 (\<lambda>st' t'. \<exists>new'. calls t' = h0 @ new' \<and> srv_ok B listenfd st' h0 new')) t"
  using assms(2,3)
proof (induction n arbitrary: t st new)
  case (0 t st new)
  then show ?case unfolding srv_rounds.simps wp_basic by auto
next
  case (Suc n t st new)
  show ?case unfolding srv_rounds.simps
  proof (rule echo.bind[OF srv_round_wp[OF env Suc.prems]], elim exE conjE)
    fix st' r w and u :: "'z proc_scheme"
    let ?new = "new @ (C_select (maxfd st + 1) (allset st) [] [] None, r) # w"
    assume "calls u = calls t @ (C_select (maxfd st + 1) (allset st) [] [] None, r) # w" and ok: "srv_ok B listenfd st' h0 ?new"
    then have "calls u = h0 @ ?new" using Suc.prems(1) by simp
    from Suc.IH[OF this ok] show "wp (srv_rounds os listenfd n st') (srv_post h0 (\<lambda>st' t'. \<exists>new'. calls t' = h0 @ new' \<and> srv_ok B listenfd st' h0 new')) u" .
  qed
qed

lemma srv_loop_unroll:
  fixes s :: "'z proc_scheme"
  shows "srv_loop os listenfd st s = cbind (srv_rounds os listenfd n st) (\<lambda>st. srv_loop os listenfd st) s"
proof (induction n arbitrary: st s)
  case 0
  then show ?case by (simp add: cbind_def)
next
  case (Suc n)
  have "(\<lambda>st. cbind (srv_rounds os listenfd n st) (\<lambda>st. srv_loop os listenfd st)) = (\<lambda>st. srv_loop os listenfd st :: ('z proc_scheme, unit) cprog)"
    by (intro ext) (rule Suc[symmetric])
  then show ?case by (subst srv_loop.simps) (simp add: cbind_assoc)
qed

lemma echo_safe_Nil: "echo_safe []"
  by (simp add: echo_safe_def)

lemma srv_listen_wp:
  fixes s :: "'z proc_scheme"
  assumes env: "srv_env os"
  shows "wp (srv_listen os) (srv_post (calls s) (\<lambda>listenfd t. \<exists>new. calls t = calls s @ new \<and>
     srv_ok (open_fds (calls s)) listenfd (srv_init listenfd) (calls s) new)) s"
  unfolding srv_listen_def
proof (rule echo.bind[where P = "\<lambda>fd t. \<exists>r. calls t = calls s @ [(C_socket AF_INET SOCK_STREAM 0, r)] \<and> fd = rv r \<and> 0 \<le> fd"])
  show "wp (Socket os AF_INET SOCK_STREAM 0) (srv_post (calls s) (\<lambda>fd t. \<exists>r. calls t = calls s @ [(C_socket AF_INET SOCK_STREAM 0, r)] \<and> fd = rv r \<and> 0 \<le> fd)) s"
    unfolding Socket_def by (rule echo.quiet_call[OF _ echo_safe_Nil]) auto
  fix fd and t :: "'z proc_scheme"
  assume "\<exists>r. calls t = calls s @ [(C_socket AF_INET SOCK_STREAM 0, r)] \<and> fd = rv r \<and> 0 \<le> fd"
  then obtain r where r: "calls t = calls s @ [(C_socket AF_INET SOCK_STREAM 0, r)]" "fd = rv r" "0 \<le> fd" by blast
  let ?a = "Sockaddr_in (ntohs SERV_PORT) [0, 0, 0, 0]" and ?new = "[(C_socket AF_INET SOCK_STREAM 0, r)]"
  have safe: "echo_safe ?new" by (simp add: echo_safe_def)
  show "wp (cbind (Bind os fd ?a 16) (\<lambda>_. cbind (Listen os fd LISTENQ) (\<lambda>_. creturn fd)))
     (srv_post (calls s) (\<lambda>listenfd t. \<exists>new. calls t = calls s @ new \<and> srv_ok (open_fds (calls s)) listenfd (srv_init listenfd) (calls s) new)) t"
  proof (rule echo.bind[where P = "\<lambda>_ u. \<exists>q. calls u = calls s @ ?new @ [(C_bind fd ?a 16, q)]"])
    show "wp (Bind os fd ?a 16) (srv_post (calls s) (\<lambda>_ u. \<exists>q. calls u = calls s @ ?new @ [(C_bind fd ?a 16, q)])) t"
      unfolding Bind_def by (rule echo.quiet_call[OF r(1) safe]) (use r(1) in auto)
    fix x and u :: "'z proc_scheme"
    assume "\<exists>q. calls u = calls s @ ?new @ [(C_bind fd ?a 16, q)]"
    then obtain q where u: "calls u = calls s @ (?new @ [(C_bind fd ?a 16, q)])" by blast
    let ?g = "C_lib ''getenv'' [V_str ''LISTENQ'']"
    define p where "p = os (calls u) ?g"
    define v where "v = after os ?g u"
    let ?n = "(?new @ [(C_bind fd ?a 16, q)]) @ [(?g, p)]"
    let ?l = "C_listen fd (if rv p \<noteq> 0 then atoi (out_str p) else LISTENQ)"
    have v: "calls v = calls s @ ?n" using u by (simp add: v_def p_def)
    have vs: "echo_safe ?n" by (intro echo.quiet safe) simp_all
    have fin: "srv_ok (open_fds (calls s)) fd (srv_init fd) (calls s) (?n @ [(?l, y)])" for y
      using srv_init_inv[OF r(3)] r(2,3) unfolding srv_ok_def open_fds_append by (auto simp: echo_books_def simp flip: append_Cons)
    have "wp (cbind (call os ?l) (\<lambda>r. if rv r < 0 then err_sys os ''listen error'' else creturn ()))
       (srv_post (calls s) (\<lambda>_ t. \<exists>y. calls t = calls s @ ?n @ [(?l, y)])) v"
      by (rule echo.quiet_call[OF v vs]) (use v in auto)
    then have "wp (cbind (cbind (call os ?l) (\<lambda>r. if rv r < 0 then err_sys os ''listen error'' else creturn ())) (\<lambda>_. creturn fd))
       (srv_post (calls s) (\<lambda>listenfd t. \<exists>new. calls t = calls s @ new \<and> srv_ok (open_fds (calls s)) listenfd (srv_init listenfd) (calls s) new)) v"
      by (rule echo.bind) (use fin in \<open>fastforce simp: wp_basic\<close>)
    then show "wp (cbind (Listen os fd LISTENQ) (\<lambda>_. creturn fd))
       (srv_post (calls s) (\<lambda>listenfd t. \<exists>new. calls t = calls s @ new \<and> srv_ok (open_fds (calls s)) listenfd (srv_init listenfd) (calls s) new)) u"
      unfolding Listen_def cbind_assoc wp_bind[of "call _ ?g"] wp_call outcome.case p_def[symmetric] v_def[symmetric] Let_def .
  qed
qed

text \<open>The server up to the end of its \<open>n\<close>th pass: the listening socket and the tables.\<close>

definition srv_upto :: "os \<Rightarrow> nat \<Rightarrow> ('z proc_scheme, int \<times> srv) cprog" where
  "srv_upto os n = cbind (srv_listen os) (\<lambda>listenfd.
     cbind (srv_rounds os listenfd n (srv_init listenfd)) (\<lambda>st. creturn (listenfd, st)))"

lemma select_server_unroll:
  fixes s :: "'z proc_scheme"
  shows "select_server os s = cbind (srv_upto os n) (\<lambda>(listenfd, st). srv_loop os listenfd st) s"
proof -
  have "srv_loop os fd (srv_init fd) = (cbind (srv_rounds os fd n (srv_init fd)) (\<lambda>st. srv_loop os fd st) :: ('z proc_scheme, unit) cprog)" for fd
    by (intro ext) (rule srv_loop_unroll)
  moreover have "cbind (creturn a) f = f a" for a :: "int \<times> srv" and f :: "int \<times> srv \<Rightarrow> ('z proc_scheme, unit) cprog"
    by (intro ext) simp
  ultimately show ?thesis unfolding select_server_def srv_upto_def cbind_assoc by simp
qed

lemma srv_upto_wp:
  fixes s :: "'z proc_scheme"
  assumes env: "srv_env os"
  shows "wp (srv_upto os n) (srv_post (calls s) (\<lambda>(listenfd, st) t. \<exists>new. calls t = calls s @ new \<and>
     srv_ok (open_fds (calls s)) listenfd st (calls s) new)) s"
  unfolding srv_upto_def
proof (rule echo.bind[OF srv_listen_wp[OF env]], elim exE conjE)
  fix fd new and t :: "'z proc_scheme"
  assume t: "calls t = calls s @ new" "srv_ok (open_fds (calls s)) fd (srv_init fd) (calls s) new"
  show "wp (cbind (srv_rounds os fd n (srv_init fd)) (\<lambda>st. creturn (fd, st))) (srv_post (calls s) (\<lambda>(listenfd, st) t. \<exists>new. calls t = calls s @ new \<and>
     srv_ok (open_fds (calls s)) listenfd st (calls s) new)) t"
    by (rule echo.bind[OF srv_rounds_wp[OF env t]]) (auto simp: wp_basic)
qed

text \<open>
  C18. The \<open>select\<close> server never stops serving of its own accord and never mixes up or forgets clients. For every
  \<open>n\<close>, the server is its first \<open>n\<close> passes followed by the rest of the loop, these passes end, and after them every
  descriptor was sent exactly the bytes read from it; the descriptors the server has open are the listening
  socket and the clients in its table, all of them watched by \<open>select\<close> and covered by \<open>maxfd\<close> and \<open>maxi\<close>. The process
  ends before only by an exit with status 1, and then every descriptor was sent a prefix of what was read from it.
\<close>

theorem select_server_echoes:
  fixes s :: "'z proc_scheme"
  assumes "srv_env os"
  shows "select_server os s = cbind (srv_upto os n) (\<lambda>(listenfd, st). srv_loop os listenfd st) s \<and>
    wp (srv_upto os n) (\<lambda>r t. case r of
        Ret (listenfd, st) \<Rightarrow> \<exists>new. calls t = calls s @ new \<and> (\<forall>fd. written fd new = received fd new) \<and> srv_inv listenfd st \<and>
          open_fds (calls t) = open_fds (calls s) \<union> insert listenfd (conns st) \<and> conns st \<inter> open_fds (calls s) = {}
      | Exit k \<Rightarrow> k = 1 \<and> (\<exists>new. calls t = calls s @ new \<and> (\<forall>fd. \<exists>p. received fd new = written fd new @ p))
      | Abort \<Rightarrow> False) s"
proof (rule conjI[OF select_server_unroll wp_mono[OF srv_upto_wp[OF assms]]])
  fix r and t :: "'z proc_scheme"
  assume "srv_post (calls s) (\<lambda>(listenfd, st) t. \<exists>new. calls t = calls s @ new \<and> srv_ok (open_fds (calls s)) listenfd st (calls s) new) r t"
  then show "case r of
        Ret (listenfd, st) \<Rightarrow> \<exists>new. calls t = calls s @ new \<and> (\<forall>fd. written fd new = received fd new) \<and> srv_inv listenfd st \<and>
          open_fds (calls t) = open_fds (calls s) \<union> insert listenfd (conns st) \<and> conns st \<inter> open_fds (calls s) = {}
      | Exit k \<Rightarrow> k = 1 \<and> (\<exists>new. calls t = calls s @ new \<and> (\<forall>fd. \<exists>p. received fd new = written fd new @ p))
      | Abort \<Rightarrow> False"
    by (cases r) (auto simp: srv_ok_def echo_books_def echo_safe_def)
qed

text \<open>
  C19. One pass serves every client that is ready: the descriptors read from are the clients of the table that
  \<open>select\<close> reported, each once and in the order of the table. So it does no harm that the scan stops when the
  count of ready descriptors reaches 0, that it looks only at the entries up to \<open>maxi\<close> and that a client accepted in
  the same pass may already be in the table.
\<close>

theorem select_server_serves:
  fixes s :: "'z proc_scheme"
  assumes "srv_env os" and "srv_inv listenfd st" and "insert listenfd (conns st) \<subseteq> open_fds (calls s)"
  shows "wp (srv_round os listenfd st) (\<lambda>x t. case x of
        Ret st' \<Rightarrow> srv_inv listenfd st' \<and> (\<exists>r w. calls t = calls s @ (C_select (maxfd st + 1) (allset st) [] [] None, r) # w \<and>
          reads_of w = filter (\<lambda>c. 0 \<le> c \<and> c \<in> set (out_ints 0 r)) (client st))
      | Exit k \<Rightarrow> k = 1 | Abort \<Rightarrow> False) s"
proof -
  let ?B = "open_fds (calls s) - insert listenfd (conns st)"
  have "srv_ok ?B listenfd st (calls s) []" using assms(2,3) by (auto simp: srv_ok_def echo_books_def)
  then have "wp (srv_round os listenfd st) (srv_post (calls s) (\<lambda>st' t'. \<exists>r w. calls t' = calls s @ (C_select (maxfd st + 1) (allset st) [] [] None, r) # w \<and>
     srv_ok ?B listenfd st' (calls s) ([] @ (C_select (maxfd st + 1) (allset st) [] [] None, r) # w) \<and> reads_of w = ready_clients (out_ints 0 r) st)) s"
    by (intro srv_round_wp[OF assms(1)]) simp_all
  then show ?thesis by (rule wp_mono) (auto simp: srv_ok_def ready_clients_def split: outcome.splits)
qed

text \<open>
  C20. The check for too many clients comes too late: after any number of passes, either the table has a free
  entry or the descriptor set already holds a descriptor that an \<open>fd_set\<close> has no room for. While all descriptors
  fit, the table cannot be full.
\<close>

theorem select_server_limit:
  fixes s :: "'z proc_scheme"
  assumes "srv_env os"
  shows "wp (srv_upto os n) (\<lambda>r t. case r of
        Ret (listenfd, st) \<Rightarrow> srv_free (client st) < FD_SETSIZE \<or> (\<exists>fd \<in> set (allset st). int FD_SETSIZE \<le> fd)
      | Exit k \<Rightarrow> k = 1 | Abort \<Rightarrow> False) s"
proof (rule wp_mono[OF srv_upto_wp[OF assms]])
  fix r and t :: "'z proc_scheme"
  assume post: "srv_post (calls s) (\<lambda>(listenfd, st) t. \<exists>new. calls t = calls s @ new \<and> srv_ok (open_fds (calls s)) listenfd st (calls s) new) r t"
  have "srv_free (client st) < FD_SETSIZE \<or> (\<exists>fd \<in> set (allset st). int FD_SETSIZE \<le> fd)" if inv: "srv_inv listenfd st" for listenfd st
  proof (rule ccontr)
    assume bad: "\<not> (srv_free (client st) < FD_SETSIZE \<or> (\<exists>fd \<in> set (allset st). int FD_SETSIZE \<le> fd))"
    then have "\<forall>c \<in> set (client st). 0 \<le> c"
      using srv_free_le[of "client st"] srv_free_full[of "client st"] inv by (auto simp: srv_inv_def)
    then have all: "filter (\<lambda>c. 0 \<le> c) (client st) = client st" "conns st = set (client st)" by (auto simp: conns_def)
    then have "card (set (allset st)) = Suc FD_SETSIZE" using inv by (simp add: srv_inv_def distinct_card)
    moreover have "set (allset st) \<subseteq> {0..<int FD_SETSIZE}"
      using bad inv by (force simp: srv_inv_def conns_def)
    then have "card (set (allset st)) \<le> FD_SETSIZE" using card_mono[of "{0..<int FD_SETSIZE}"] by simp
    ultimately show False by simp
  qed
  with post show "case r of
        Ret (listenfd, st) \<Rightarrow> srv_free (client st) < FD_SETSIZE \<or> (\<exists>fd \<in> set (allset st). int FD_SETSIZE \<le> fd)
      | Exit k \<Rightarrow> k = 1 | Abort \<Rightarrow> False"
    by (cases r) (auto simp: srv_ok_def)
qed

section \<open>A busy environment\<close>

text \<open>Every descriptor is always ready; a read delivers two bytes or, at every third call, the end of the input.\<close>

definition busy_os :: os where
  "busy_os h c = (case c of
       C_socket f t p \<Rightarrow> ok (max 0 (Max (open_fds h) + 1))
     | C_accept fd \<Rightarrow> ok (max 0 (Max (open_fds h) + 1))
     | C_select n rd wr ex tm \<Rightarrow> if rd = [] \<and> wr = [] then fails EINVAL
         else \<lparr>rv = int (length (remdups rd) + length (remdups wr)), err = None, outs = [V_ints (remdups rd), V_ints (remdups wr)]\<rparr>
     | C_read fd n \<Rightarrow> if length h mod 3 = 0 then ok_bytes [] else ok_bytes (take n [65, 66])
     | C_write fd bs \<Rightarrow> ok (int (length bs))
     | _ \<Rightarrow> ok 0)"

lemma finite_open_fds: "finite (open_fds h)"
proof (induction h rule: rev_induct)
  case (snoc p h)
  then show ?case by (cases p) (auto simp: open_fds_append open_step_def split: ccall.split)
qed (simp add: open_fds_def)

lemma Max_open_fds: "max 0 (Max (open_fds h) + 1) \<notin> open_fds h"
  using Max_ge[OF finite_open_fds, of "max 0 (Max (open_fds h) + 1)" h] by auto

lemma busy_select: "select_ok busy_os" "select_counts busy_os"
proof -
  have sel: "busy_os h (C_select n rd wr ex tm) = (if rd = [] \<and> wr = [] then fails EINVAL
      else \<lparr>rv = int (length (remdups rd) + length (remdups wr)), err = None, outs = [V_ints (remdups rd), V_ints (remdups wr)]\<rparr>)" for h n rd wr ex tm
    by (simp add: busy_os_def)
  have "0 \<le> rv (busy_os h (C_select n rd wr ex tm)) \<Longrightarrow> rd \<noteq> [] \<or> wr \<noteq> []" for h n rd wr ex tm by (simp add: sel fails_def split: if_splits)
  then have sel': "0 \<le> rv (busy_os h (C_select n rd wr ex tm)) \<Longrightarrow> (rd \<noteq> [] \<or> wr \<noteq> []) \<and>
     rv (busy_os h (C_select n rd wr ex tm)) = int (length (remdups rd) + length (remdups wr)) \<and>
     out_ints 0 (busy_os h (C_select n rd wr ex tm)) = remdups rd \<and> out_ints 1 (busy_os h (C_select n rd wr ex tm)) = remdups wr" for h n rd wr ex tm
    by (simp add: sel out_ints_def)
  have remdups_Nil: "remdups x = [] \<longleftrightarrow> x = []" for x :: "int list" by simp
  show "select_ok busy_os" "select_counts busy_os" unfolding select_ok_def select_counts_def Let_def
    by (intro conjI allI impI; drule sel'; elim conjE; simp only: set_remdups distinct_remdups remdups_Nil subset_refl)+
qed

lemma busy_env: "srv_env busy_os"
proof -
  have "accept_ok busy_os" unfolding accept_ok_def
  proof (intro allI conjI impI)
    fix h fd
    show "\<exists>k. \<not> aborted (busy_os ((retry_hist busy_os (C_accept fd) ^^ k) h) (C_accept fd))"
      by (rule exI[of _ 0]) (simp add: busy_os_def aborted_def ok_def)
    assume "rv (busy_os h (C_accept fd)) < 0"
    then show "err (busy_os h (C_accept fd)) \<noteq> None" by (simp add: busy_os_def ok_def)
  qed
  moreover have "fair busy_os (C_write fd bs)" for fd bs
    unfolding fair_def by (intro allI exI[of _ 0]) (simp add: busy_os_def interrupted_def ok_def)
  moreover have "read_ok busy_os" "write_ok busy_os" by (auto simp: read_ok_def write_ok_def busy_os_def sysret_defs Let_def)
  moreover have "fresh_ok busy_os" using Max_open_fds by (simp add: fresh_ok_def busy_os_def ok_def)
  moreover note busy_select
  ultimately show ?thesis by (simp add: srv_env_def)
qed

theorem select_server_echoes_witness:
  "select_server busy_os fresh_proc = cbind (srv_upto busy_os 5) (\<lambda>(listenfd, st). srv_loop busy_os listenfd st) fresh_proc \<and>
    wp (srv_upto busy_os 5) (\<lambda>r t. case r of
        Ret (listenfd, st) \<Rightarrow> (\<forall>fd. written fd (calls t) = received fd (calls t)) \<and> srv_inv listenfd st \<and>
          open_fds (calls t) = {0, 1, 2} \<union> insert listenfd (conns st) \<and> conns st \<inter> {0, 1, 2} = {}
      | Exit k \<Rightarrow> k = 1 \<and> (\<forall>fd. \<exists>p. received fd (calls t) = written fd (calls t) @ p)
      | Abort \<Rightarrow> False) fresh_proc"
proof -
  have c: "calls fresh_proc = []" "open_fds [] = {0, 1, 2}" by (simp_all add: fresh_proc_def open_fds_def)
  note e = select_server_echoes[OF busy_env, of fresh_proc 5, unfolded c append_Nil]
  show ?thesis by (rule conjI[OF conjunct1[OF e] wp_mono[OF conjunct2[OF e]]]) (auto split: outcome.splits)
qed

theorem select_server_serves_witness:
  "let t = fresh_proc\<lparr>calls := [(C_socket AF_INET SOCK_STREAM 0, ok 3)]\<rparr> in
   srv_inv 3 (srv_init 3) \<and> insert 3 (conns (srv_init 3)) \<subseteq> open_fds (calls t) \<and>
   wp (srv_round busy_os 3 (srv_init 3)) (\<lambda>x t'. case x of
        Ret st' \<Rightarrow> srv_inv 3 st' \<and> (\<exists>r w. calls t' = calls t @ (C_select (maxfd (srv_init 3) + 1) (allset (srv_init 3)) [] [] None, r) # w \<and>
          reads_of w = filter (\<lambda>c. 0 \<le> c \<and> c \<in> set (out_ints 0 r)) (client (srv_init 3)))
      | Exit k \<Rightarrow> k = 1 | Abort \<Rightarrow> False) t"
proof -
  let ?t = "fresh_proc\<lparr>calls := [(C_socket AF_INET SOCK_STREAM 0, ok 3)]\<rparr>"
  have i: "srv_inv 3 (srv_init 3)" "conns (srv_init 3) = {}" using srv_init_inv[of 3] by auto
  have o: "insert 3 (conns (srv_init 3)) \<subseteq> open_fds (calls ?t)" unfolding i(2) by (simp add: open_fds_def ok_def)
  show ?thesis unfolding Let_def by (intro conjI i(1) o select_server_serves[OF busy_env i(1) o])
qed

theorem select_server_limit_witness:
  "wp (srv_upto busy_os 5) (\<lambda>r t. case r of
        Ret (listenfd, st) \<Rightarrow> srv_free (client st) < FD_SETSIZE \<or> (\<exists>fd \<in> set (allset st). int FD_SETSIZE \<le> fd)
      | Exit k \<Rightarrow> k = 1 | Abort \<Rightarrow> False) fresh_proc"
  by (rule select_server_limit[OF busy_env])

end
