(* ===== verification/Web.thy ===== *)
theory Web
  imports Select_Server
begin

text \<open>
  The web client with simultaneous connections, nonblock/web.c with home_page.c, start_connect.c and write_get_cmd.c:
  at most \<open>maxnconn\<close> nonblocking connections at a time, the files of the command line one after the other, and a
  \<open>select\<close> over all of them. The globals of web.h are a record. A request longer than its buffer is sent with what lies
  behind the buffer in memory; that memory is the parameter \<open>stack\<close>.
\<close>

section \<open>nonblock/web.h\<close>

definition MAXFILES :: nat where "MAXFILES = 20"

abbreviation (input) F_CONNECTING :: int where "F_CONNECTING \<equiv> 1"
abbreviation (input) F_READING :: int where "F_READING \<equiv> 2"
abbreviation (input) F_DONE :: int where "F_DONE \<equiv> 4"
abbreviation (input) SERV :: string where "SERV \<equiv> ''80''"

record webfile =
  f_name :: string
  f_host :: string
  f_fd :: int
  f_flags :: int

record web =
  files :: "webfile list"
  nconn :: int
  nlefttoconn :: int
  nlefttoread :: int
  web_maxfd :: int
  rset :: "int list"
  wset :: "int list"

definition get_cmd :: "string \<Rightarrow> string" where
  "get_cmd fname = ''GET '' @ fname @ '' HTTP/1.0'' @ [CHR 0x0D, CHR 0x0A, CHR 0x0D, CHR 0x0A]"

text \<open>
  The memory from the start of \<open>line\<close> on, after \<open>snprintf(line, m, ...)\<close>: the text cut to \<open>m - 1\<close> characters, a null
  byte, and behind them what was there before, the rest of the array and then the rest of the stack. The number
  \<open>n\<close> that \<open>snprintf\<close> returns is the length of the whole text, and \<open>Writen(fd, line, n)\<close> takes that many bytes of the memory.
\<close>

definition snprintf_mem :: "nat \<Rightarrow> string \<Rightarrow> (nat \<Rightarrow> byte) \<Rightarrow> nat \<Rightarrow> byte" where
  "snprintf_mem m text mem j = (let cut = snprintf_text m text in
     if j < length cut then to_bytes cut ! j else if j = length cut then 0 else mem j)"

definition get_line :: "(nat \<Rightarrow> byte) \<Rightarrow> string \<Rightarrow> byte list" where
  "get_line stack fname =
     (let n = length (get_cmd fname); line = snprintf_mem MAXLINE (get_cmd fname) stack in map line [0..<n])"

definition web_printf :: "os \<Rightarrow> string \<Rightarrow> cval list \<Rightarrow> ('z proc_scheme, unit) cprog" where
  "web_printf os fmt args = cbind (call os (C_lib ''printf'' (V_str (fmt @ [CHR 0x0A]) # args))) (\<lambda>_. creturn ())"

section \<open>nonblock/write_get_cmd.c and nonblock/start_connect.c\<close>

definition web_reading :: "nat \<Rightarrow> web \<Rightarrow> web" where
  "web_reading i st = (let f = files st ! i in
     st\<lparr>files := (files st)[i := f\<lparr>f_flags := F_READING\<rparr>], rset := FD_SET (f_fd f) (rset st),
        web_maxfd := (if f_fd f > web_maxfd st then f_fd f else web_maxfd st)\<rparr>)"

definition write_get_cmd :: "os \<Rightarrow> (nat \<Rightarrow> byte) \<Rightarrow> nat \<Rightarrow> web \<Rightarrow> ('z proc_scheme, web) cprog" where
  "write_get_cmd os stack i st = (let f = files st ! i; line = get_line stack (f_name f) in
     cbind (Writen os (f_fd f) line) (\<lambda>_.
     cbind (web_printf os ''wrote %d bytes for %s'' [V_int (int (length line)), V_str (f_name f)]) (\<lambda>_.
     creturn (web_reading i st))))"

definition web_connecting :: "nat \<Rightarrow> web \<Rightarrow> web" where
  "web_connecting i st = (let f = files st ! i in
     st\<lparr>files := (files st)[i := f\<lparr>f_flags := F_CONNECTING\<rparr>], rset := FD_SET (f_fd f) (rset st), wset := FD_SET (f_fd f) (wset st),
        web_maxfd := (if f_fd f > web_maxfd st then f_fd f else web_maxfd st)\<rparr>)"

definition start_connect :: "os \<Rightarrow> (nat \<Rightarrow> byte) \<Rightarrow> nat \<Rightarrow> web \<Rightarrow> ('z proc_scheme, web) cprog" where
  "start_connect os stack i st = (let f = files st ! i in
     cbind (Host_serv os (Some (f_host f)) (Some SERV) 0 SOCK_STREAM) (\<lambda>ais.
     if ais = [] then cabort
     else let ai = hd ais in
     cbind (Socket os (ai_family ai) (ai_socktype ai) (ai_protocol ai)) (\<lambda>fd.
     let st = st\<lparr>files := (files st)[i := f\<lparr>f_fd := fd\<rparr>]\<rparr> in
     cbind (web_printf os ''start_connect for %s, fd %d'' [V_str (f_name f), V_int fd]) (\<lambda>_.
     cbind (set_nonblock os fd) (\<lambda>_.
     cbind (call os (C_connect fd (ai_addr ai) (ai_addrlen ai))) (\<lambda>n.
     if rv n < 0 then
       cbind (cget errno) (\<lambda>e.
       if e \<noteq> EINPROGRESS then err_sys os ''nonblocking connect error'' else creturn (web_connecting i st))
     else write_get_cmd os stack i st))))))"

section \<open>nonblock/home_page.c\<close>

partial_function (option) home_read :: "os \<Rightarrow> int \<Rightarrow> 'z proc_scheme \<Rightarrow> (unit outcome \<times> 'z proc_scheme) option" where
  "home_read os fd s =
     cbind (Read os fd MAXLINE) (\<lambda>n.
     if rv n = 0 then creturn ()
     else cbind (web_printf os ''read %d bytes of home page'' [V_int (rv n)]) (\<lambda>_. home_read os fd)) s"

definition home_page :: "os \<Rightarrow> (nat \<Rightarrow> byte) \<Rightarrow> string \<Rightarrow> string \<Rightarrow> ('z proc_scheme, unit) cprog" where
  "home_page os stack host fname =
     cbind (Tcp_connect os host SERV) (\<lambda>fd.
     cbind (Writen os fd (get_line stack fname)) (\<lambda>_.
     cbind (home_read os fd) (\<lambda>_.
     cbind (web_printf os ''end-of-file on home page'' []) (\<lambda>_.
     Close os fd))))"

section \<open>nonblock/web.c\<close>

fun web_free :: "webfile list \<Rightarrow> nat" where
  "web_free [] = 0"
| "web_free (f # fs) = (if f_flags f = 0 then 0 else Suc (web_free fs))"

partial_function (option) web_connects ::
    "os \<Rightarrow> (nat \<Rightarrow> byte) \<Rightarrow> int \<Rightarrow> web \<Rightarrow> 'z proc_scheme \<Rightarrow> (web outcome \<times> 'z proc_scheme) option" where
  "web_connects os stack maxnconn st s =
     (if nconn st < maxnconn \<and> nlefttoconn st > 0 then
        if web_free (files st) = length (files st)
        then err_quit os (''nlefttoconn = '' @ print_int (nlefttoconn st) @ '' but nothing found'')
        else cbind (start_connect os stack (web_free (files st)) st) (\<lambda>st.
             web_connects os stack maxnconn (st\<lparr>nconn := nconn st + 1, nlefttoconn := nlefttoconn st - 1\<rparr>))
      else creturn st) s"

definition web_done :: "nat \<Rightarrow> web \<Rightarrow> web" where
  "web_done i st = (let f = files st ! i in
     st\<lparr>files := (files st)[i := f\<lparr>f_flags := F_DONE\<rparr>], rset := FD_CLR (f_fd f) (rset st),
        nconn := nconn st - 1, nlefttoread := nlefttoread st - 1\<rparr>)"

definition web_file :: "os \<Rightarrow> (nat \<Rightarrow> byte) \<Rightarrow> int list \<Rightarrow> int list \<Rightarrow> nat \<Rightarrow> web \<Rightarrow> ('z proc_scheme, web) cprog" where
  "web_file os stack rs ws i st = (let f = files st ! i; flags = f_flags f; fd = f_fd f in
     if flags = 0 \<or> flags AND F_DONE \<noteq> 0 then creturn st
     else if flags AND F_CONNECTING \<noteq> 0 \<and> (fd \<in> set rs \<or> fd \<in> set ws) then
       cbind (call os (C_getsockopt fd SOL_SOCKET SO_ERROR)) (\<lambda>r.
       cbind (if rv r < 0 \<or> out_int r \<noteq> 0 then err_ret os (''nonblocking connect failed for '' @ f_name f) else creturn ()) (\<lambda>_.
       cbind (web_printf os ''connection established for %s'' [V_str (f_name f)]) (\<lambda>_.
       write_get_cmd os stack i (st\<lparr>wset := FD_CLR fd (wset st)\<rparr>))))
     else if flags AND F_READING \<noteq> 0 \<and> fd \<in> set rs then
       cbind (Read os fd MAXLINE) (\<lambda>n.
       if rv n = 0 then
         cbind (web_printf os ''end-of-file on %s'' [V_str (f_name f)]) (\<lambda>_.
         cbind (Close os fd) (\<lambda>_. creturn (web_done i st)))
       else cbind (web_printf os ''read %d bytes from %s'' [V_int (rv n), V_str (f_name f)]) (\<lambda>_. creturn st))
     else creturn st)"

fun web_scan :: "os \<Rightarrow> (nat \<Rightarrow> byte) \<Rightarrow> int list \<Rightarrow> int list \<Rightarrow> nat list \<Rightarrow> web \<Rightarrow> ('z proc_scheme, web) cprog" where
  "web_scan os stack rs ws [] st = creturn st"
| "web_scan os stack rs ws (i # is) st = cbind (web_file os stack rs ws i st) (\<lambda>st. web_scan os stack rs ws is st)"

definition web_round :: "os \<Rightarrow> (nat \<Rightarrow> byte) \<Rightarrow> int \<Rightarrow> web \<Rightarrow> ('z proc_scheme, web) cprog" where
  "web_round os stack maxnconn st =
     cbind (web_connects os stack maxnconn st) (\<lambda>st.
     cbind (Select os (web_maxfd st + 1) (rset st) (wset st) [] None) (\<lambda>r.
     web_scan os stack (out_ints 0 r) (out_ints 1 r) [0..<length (files st)] st))"

partial_function (option) web_loop ::
    "os \<Rightarrow> (nat \<Rightarrow> byte) \<Rightarrow> int \<Rightarrow> web \<Rightarrow> 'z proc_scheme \<Rightarrow> (web outcome \<times> 'z proc_scheme) option" where
  "web_loop os stack maxnconn st s =
     (if nlefttoread st > 0 then cbind (web_round os stack maxnconn st) (\<lambda>st. web_loop os stack maxnconn st) else creturn st) s"

definition web_start :: "webfile list \<Rightarrow> web" where
  "web_start fs = \<lparr>files = fs, nconn = 0, nlefttoconn = int (length fs), nlefttoread = int (length fs), web_maxfd = - 1, rset = [], wset = []\<rparr>"

definition web_main :: "os \<Rightarrow> (nat \<Rightarrow> byte) \<Rightarrow> string list \<Rightarrow> ('z proc_scheme, unit) cprog" where
  "web_main os stack argv =
     (if length argv < 5 then err_quit os ''usage: web <#conns> <hostname> <homepage> <file1> ...''
      else let fs = map (\<lambda>fname. \<lparr>f_name = fname, f_host = argv ! 2, f_fd = 0, f_flags = 0\<rparr>) (take MAXFILES (drop 4 argv)) in
      cbind (web_printf os ''nfiles = %d'' [V_int (int (length fs))]) (\<lambda>_.
      cbind (home_page os stack (argv ! 2) (argv ! 3)) (\<lambda>_.
      cbind (web_loop os stack (atoi (argv ! 1)) (web_start fs)) (\<lambda>_. cexit 0))))"

section \<open>Histories\<close>

text \<open>Calls that open, close, read and write nothing.\<close>

definition plain :: "ccall \<Rightarrow> bool" where
  "plain c \<longleftrightarrow> (case c of C_socket a b d \<Rightarrow> False | C_accept f \<Rightarrow> False | C_close f \<Rightarrow> False | C_read f n \<Rightarrow> False | C_write f bs \<Rightarrow> False | _ \<Rightarrow> True)"

definition total_read :: "hist \<Rightarrow> nat" where
  "total_read h = sum_list (map (\<lambda>p. case fst p of C_read fd n \<Rightarrow> nat (rv (snd p)) | _ \<Rightarrow> 0) h)"

lemma total_read_append [simp]: "total_read (g @ h) = total_read g + total_read h" "total_read [] = 0"
  by (simp_all add: total_read_def)

lemma total_read_single [simp]:
  "total_read [(C_read fd n, r)] = nat (rv r)" "total_read [(C_close fd, r)] = 0" "total_read [(C_socket a b c, r)] = 0"
  by (simp_all add: total_read_def)

lemma plain_frame:
  assumes "\<forall>p \<in> set w. plain (fst p)"
  shows "foldl open_step S w = S" and "written fd w = []" and "total_read w = 0"
  using assms by (induction w arbitrary: S)
    (auto simp: plain_def open_step_def written_def write_bytes_def total_read_def split: ccall.splits)

lemma only_writes_total: "only_writes fd w \<Longrightarrow> total_read w = 0"
  by (induction w) (auto simp: total_read_def)

lemma reporting_plain: "reporting c \<Longrightarrow> plain c"
  by (cases c) (simp_all add: reporting_def plain_def)

text \<open>Never more than \<open>m\<close> descriptors beside those of \<open>B\<close>.\<close>

definition limited :: "int set \<Rightarrow> nat \<Rightarrow> hist \<Rightarrow> hist \<Rightarrow> bool" where
  "limited B m h0 new \<longleftrightarrow> (\<forall>k \<le> length new. card (open_fds (h0 @ take k new) - B) \<le> m)"

lemma limited_snoc: "limited B m h0 new \<Longrightarrow> card (open_fds (h0 @ new @ [p]) - B) \<le> m \<Longrightarrow> limited B m h0 (new @ [p])"
  by (auto simp: limited_def le_Suc_eq)

definition opens :: "ccall \<Rightarrow> bool" where
  "opens c \<longleftrightarrow> (case c of C_socket a b d \<Rightarrow> True | C_accept f \<Rightarrow> True | _ \<Rightarrow> False)"

lemma limited_calm:
  assumes "limited B m h0 new" and "\<not> opens c"
  shows "limited B m h0 (new @ [(c, r)])"
proof (rule limited_snoc[OF assms(1)])
  have "open_fds (h0 @ new @ [(c, r)]) \<subseteq> open_fds (h0 @ new)"
    using assms(2) unfolding append_assoc[symmetric] open_fds_append[of "h0 @ new"] by (auto simp: open_step_def opens_def split: ccall.splits)
  then have "card (open_fds (h0 @ new @ [(c, r)]) - B) \<le> card (open_fds (h0 @ new) - B)"
    by (intro card_mono) (auto simp: finite_open_fds)
  also have "\<dots> \<le> m" using assms(1) by (auto simp: limited_def)
  finally show "card (open_fds (h0 @ new @ [(c, r)]) - B) \<le> m" .
qed

interpretation lim: exit_safe "limited B m h0" "\<lambda>c. \<not> opens c" for B m h0
  by unfold_locales (auto intro: limited_calm simp: reporting_def opens_def split: ccall.splits)

abbreviation lim_post :: "int set \<Rightarrow> nat \<Rightarrow> hist \<Rightarrow> ('a \<Rightarrow> 'z proc_scheme \<Rightarrow> bool) \<Rightarrow> 'a outcome \<Rightarrow> 'z proc_scheme \<Rightarrow> bool" where
  "lim_post B m h0 \<equiv> safe_post (limited B m h0) h0"

text \<open>A part of the program that makes plain calls only.\<close>

definition plain_post :: "'z proc_scheme \<Rightarrow> 'z proc_scheme \<Rightarrow> bool" where
  "plain_post t t' \<longleftrightarrow> (\<exists>w. calls t' = calls t @ w \<and> (\<forall>p \<in> set w. plain (fst p)))"

lemma plain_post_refl [simp]: "plain_post t t"
  by (simp add: plain_post_def)

lemma plain_post_trans: "plain_post t u \<Longrightarrow> plain_post u v \<Longrightarrow> plain_post t v"
  by (fastforce simp: plain_post_def)

lemma plain_post_after: "plain c \<Longrightarrow> plain_post t (after os c t)"
  by (simp add: plain_post_def)

lemma plain_not_opens: "plain c \<Longrightarrow> \<not> opens c"
  by (cases c) (simp_all add: plain_def opens_def)

lemma plain_call:
  assumes "plain c" and "calls t = h0 @ new" and "limited B m h0 new"
    and "\<not> bad (os (calls t) c) \<Longrightarrow> P (g (os (calls t) c)) (after os c t)"
  shows "wp (cbind (call os c) (\<lambda>r. if bad r then err_sys os msg else creturn (g r))) (lim_post B m h0 P) t"
  by (rule lim.quiet_call[OF assms(2,3) plain_not_opens[OF assms(1)]]) (rule assms(4))

lemma plain_printf: "wp (web_printf os fmt args) (lim_post B m h0 (\<lambda>_ t'. plain_post t t')) t"
  by (auto simp: web_printf_def wp_bind wp_call wp_basic plain_def intro!: plain_post_after)

lemma plain_err_ret: "wp (err_ret os msg) (lim_post B m h0 (\<lambda>_ t'. plain_post t t')) t"
  using err_state_reports[of os True LOG_INFO msg t] by (auto simp: wp_err_return plain_post_def reporting_plain)

lemma plain_hist:
  assumes "plain_post t u" and "calls t = h0 @ new" and "limited B m h0 new"
  shows "\<exists>w. calls u = h0 @ (new @ w) \<and> limited B m h0 (new @ w) \<and> calls u = calls t @ w \<and> (\<forall>p \<in> set w. plain (fst p))"
  using assms lim.quiet[OF assms(3)] by (auto simp: plain_post_def plain_not_opens)

section \<open>Counters and sets\<close>

definition act :: "webfile \<Rightarrow> bool" where
  "act f \<longleftrightarrow> f_flags f = F_CONNECTING \<or> f_flags f = F_READING"

definition cnt :: "(webfile \<Rightarrow> bool) \<Rightarrow> webfile list \<Rightarrow> int" where
  "cnt P fs = int (length (filter P fs))"

definition fds :: "(webfile \<Rightarrow> bool) \<Rightarrow> webfile list \<Rightarrow> int set" where
  "fds P fs = f_fd ` {f \<in> set fs. P f}"

lemma cnt_update:
  assumes "i < length fs"
  shows "cnt P (fs[i := g]) = cnt P fs - (if P (fs ! i) then 1 else 0) + (if P g then 1 else 0)"
  unfolding cnt_def filter_update[OF assms] filter_entry[OF assms, of P] by simp

lemma fds_filter: "fds P fs = set (map f_fd (filter P fs))"
  by (auto simp: fds_def)

lemma fds_update_new:
  assumes "i < length fs" and "\<not> P (fs ! i)"
  shows "fds P (fs[i := g]) = fds P fs \<union> (if P g then {f_fd g} else {})"
  unfolding fds_filter filter_update[OF assms(1)] filter_entry[OF assms(1), of P] using assms(2) by auto

lemma fds_update_old:
  assumes i: "i < length fs" and d: "distinct (map f_fd (filter P fs))" and p: "P (fs ! i)"
  shows "fds P (fs[i := g]) = (fds P fs - {f_fd (fs ! i)}) \<union> (if P g then {f_fd g} else {})"
  using d p unfolding fds_filter filter_update[OF i] filter_entry[OF i, of P] by auto

lemma distinct_update:
  assumes i: "i < length fs" and d: "distinct (map f_fd (filter P fs))" and new: "P g \<Longrightarrow> f_fd g \<in> fds P fs \<Longrightarrow> P (fs ! i) \<and> f_fd g = f_fd (fs ! i)"
  shows "distinct (map f_fd (filter P (fs[i := g])))"
proof -
  define a where "a = map f_fd (filter P (take i fs))"
  define b where "b = map f_fd (filter P (drop (Suc i) fs))"
  have "map f_fd (filter P fs) = a @ (if P (fs ! i) then [f_fd (fs ! i)] else []) @ b"
    unfolding filter_entry[OF i, of P] by (simp add: a_def b_def)
  moreover have "map f_fd (filter P (fs[i := g])) = a @ (if P g then [f_fd g] else []) @ b"
    unfolding filter_update[OF i] by (simp add: a_def b_def)
  ultimately show ?thesis using d new unfolding fds_filter by (auto split: if_splits)
qed

definition web_inv :: "string list \<Rightarrow> web \<Rightarrow> bool" where
  "web_inv names st \<longleftrightarrow> map f_name (files st) = names \<and> (\<forall>f \<in> set (files st). f_flags f \<in> {0, F_CONNECTING, F_READING, F_DONE}) \<and>
     nlefttoconn st = cnt (\<lambda>f. f_flags f = 0) (files st) \<and> nlefttoread st = cnt (\<lambda>f. f_flags f \<noteq> F_DONE) (files st) \<and>
     nconn st = cnt act (files st) \<and> distinct (map f_fd (filter act (files st))) \<and>
     set (rset st) = fds act (files st) \<and> set (wset st) = fds (\<lambda>f. f_flags f = F_CONNECTING) (files st) \<and>
     (\<forall>fd \<in> set (rset st). fd \<le> web_maxfd st)"

lemma distinct_connecting:
  assumes "distinct (map f_fd (filter act fs))"
  shows "distinct (map f_fd (filter (\<lambda>f. f_flags f = F_CONNECTING) fs))"
proof -
  have "filter (\<lambda>f. f_flags f = F_CONNECTING) fs = filter (\<lambda>f. f_flags f = F_CONNECTING) (filter act fs)"
    unfolding filter_filter by (rule filter_cong) (auto simp: act_def)
  then show ?thesis using distinct_map_filter[OF assms] by simp
qed

lemma set_update: "i < length fs \<Longrightarrow> Q g \<Longrightarrow> \<forall>f \<in> set fs. Q f \<Longrightarrow> \<forall>f \<in> set (fs[i := g]). Q f"
  using set_update_subset_insert[of fs i g] by auto

lemma map_name_update: "i < length fs \<Longrightarrow> f_name g = f_name (fs ! i) \<Longrightarrow> map f_name (fs[i := g]) = map f_name fs"
  by (metis list_update_id map_update nth_map)

text \<open>The four transitions of a file.\<close>

lemma web_inv_start:
  fixes st :: web
  assumes inv: "web_inv names st" and i: "i < length (files st)" and f: "f_flags (files st ! i) = 0" and fd: "fd \<notin> fds act (files st)"
  defines "st1 \<equiv> st\<lparr>files := (files st)[i := (files st ! i)\<lparr>f_fd := fd\<rparr>]\<rparr>"
  shows "web_inv names ((web_connecting i st1)\<lparr>nconn := nconn st + 1, nlefttoconn := nlefttoconn st - 1\<rparr>)"
    and "web_inv names ((web_reading i st1)\<lparr>nconn := nconn st + 1, nlefttoconn := nlefttoconn st - 1\<rparr>)"
    and "fds act (files (web_connecting i st1)) = insert fd (fds act (files st))"
    and "fds act (files (web_reading i st1)) = insert fd (fds act (files st))"
proof -
  let ?g = "\<lambda>x. (files st ! i)\<lparr>f_fd := fd, f_flags := x\<rparr>"
  have fs: "files (web_connecting i st1) = (files st)[i := ?g 1]" "files (web_reading i st1) = (files st)[i := ?g 2]"
    using i by (simp_all add: web_connecting_def web_reading_def st1_def Let_def)
  have na: "\<not> act (files st ! i)" using f by (simp add: act_def)
  have d: "distinct (map f_fd (filter act ((files st)[i := ?g x])))" for x
    by (rule distinct_update[OF i]) (use inv fd in \<open>auto simp: web_inv_def\<close>)
  have a: "fds act ((files st)[i := ?g 1]) = insert fd (fds act (files st))" "fds act ((files st)[i := ?g 2]) = insert fd (fds act (files st))"
    using fds_update_new[where P = act, OF i na] by (simp_all add: act_def)
  have c: "fds (\<lambda>f. f_flags f = 1) ((files st)[i := ?g 1]) = insert fd (fds (\<lambda>f. f_flags f = 1) (files st))"
    "fds (\<lambda>f. f_flags f = 1) ((files st)[i := ?g 2]) = fds (\<lambda>f. f_flags f = 1) (files st)"
    using fds_update_new[OF i, of "\<lambda>f. f_flags f = 1"] f by simp_all
  have n: "map f_name ((files st)[i := ?g x]) = map f_name (files st)" for x by (rule map_name_update[OF i]) simp
  have fl: "\<forall>f \<in> set ((files st)[i := ?g x]). f_flags f \<in> {0, 1, 2, 4}" if "x \<in> {0, 1, 2, 4}" for x
    by (rule set_update[OF i]) (use inv that in \<open>simp_all add: web_inv_def\<close>)
  note counts = cnt_update[OF i]
  show "fds act (files (web_connecting i st1)) = insert fd (fds act (files st))"
    and "fds act (files (web_reading i st1)) = insert fd (fds act (files st))" unfolding fs by (rule a)+
  show "web_inv names ((web_connecting i st1)\<lparr>nconn := nconn st + 1, nlefttoconn := nlefttoconn st - 1\<rparr>)"
    using inv d n fl[of 1] unfolding web_inv_def
    by (simp add: fs a c counts f act_def) (auto simp: web_connecting_def st1_def Let_def FD_SET_def i act_def; force)
  show "web_inv names ((web_reading i st1)\<lparr>nconn := nconn st + 1, nlefttoconn := nlefttoconn st - 1\<rparr>)"
    using inv d n fl[of 2] unfolding web_inv_def
    by (simp add: fs a c counts f act_def) (auto simp: web_reading_def st1_def Let_def FD_SET_def i act_def; force)
qed

lemma web_inv_established:
  fixes st :: web
  assumes inv: "web_inv names st" and i: "i < length (files st)" and f: "f_flags (files st ! i) = F_CONNECTING"
  defines "st' \<equiv> web_reading i (st\<lparr>wset := FD_CLR (f_fd (files st ! i)) (wset st)\<rparr>)"
  shows "web_inv names st'" and "fds act (files st') = fds act (files st)" and "files st' = (files st)[i := (files st ! i)\<lparr>f_flags := F_READING\<rparr>]"
    and "nconn st' = nconn st"
proof -
  let ?f = "files st ! i" and ?g = "(files st ! i)\<lparr>f_flags := 2\<rparr>"
  have d: "distinct (map f_fd (filter act (files st)))" using inv by (simp add: web_inv_def)
  have ac: "act ?f" "act ?g" "f_fd ?f \<in> fds act (files st)" using f i by (auto simp: act_def fds_def)
  show fs: "files st' = (files st)[i := ?g]" and "nconn st' = nconn st" by (simp_all add: st'_def web_reading_def Let_def)
  have a: "fds act ((files st)[i := ?g]) = fds act (files st)"
    using fds_update_old[where P = act, OF i d ac(1), of ?g] ac(2,3) by auto
  then show "fds act (files st') = fds act (files st)" unfolding fs .
  have c: "fds (\<lambda>f. f_flags f = 1) ((files st)[i := ?g]) = fds (\<lambda>f. f_flags f = 1) (files st) - {f_fd ?f}"
    using fds_update_old[where P = "\<lambda>f. f_flags f = 1", OF i distinct_connecting[OF d] f, of ?g] by simp
  have d': "distinct (map f_fd (filter act ((files st)[i := ?g])))" by (rule distinct_update[OF i d]) (use ac in auto)
  have fl: "\<forall>f \<in> set ((files st)[i := ?g]). f_flags f \<in> {0, 1, 2, 4}" by (rule set_update[OF i]) (use inv in \<open>simp_all add: web_inv_def\<close>)
  have n: "map f_name ((files st)[i := ?g]) = map f_name (files st)" by (rule map_name_update[OF i]) simp
  have le: "f_fd ?f \<le> web_maxfd st" using inv ac(3) by (simp add: web_inv_def)
  then have r: "web_maxfd st' = web_maxfd st" by (simp add: st'_def web_reading_def Let_def)
  have r': "set (rset st') = set (rset st)" "set (wset st') = set (wset st) - {f_fd ?f}"
    "nlefttoconn st' = nlefttoconn st" "nlefttoread st' = nlefttoread st" "nconn st' = nconn st"
    using inv ac(3) by (auto simp: st'_def web_reading_def Let_def FD_SET_def FD_CLR_def web_inv_def)
  show "web_inv names st'" using inv d' n fl unfolding web_inv_def fs r r' by (simp add: a c cnt_update[OF i] f act_def)
qed

lemma web_inv_done:
  fixes st :: web
  assumes inv: "web_inv names st" and i: "i < length (files st)" and f: "f_flags (files st ! i) = F_READING"
  shows "web_inv names (web_done i st)" and "fds act (files (web_done i st)) = fds act (files st) - {f_fd (files st ! i)}"
    and "f_fd (files st ! i) \<in> fds act (files st)" and "files (web_done i st) = (files st)[i := (files st ! i)\<lparr>f_flags := F_DONE\<rparr>]"
    and "nconn (web_done i st) = nconn st - 1"
proof -
  let ?f = "files st ! i" and ?g = "(files st ! i)\<lparr>f_flags := 4\<rparr>"
  have d: "distinct (map f_fd (filter act (files st)))" using inv by (simp add: web_inv_def)
  have ac: "act ?f" "\<not> act ?g" using f by (auto simp: act_def)
  show fin: "f_fd ?f \<in> fds act (files st)" using ac(1) i by (auto simp: fds_def)
  show fs: "files (web_done i st) = (files st)[i := ?g]" and "nconn (web_done i st) = nconn st - 1" by (simp_all add: web_done_def Let_def)
  have a: "fds act ((files st)[i := ?g]) = fds act (files st) - {f_fd ?f}"
    using fds_update_old[where P = act, OF i d ac(1), of ?g] ac(2) by simp
  then show "fds act (files (web_done i st)) = fds act (files st) - {f_fd ?f}" unfolding fs .
  have c: "fds (\<lambda>f. f_flags f = 1) ((files st)[i := ?g]) = fds (\<lambda>f. f_flags f = 1) (files st)"
    using fds_update_new[where P = "\<lambda>f. f_flags f = 1", OF i, of ?g] f by simp
  have d': "distinct (map f_fd (filter act ((files st)[i := ?g])))" by (rule distinct_update[OF i d]) (use ac in auto)
  have fl: "\<forall>f \<in> set ((files st)[i := ?g]). f_flags f \<in> {0, 1, 2, 4}" by (rule set_update[OF i]) (use inv in \<open>simp_all add: web_inv_def\<close>)
  have n: "map f_name ((files st)[i := ?g]) = map f_name (files st)" by (rule map_name_update[OF i]) simp
  have r: "set (rset (web_done i st)) = set (rset st) - {f_fd ?f}" "wset (web_done i st) = wset st" "web_maxfd (web_done i st) = web_maxfd st"
    "nlefttoconn (web_done i st) = nlefttoconn st" "nlefttoread (web_done i st) = nlefttoread st - 1" "nconn (web_done i st) = nconn st - 1"
    by (auto simp: web_done_def Let_def FD_CLR_def)
  show "web_inv names (web_done i st)" using inv d' n fl unfolding web_inv_def fs r by (simp add: a c cnt_update[OF i] f act_def)
qed

lemma web_start_inv:
  assumes "\<forall>f \<in> set fs. f_flags f = 0"
  shows "web_inv (map f_name fs) (web_start fs)" and "fds act fs = {}"
proof -
  have "filter (\<lambda>f. f_flags f = 0) fs = fs" "filter (\<lambda>f. f_flags f \<noteq> 4) fs = fs" "filter act fs = []"
    using assms by (auto simp: act_def filter_id_conv filter_empty_conv)
  moreover have "fds (\<lambda>f. f_flags f = 1) fs = {}" using assms by (auto simp: fds_def)
  ultimately show "fds act fs = {}" "web_inv (map f_name fs) (web_start fs)"
    using assms by (simp_all add: web_inv_def web_start_def cnt_def fds_filter)
qed

section \<open>What is requested, and what is left\<close>

text \<open>\<open>order\<close> lists the requests made, with the descriptor each was sent on.\<close>

definition sent :: "(nat \<Rightarrow> byte) \<Rightarrow> string list \<Rightarrow> (int \<times> nat) list \<Rightarrow> int \<Rightarrow> byte list" where
  "sent stack names order fd = concat (map (\<lambda>p. if fst p = fd then get_line stack (names ! snd p) else []) order)"

definition requested :: "(nat \<Rightarrow> byte) \<Rightarrow> string list \<Rightarrow> nat set \<Rightarrow> hist \<Rightarrow> bool" where
  "requested stack names I new \<longleftrightarrow> (\<exists>order. distinct (map snd order) \<and> set (map snd order) = I \<and> (\<forall>fd. written fd new = sent stack names order fd))"

definition asked :: "webfile list \<Rightarrow> nat set" where
  "asked fs = {i. i < length fs \<and> (f_flags (fs ! i) = F_READING \<or> f_flags (fs ! i) = F_DONE)}"

lemma requested_more:
  assumes "requested stack names I new" and "i \<notin> I" and "\<And>fd'. written fd' w = (if fd' = fd then get_line stack (names ! i) else [])"
  shows "requested stack names (insert i I) (new @ w)"
proof -
  obtain order where "distinct (map snd order)" "set (map snd order) = I" "\<forall>fd. written fd new = sent stack names order fd"
    using assms(1) by (auto simp: requested_def)
  then show ?thesis unfolding requested_def using assms(2,3)
    by (intro exI[of _ "order @ [(fd, i)]"]) (auto simp: sent_def)
qed

lemma requested_quiet: "requested stack names I new \<Longrightarrow> (\<And>fd. written fd w = []) \<Longrightarrow> requested stack names I (new @ w)"
  by (simp add: requested_def)

lemma asked_update:
  assumes "i < length fs"
  shows "asked (fs[i := g]) = (if f_flags g = F_READING \<or> f_flags g = F_DONE then insert i (asked fs) else asked fs - {i})"
  using assms by (auto simp: asked_def nth_list_update split: if_splits)

definition weight :: "webfile \<Rightarrow> nat" where
  "weight f = (if f_flags f = 0 then 3 else if f_flags f = F_CONNECTING then 2 else if f_flags f = F_READING then 1 else 0)"

definition web_todo :: "nat \<Rightarrow> webfile list \<Rightarrow> hist \<Rightarrow> nat" where
  "web_todo N fs h = sum_list (map weight fs) + (N - total_read h)"

lemma weight_update:
  assumes "i < length fs" and "weight g < weight (fs ! i)"
  shows "sum_list (map weight (fs[i := g])) < sum_list (map weight fs)"
proof -
  have "sum_list (map weight fs) = sum_list (map weight (take i fs)) + weight (fs ! i) + sum_list (map weight (drop (Suc i) fs))"
    by (subst id_take_nth_drop[OF assms(1)]) simp
  moreover have "sum_list (map weight (fs[i := g])) = sum_list (map weight (take i fs)) + weight g + sum_list (map weight (drop (Suc i) fs))"
    unfolding upd_conv_take_nth_drop[OF assms(1)] by simp
  ultimately show ?thesis using assms(2) by simp
qed

definition web_ok :: "int set \<Rightarrow> nat \<Rightarrow> (nat \<Rightarrow> byte) \<Rightarrow> string list \<Rightarrow> hist \<Rightarrow> web \<Rightarrow> hist \<Rightarrow> bool" where
  "web_ok B m stack names h0 st new \<longleftrightarrow> web_inv names st \<and> nconn st \<le> int m \<and> open_fds (h0 @ new) = B \<union> fds act (files st) \<and>
     fds act (files st) \<inter> B = {} \<and> limited B m h0 new \<and> requested stack names (asked (files st)) new"

lemma web_ok_plain:
  assumes "web_ok B m stack names h0 st new" and "\<forall>p \<in> set w. plain (fst p)"
  shows "web_ok B m stack names h0 st (new @ w)"
  using assms plain_frame[OF assms(2)] lim.quiet[of B m h0 new w] plain_not_opens
  by (auto simp: web_ok_def open_fds_append requested_quiet simp flip: append_assoc)

end
