(* ===== verification/Web_Fetch.thy ===== *)
theory Web_Fetch
  imports Web
begin

text \<open>
  What the web client of nonblock/web.c does: every operation keeps the counters and sets true, every pass of the
  loop brings it nearer to its end, and the whole ends with every file requested once.
\<close>

section \<open>The operations\<close>

context exit_safe
begin

lemma Writen_safe:
  assumes w: "\<And>bs. calm (C_write fd bs)" and os: "write_ok os" "\<And>bs. fair os (C_write fd bs)" and t: "calls t = h0 @ new" "safe new"
  shows "wp (Writen os fd bs) (safe_post safe h0 (\<lambda>_ t'. \<exists>w. calls t' = calls t @ w \<and> only_writes fd w \<and> written fd w = bs \<and> safe (new @ w))) t"
proof -
  have s: "safe (new @ w)" if "only_writes fd w" for w
    by (rule quiet[OF t(2)]) (use that assms(1) in \<open>fastforce simp: only_writes_def\<close>)
  obtain p where p: "writen os fd bs t = Some p" unfolding writen_def using writen_loop_returns[OF os] by blast
  then have "writen_post fd (length bs) bs t p" unfolding writen_def by (rule writen_loop_partial[OF os(1)])
  then obtain w where w: "calls (snd p) = calls t @ w" "only_writes fd w"
    "fst p = Ret (int (length bs)) \<and> written fd w = bs \<or> fst p = Ret (- 1)" by (auto simp: writen_post_def)
  show ?thesis
  proof (cases "fst p = Ret (int (length bs))")
    case True
    then have "Writen os fd bs t = Some (Ret (), snd p)" using p by (cases p) (simp add: Writen_def)
    then show ?thesis by (rule wpI) (use w True s[OF w(2)] in auto)
  next
    case False
    then have "Writen os fd bs t = err_sys os ''writen error'' (snd p)" using p w(3) by (cases p) (simp add: Writen_def)
    moreover have "wp (err_sys os ''writen error'') (safe_post safe h0 (\<lambda>_ t'. \<exists>w. calls t' = calls t @ w \<and> only_writes fd w \<and> written fd w = bs \<and> safe (new @ w))) (snd p)"
      by (rule err(1)[OF _ s[OF w(2)]]) (use w(1) t(1) in simp)
    ultimately show ?thesis unfolding wp_def by simp
  qed
qed

end

text \<open>\<open>getaddrinfo\<close> returns at least one structure when it succeeds; the servers send a bounded number of bytes.\<close>

definition lookup_ok :: "os \<Rightarrow> bool" where
  "lookup_ok os \<longleftrightarrow> (\<forall>h a b hi. rv (os h (C_getaddrinfo a b hi)) = 0 \<longrightarrow> out_infos (os h (C_getaddrinfo a b hi)) \<noteq> [])"

definition bounded_total :: "os \<Rightarrow> nat \<Rightarrow> bool" where
  "bounded_total os N \<longleftrightarrow> (\<forall>h fd n. 0 < rv (os h (C_read fd n)) \<longrightarrow> total_read h + nat (rv (os h (C_read fd n))) \<le> N)"

definition web_env :: "os \<Rightarrow> nat \<Rightarrow> bool" where
  "web_env os N \<longleftrightarrow> read_ok os \<and> write_ok os \<and> (\<forall>fd bs. fair os (C_write fd bs)) \<and> fresh_ok os \<and> select_ok os \<and> lookup_ok os \<and> bounded_total os N"

lemma write_get_cmd_wp:
  fixes t :: "'z proc_scheme"
  assumes env: "web_env os N" and t: "calls t = h0 @ new" "limited B m h0 new"
  shows "wp (write_get_cmd os stack i st) (lim_post B m h0 (\<lambda>st' t'. st' = web_reading i st \<and> (\<exists>w. calls t' = calls t @ w \<and> limited B m h0 (new @ w) \<and>
     (\<forall>S. foldl open_step S w = S) \<and> total_read w = 0 \<and>
     (\<forall>fd. written fd w = (if fd = f_fd (files st ! i) then get_line stack (f_name (files st ! i)) else []))))) t"
  unfolding write_get_cmd_def Let_def
proof (rule lim.bind[OF lim.Writen_safe[OF _ _ _ t]], goal_cases)
  case (4 x u)
  let ?fd = "f_fd (files st ! i)"
  obtain w where u: "calls u = calls t @ w" and w: "only_writes ?fd w" "written ?fd w = get_line stack (f_name (files st ! i))" "limited B m h0 (new @ w)"
    using 4 by auto
  have hu: "calls u = h0 @ (new @ w)" using u t(1) by simp
  note frame = only_writes_frame(1)[OF w(1)] only_writes_total[OF w(1)] only_writes_moved(2)[OF w(1)]
  show ?case
  proof (rule lim.bind[OF plain_printf[where t = u]], goal_cases)
    case (1 y v)
    obtain q where q: "calls v = calls u @ q" "limited B m h0 ((new @ w) @ q)" "\<forall>p \<in> set q. plain (fst p)"
      using plain_hist[OF 1 hu w(3)] by blast
    then show ?case unfolding wp_basic using plain_frame[OF q(3)] w frame u by (auto intro!: exI[of _ "w @ q"])
  qed
qed (use env in \<open>auto simp: opens_def web_env_def\<close>)

lemma plain_calls [simp]:
  "plain (C_getaddrinfo a b hi)" "plain (C_lib x vs)" "plain (C_fcntl fd y z)" "plain (C_connect fd sa l)" "plain (C_getsockopt fd y z)"
  "plain (C_select n rd wr ex tm)"
  by (simp_all add: plain_def)

lemma Host_serv_wp:
  fixes t :: "'z proc_scheme"
  assumes env: "web_env os N" and t: "calls t = h0 @ new" "limited B m h0 new"
  shows "wp (Host_serv os a b fam ty) (lim_post B m h0 (\<lambda>ais t'. plain_post t t' \<and> ais \<noteq> [])) t"
proof -
  let ?c = "C_getaddrinfo a b (hints AI_CANONNAME fam ty)"
  define r where "r = os (calls t) ?c"
  define u where "u = after os ?c t"
  have u: "plain_post t u" unfolding u_def by (rule plain_post_after) simp
  have "wp (gai_quit os who h sv n) (lim_post B m h0 P) u" for who h sv n and P :: "addrinfo list \<Rightarrow> 'z proc_scheme \<Rightarrow> bool"
  proof -
    have "plain_post t (after os (C_lib ''gai_strerror'' [V_int n]) u)" by (rule plain_post_trans[OF u plain_post_after]) simp
    from plain_hist[OF this t] show ?thesis unfolding gai_quit_def wp_bind[of "call _ _"] wp_call outcome.case using lim.err(2) by blast
  qed
  moreover have "rv r = 0 \<Longrightarrow> out_infos r \<noteq> []" using env by (simp add: web_env_def lookup_ok_def r_def)
  ultimately show ?thesis using u unfolding Host_serv_def wp_bind[of "call _ _"] wp_call outcome.case r_def[symmetric] u_def[symmetric] by (simp add: wp_basic)
qed

lemma set_nonblock_plain:
  fixes t :: "'z proc_scheme"
  assumes t: "calls t = h0 @ new" "limited B m h0 new"
  shows "wp (set_nonblock os fd) (lim_post B m h0 (\<lambda>_ t'. plain_post t t')) t"
  unfolding set_nonblock_def
proof (rule lim.bind[where P = "\<lambda>_ u. plain_post t u"])
  show "wp (Fcntl os fd F_GETFL 0) (lim_post B m h0 (\<lambda>_ u. plain_post t u)) t"
    unfolding Fcntl_def by (rule plain_call[OF _ t]) (auto intro!: plain_post_after)
  fix v and u :: "'z proc_scheme"
  assume tu: "plain_post t u"
  then obtain w where w: "calls u = h0 @ (new @ w)" "limited B m h0 (new @ w)" using plain_hist[OF _ t] by blast
  have "wp (Fcntl os fd F_SETFL (v OR O_NONBLOCK)) (lim_post B m h0 (\<lambda>_ u'. plain_post u u')) u"
    unfolding Fcntl_def by (rule plain_call[OF _ w]) (auto intro!: plain_post_after)
  then show "wp (cbind (Fcntl os fd F_SETFL (v OR O_NONBLOCK)) (\<lambda>_. creturn ())) (lim_post B m h0 (\<lambda>_ u. plain_post t u)) u"
    by (rule lim.bind) (auto simp: wp_basic intro: plain_post_trans[OF tu])
qed

text \<open>Opening one more connection keeps to the limit, because the number of active files is known.\<close>

lemma card_active:
  assumes "web_inv names st"
  shows "int (card (fds act (files st))) = nconn st"
proof -
  have d: "distinct (map f_fd (filter act (files st)))" and n: "nconn st = cnt act (files st)" using assms by (simp_all add: web_inv_def)
  show ?thesis unfolding n cnt_def fds_filter distinct_card[OF d] by simp
qed

definition opened :: "int set \<Rightarrow> nat \<Rightarrow> hist \<Rightarrow> web \<Rightarrow> int \<Rightarrow> hist \<Rightarrow> bool" where
  "opened B m h0 st fd new \<longleftrightarrow> limited B m h0 new \<and> open_fds (h0 @ new) = insert fd (B \<union> fds act (files st)) \<and> fd \<notin> B \<and> fd \<notin> fds act (files st)"

lemma opened_quiet:
  assumes "opened B m h0 st fd new" and "limited B m h0 (new @ w)" and "\<And>S. foldl open_step S w = S"
  shows "opened B m h0 st fd (new @ w)"
  using assms by (simp add: opened_def open_fds_append)

lemma Socket_wp:
  fixes t :: "'z proc_scheme"
  assumes env: "web_env os N" and t: "calls t = h0 @ new" and ok: "web_ok B m stack names h0 st new" and room: "nconn st < int m"
  shows "wp (Socket os a b c) (lim_post B m h0 (\<lambda>fd t'. \<exists>r. calls t' = calls t @ [(C_socket a b c, r)] \<and> opened B m h0 st fd (new @ [(C_socket a b c, r)]))) t"
proof -
  let ?c = "C_socket a b c"
  define r where "r = os (calls t) ?c"
  define u where "u = after os ?c t"
  have u: "calls u = calls t @ [(?c, r)]" and hu: "calls u = h0 @ (new @ [(?c, r)])" using t by (simp_all add: u_def r_def)
  have o: "open_fds (calls t) = B \<union> fds act (files st)" "fds act (files st) \<inter> B = {}" and lim: "limited B m h0 new" and inv: "web_inv names st"
    using ok t by (auto simp: web_ok_def)
  have same: "open_fds (h0 @ new @ [(?c, r)]) = (if 0 \<le> rv r then insert (rv r) (open_fds (calls t)) else open_fds (calls t))"
    using t by (simp add: open_fds_append)
  have c: "card (fds act (files st)) < m" using card_active[OF inv] room by linarith
  have fr: "rv r \<notin> open_fds (calls t)" if "0 \<le> rv r" using env that unfolding web_env_def fresh_ok_def r_def by blast
  have "limited B m h0 (new @ [(?c, r)])"
  proof (rule limited_snoc[OF lim])
    have "open_fds (h0 @ new @ [(?c, r)]) - B \<subseteq> insert (rv r) (fds act (files st))" using o unfolding same by auto
    then have "card (open_fds (h0 @ new @ [(?c, r)]) - B) \<le> card (insert (rv r) (fds act (files st)))"
      by (rule card_mono[rotated]) (simp add: fds_def)
    also have "\<dots> \<le> Suc (card (fds act (files st)))" by (rule card_insert_le_m1) (simp_all add: fds_def)
    finally show "card (open_fds (h0 @ new @ [(?c, r)]) - B) \<le> m" using c by simp
  qed
  then have "wp (err_sys os ''socket error'') (lim_post B m h0 P) u" "0 \<le> rv r \<Longrightarrow> opened B m h0 st (rv r) (new @ [(?c, r)])"
    for P :: "int \<Rightarrow> 'z proc_scheme \<Rightarrow> bool"
    using lim.err(1)[OF hu] same fr o by (auto simp: opened_def)
  then show ?thesis using u unfolding Socket_def wp_bind[of "call _ _"] wp_call outcome.case r_def[symmetric] u_def[symmetric]
    by (auto simp: wp_basic)
qed

definition counted :: "web \<Rightarrow> web" where
  "counted st = st\<lparr>nconn := nconn st + 1, nlefttoconn := nlefttoconn st - 1\<rparr>"

text \<open>The state once the connection is being set up, or is established at once and the request is sent.\<close>

lemma started:
  fixes st :: web
  assumes ok: "web_ok B m stack names h0 st new" and room: "nconn st < int m" and i: "i < length (files st)" "f_flags (files st ! i) = 0"
    and new': "opened B m h0 st fd new'" and "total_read new' = total_read new"
  defines "st1 \<equiv> st\<lparr>files := (files st)[i := (files st ! i)\<lparr>f_fd := fd\<rparr>]\<rparr>"
  shows "requested stack names (asked (files st)) new' \<Longrightarrow> web_ok B m stack names h0 (counted (web_connecting i st1)) new'"
    and "requested stack names (insert i (asked (files st))) new' \<Longrightarrow> web_ok B m stack names h0 (counted (web_reading i st1)) new'"
    and "web_todo N (files (web_connecting i st1)) (h0 @ new') < web_todo N (files st) (h0 @ new)"
    and "web_todo N (files (web_reading i st1)) (h0 @ new') < web_todo N (files st) (h0 @ new)"
proof -
  have inv: "web_inv names st" and fresh: "fd \<notin> fds act (files st)" using ok new' by (auto simp: web_ok_def opened_def)
  note start = web_inv_start[OF inv i fresh, folded st1_def]
  have fs: "files (web_connecting i st1) = (files st)[i := (files st ! i)\<lparr>f_fd := fd, f_flags := 1\<rparr>]"
    "files (web_reading i st1) = (files st)[i := (files st ! i)\<lparr>f_fd := fd, f_flags := 2\<rparr>]"
    using i by (simp_all add: web_connecting_def web_reading_def st1_def Let_def)
  have n: "nconn (web_connecting i st1) = nconn st" "nlefttoconn (web_connecting i st1) = nlefttoconn st"
    "nconn (web_reading i st1) = nconn st" "nlefttoconn (web_reading i st1) = nlefttoconn st"
    by (simp_all add: web_connecting_def web_reading_def st1_def Let_def)
  have asked: "asked (files (web_connecting i st1)) = asked (files st)" "asked (files (web_reading i st1)) = insert i (asked (files st))"
    unfolding fs asked_update[OF i(1)] using i by (simp_all add: asked_def)
  show "web_ok B m stack names h0 (counted (web_connecting i st1)) new'" if "requested stack names (asked (files st)) new'"
    using start(1,3) ok new' room that by (auto simp: web_ok_def counted_def opened_def n asked)
  show "web_ok B m stack names h0 (counted (web_reading i st1)) new'" if "requested stack names (insert i (asked (files st))) new'"
    using start(2,4) ok new' room that by (auto simp: web_ok_def counted_def opened_def n asked)
  show "web_todo N (files (web_connecting i st1)) (h0 @ new') < web_todo N (files st) (h0 @ new)"
    "web_todo N (files (web_reading i st1)) (h0 @ new') < web_todo N (files st) (h0 @ new)"
    unfolding web_todo_def fs total_read_append assms(6) by (intro add_strict_right_mono weight_update[OF i(1)], simp add: weight_def i)+
qed

text \<open>Between \<open>socket\<close> and the result of \<open>connect\<close> nothing else changes.\<close>

definition mid :: "int set \<Rightarrow> nat \<Rightarrow> (nat \<Rightarrow> byte) \<Rightarrow> string list \<Rightarrow> hist \<Rightarrow> web \<Rightarrow> int \<Rightarrow> hist \<Rightarrow> hist \<Rightarrow> bool" where
  "mid B m stack names h0 st fd new n \<longleftrightarrow> opened B m h0 st fd n \<and> requested stack names (asked (files st)) n \<and> total_read n = total_read new"

lemma mid_plain:
  assumes "plain_post t u" and "calls t = h0 @ n" and mid: "mid B m stack names h0 st fd new n"
  shows "\<exists>n'. calls u = h0 @ n' \<and> limited B m h0 n' \<and> mid B m stack names h0 st fd new n'"
proof -
  have "limited B m h0 n" using mid by (simp add: mid_def opened_def)
  then obtain w where w: "calls u = h0 @ (n @ w)" "limited B m h0 (n @ w)" "\<forall>p \<in> set w. plain (fst p)" using plain_hist[OF assms(1,2)] by blast
  have "mid B m stack names h0 st fd new (n @ w)"
    using mid w(2) plain_frame[OF w(3)] by (auto simp: mid_def intro: opened_quiet requested_quiet)
  then show ?thesis using w by blast
qed

abbreviation web_step :: "int set \<Rightarrow> nat \<Rightarrow> (nat \<Rightarrow> byte) \<Rightarrow> string list \<Rightarrow> hist \<Rightarrow> nat \<Rightarrow> nat \<Rightarrow> web \<Rightarrow> 'z proc_scheme \<Rightarrow> bool" where
  "web_step B m stack names h0 N k st' t' \<equiv> (\<exists>n. calls t' = h0 @ n \<and> web_ok B m stack names h0 st' n \<and> web_todo N (files st') (calls t') < k)"

lemma connect_wp:
  fixes x :: "'z proc_scheme"
  assumes env: "web_env os N" and ok: "web_ok B m stack names h0 st new" and room: "nconn st < int m"
    and i: "i < length (files st)" "f_flags (files st ! i) = 0" and x: "calls x = h0 @ n" and mid: "mid B m stack names h0 st fd new n"
  defines "st1 \<equiv> st\<lparr>files := (files st)[i := (files st ! i)\<lparr>f_fd := fd\<rparr>]\<rparr>"
  shows "wp (cbind (call os (C_connect fd a l)) (\<lambda>n. if rv n < 0 then cbind (cget errno) (\<lambda>e. if e \<noteq> EINPROGRESS
       then err_sys os ''nonblocking connect error'' else creturn (web_connecting i st1)) else write_get_cmd os stack i st1))
     (lim_post B m h0 (\<lambda>st' t'. web_step B m stack names h0 N (web_todo N (files st) (h0 @ new)) (counted st') t')) x" (is "wp _ (lim_post B m h0 ?P) x")
proof -
  define y where "y = after os (C_connect fd a l) x"
  have "plain_post x y" unfolding y_def by (rule plain_post_after) simp
  then obtain n' where y: "calls y = h0 @ n'" "limited B m h0 n'" and mid': "opened B m h0 st fd n'" "requested stack names (asked (files st)) n'"
    "total_read n' = total_read new" using mid_plain[OF _ x mid] by (auto simp: mid_def)
  note conn = started(1,3)[OF ok room i mid'(1,3), folded st1_def]
  have c1: "?P (web_connecting i st1) y" using conn(1)[OF mid'(2)] conn(2)[of N] y(1) by (auto simp: counted_def)
  have c2: "wp (write_get_cmd os stack i st1) (lim_post B m h0 ?P) y"
  proof (rule wp_mono[OF write_get_cmd_wp[OF env y]], goal_cases)
    case (1 z y')
    show ?case
    proof (cases z)
      case (Ret st')
      have name: "f_name (files st ! i) = names ! i" using ok i by (auto simp: web_ok_def web_inv_def)
      from 1 Ret obtain w where st': "st' = web_reading i st1" and w: "calls y' = calls y @ w" "limited B m h0 (n' @ w)" "\<forall>S. foldl open_step S w = S"
        "total_read w = 0" "\<forall>fd'. written fd' w = (if fd' = fd then get_line stack (names ! i) else [])" using i name by (auto simp: st1_def)
      have op: "opened B m h0 st fd (n' @ w)" by (rule opened_quiet[OF mid'(1) w(2)]) (use w(3) in simp)
      have "i \<notin> asked (files st)" using i by (simp add: asked_def)
      from requested_more[OF mid'(2) this, of w fd] have req: "requested stack names (insert i (asked (files st))) (n' @ w)" using w(5) by blast
      have tot: "total_read (n' @ w) = total_read new" using mid'(3) w(4) by simp
      note rd = started(2,4)[OF ok room i op tot, folded st1_def]
      have "?P st' y'" unfolding st' using rd(1)[OF req] rd(2)[of N] w(1) y(1) by (auto simp: counted_def)
      then show ?thesis using Ret by simp
    qed (use 1 in auto)
  qed
  have "wp (err_sys os ''nonblocking connect error'') (lim_post B m h0 ?P) y" by (rule lim.err(1)[OF y])
  then show ?thesis using c1 c2 unfolding wp_bind[of "call _ _"] wp_call outcome.case y_def[symmetric]
    by (simp add: wp_bind[of "cget _"] wp_cget wp_basic)
qed

lemma start_connect_wp:
  fixes t :: "'z proc_scheme"
  assumes env: "web_env os N" and t: "calls t = h0 @ new" and ok: "web_ok B m stack names h0 st new" and room: "nconn st < int m"
    and i: "i < length (files st)" "f_flags (files st ! i) = 0"
  shows "wp (start_connect os stack i st) (lim_post B m h0 (\<lambda>st' t'. web_step B m stack names h0 N (web_todo N (files st) (calls t)) (counted st') t')) t"
    (is "wp _ (lim_post B m h0 ?P) t")
proof -
  have lim: "limited B m h0 new" and req: "requested stack names (asked (files st)) new" using ok by (auto simp: web_ok_def)
  note conn = connect_wp[OF env ok room i, folded t]
  show ?thesis unfolding start_connect_def Let_def
  proof (rule lim.bind[OF Host_serv_wp[OF env t lim]], elim conjE, rule wp_ifI)
    fix ais :: "addrinfo list" and u :: "'z proc_scheme"
    assume tu: "plain_post t u" and ne: "ais \<noteq> []"
    show "wp cabort (lim_post B m h0 ?P) u" if "ais = []" using that ne by simp
    obtain w where w: "calls u = h0 @ (new @ w)" "\<forall>p \<in> set w. plain (fst p)" using plain_hist[OF tu t lim] by blast
    have oku: "web_ok B m stack names h0 st (new @ w)" by (rule web_ok_plain[OF ok w(2)])
    let ?c = "C_socket (ai_family (hd ais)) (ai_socktype (hd ais)) (ai_protocol (hd ais))"
    show "wp (cbind (Socket os (ai_family (hd ais)) (ai_socktype (hd ais)) (ai_protocol (hd ais))) (\<lambda>fd.
       cbind (web_printf os ''start_connect for %s, fd %d'' [V_str (f_name (files st ! i)), V_int fd]) (\<lambda>_.
       cbind (set_nonblock os fd) (\<lambda>_.
       cbind (call os (C_connect fd (ai_addr (hd ais)) (ai_addrlen (hd ais)))) (\<lambda>n.
       if rv n < 0 then
         cbind (cget errno) (\<lambda>e. if e \<noteq> EINPROGRESS then err_sys os ''nonblocking connect error''
           else creturn (web_connecting i (st\<lparr>files := (files st)[i := (files st ! i)\<lparr>f_fd := fd\<rparr>]\<rparr>)))
       else write_get_cmd os stack i (st\<lparr>files := (files st)[i := (files st ! i)\<lparr>f_fd := fd\<rparr>]\<rparr>)))))) (lim_post B m h0 ?P) u"
    proof (rule lim.bind[OF Socket_wp[OF env w(1) oku room]], elim exE conjE, rule lim.bind[OF plain_printf])
      fix fd r x and v v' :: "'z proc_scheme"
      let ?n = "(new @ w) @ [(?c, r)]"
      assume v: "calls v = calls u @ [(?c, r)]" and op: "opened B m h0 st fd ?n" and vv: "plain_post v v'"
      have hv: "calls v = h0 @ ?n" using v w by simp
      have mid: "mid B m stack names h0 st fd new ?n"
        using op requested_quiet[OF req, of "w @ [(?c, r)]"] plain_frame[OF w(2)] by (simp add: mid_def)
      from mid_plain[OF vv hv mid] obtain n' where "calls v' = h0 @ n'" "limited B m h0 n'" by blast
      from set_nonblock_plain[OF this] show "wp (cbind (set_nonblock os fd) (\<lambda>_. cbind (call os (C_connect fd (ai_addr (hd ais)) (ai_addrlen (hd ais)))) (\<lambda>n.
         if rv n < 0 then cbind (cget errno) (\<lambda>e. if e \<noteq> EINPROGRESS then err_sys os ''nonblocking connect error''
           else creturn (web_connecting i (st\<lparr>files := (files st)[i := (files st ! i)\<lparr>f_fd := fd\<rparr>]\<rparr>)))
         else write_get_cmd os stack i (st\<lparr>files := (files st)[i := (files st ! i)\<lparr>f_fd := fd\<rparr>]\<rparr>)))) (lim_post B m h0 ?P) v'"
        by (rule lim.bind) (use mid_plain[OF plain_post_trans[OF vv] hv mid] conn in blast)
    qed
  qed
qed

lemma web_free_lt: "web_free fs < length fs \<Longrightarrow> f_flags (fs ! web_free fs) = 0"
  by (induction fs) (auto split: if_splits)

lemma web_free_exists: "0 < cnt (\<lambda>f. f_flags f = 0) fs \<Longrightarrow> web_free fs < length fs"
  by (induction fs) (auto simp: cnt_def split: if_splits)

lemma web_connects_wp:
  fixes t :: "'z proc_scheme"
  assumes env: "web_env os N" and "calls t = h0 @ new" and "web_ok B m stack names h0 st new"
  shows "wp (web_connects os stack (int m) st) (lim_post B m h0 (\<lambda>st' t'. web_step B m stack names h0 N (Suc (web_todo N (files st) (calls t))) st' t')) t"
  using assms(2,3)
proof (induction "web_todo N (files st) (calls t)" arbitrary: st t new rule: less_induct)
  case (less st t new)
  let ?P = "\<lambda>k st' t'. web_step B m stack names h0 N k st' (t' :: 'z proc_scheme)"
  show ?case
  proof (cases "nconn st < int m \<and> nlefttoconn st > 0")
    case False
    have "web_connects os stack (int m) st t = creturn st t"
      unfolding web_connects.simps[of os stack "int m" st t] if_not_P[OF False] by (rule refl)
    then show ?thesis using less.prems by (simp add: wp_def)
  next
    case True
    let ?i = "web_free (files st)"
    have i: "?i < length (files st)" using True less.prems(2) web_free_exists by (simp add: web_ok_def web_inv_def)
    have "wp (cbind (start_connect os stack ?i st) (\<lambda>st. web_connects os stack (int m) (counted st)))
      (lim_post B m h0 (?P (Suc (web_todo N (files st) (calls t))))) t"
    proof (rule lim.bind[OF start_connect_wp[OF env less.prems _ i web_free_lt[OF i]]], goal_cases)
      case (2 st' u)
      then obtain n where u: "calls u = h0 @ n" "web_ok B m stack names h0 (counted st') n" "web_todo N (files (counted st')) (calls u) < web_todo N (files st) (calls t)"
        by blast
      from less.hyps[OF u(3,1,2)] show ?case
        by (rule wp_mono) (use u(3) in \<open>auto split: outcome.splits\<close>)
    qed (use True in simp)
    then show ?thesis using True i unfolding wp_def by (subst web_connects.simps) (simp add: counted_def)
  qed
qed

definition web_ready :: "web \<Rightarrow> int list \<Rightarrow> int list \<Rightarrow> nat \<Rightarrow> bool" where
  "web_ready st rs ws i \<longleftrightarrow> (let f = files st ! i in
     f_flags f = F_CONNECTING \<and> (f_fd f \<in> set rs \<or> f_fd f \<in> set ws) \<or> f_flags f = F_READING \<and> f_fd f \<in> set rs)"

abbreviation only_file :: "nat \<Rightarrow> web \<Rightarrow> web \<Rightarrow> bool" where
  "only_file i st st' \<equiv> length (files st') = length (files st) \<and> (\<forall>j. j \<noteq> i \<longrightarrow> files st' ! j = files st ! j)"

lemma established_wp:
  fixes t :: "'z proc_scheme"
  assumes env: "web_env os N" and t: "calls t = h0 @ new" and ok: "web_ok B m stack names h0 st new"
    and i: "i < length (files st)" and f: "f_flags (files st ! i) = F_CONNECTING"
  shows "wp (write_get_cmd os stack i (st\<lparr>wset := FD_CLR (f_fd (files st ! i)) (wset st)\<rparr>)) (lim_post B m h0 (\<lambda>st' t'.
     web_step B m stack names h0 N (web_todo N (files st) (calls t)) st' t' \<and> only_file i st st')) t" (is "wp _ (lim_post B m h0 ?P) t")
proof -
  have inv: "web_inv names st" and lim: "limited B m h0 new" and req: "requested stack names (asked (files st)) new" using ok by (auto simp: web_ok_def)
  note est = web_inv_established[OF inv i f]
  show ?thesis
  proof (rule wp_mono[OF write_get_cmd_wp[OF env t lim]], goal_cases)
    case (1 z y)
    show ?case
    proof (cases z)
      case (Ret st')
      let ?st' = "web_reading i (st\<lparr>wset := FD_CLR (f_fd (files st ! i)) (wset st)\<rparr>)"
      have name: "f_name (files st ! i) = names ! i" using inv i by (auto simp: web_inv_def)
      from 1 Ret obtain w where st': "st' = ?st'" and w: "calls y = calls t @ w" "limited B m h0 (new @ w)" "\<forall>S. foldl open_step S w = S"
        "total_read w = 0" "\<forall>fd. written fd w = (if fd = f_fd (files st ! i) then get_line stack (names ! i) else [])" using name by auto
      have "i \<notin> asked (files st)" using f by (simp add: asked_def)
      from requested_more[OF req this, of w "f_fd (files st ! i)"] have "requested stack names (asked (files ?st')) (new @ w)"
        using w(5) unfolding est(3) asked_update[OF i] by simp
      then have "web_ok B m stack names h0 ?st' (new @ w)" using ok est(1,2,4) w(2,3)
        unfolding web_ok_def append_assoc[symmetric] open_fds_append[of "h0 @ new"] by simp
      moreover have "web_todo N (files ?st') (calls y) < web_todo N (files st) (calls t)"
        using weight_update[OF i, of "(files st ! i)\<lparr>f_flags := 2\<rparr>"] f w(1,4) unfolding est(3) by (simp add: web_todo_def weight_def)
      ultimately have "?P st' y" using w(1) t est(3) unfolding st' by auto
      then show ?thesis using Ret by simp
    qed (use 1 in auto)
  qed
qed

lemma web_ok_read:
  assumes "web_ok B m stack names h0 st new"
  shows "web_ok B m stack names h0 st (new @ [(C_read fd n, r)])"
  using assms limited_calm[of B m h0 new "C_read fd n" r]
  by (simp add: web_ok_def open_fds_append requested_quiet opens_def)

lemma finished_wp:
  fixes t :: "'z proc_scheme"
  assumes t: "calls t = h0 @ new" and ok: "web_ok B m stack names h0 st new" and i: "i < length (files st)" and f: "f_flags (files st ! i) = F_READING"
  shows "wp (cbind (Close os (f_fd (files st ! i))) (\<lambda>_. creturn (web_done i st))) (lim_post B m h0 (\<lambda>st' t'.
     web_step B m stack names h0 N (web_todo N (files st) (calls t)) st' t' \<and> only_file i st st')) t" (is "wp _ (lim_post B m h0 ?P) t")
proof (rule lim.bind[where P = "\<lambda>_ u. \<exists>r. calls u = calls t @ [(C_close (f_fd (files st ! i)), r)]"])
  have inv: "web_inv names st" and lim: "limited B m h0 new" using ok by (auto simp: web_ok_def)
  note fin = web_inv_done[OF inv i f]
  show "wp (Close os (f_fd (files st ! i))) (lim_post B m h0 (\<lambda>_ u. \<exists>r. calls u = calls t @ [(C_close (f_fd (files st ! i)), r)])) t"
    unfolding Close_def by (rule lim.quiet_call[OF t lim]) (auto simp: opens_def)
  fix a and u :: "'z proc_scheme"
  assume "\<exists>r. calls u = calls t @ [(C_close (f_fd (files st ! i)), r)]"
  then obtain r where u: "calls u = calls t @ [(C_close (f_fd (files st ! i)), r)]" by blast
  let ?w = "[(C_close (f_fd (files st ! i)), r)]"
  have "asked (files (web_done i st)) = asked (files st)" unfolding fin(4) asked_update[OF i] using i f by (auto simp: asked_def)
  moreover have "limited B m h0 (new @ ?w)" by (rule limited_calm[OF lim]) (simp add: opens_def)
  ultimately have "web_ok B m stack names h0 (web_done i st) (new @ ?w)" using ok fin(1,2,3,5)
    unfolding web_ok_def append_assoc[symmetric] open_fds_append[of "h0 @ new"] by (auto simp: requested_quiet)
  moreover have "web_todo N (files (web_done i st)) (calls u) < web_todo N (files st) (calls t)"
    using weight_update[OF i, of "(files st ! i)\<lparr>f_flags := 4\<rparr>"] f u unfolding fin(4) by (simp add: web_todo_def weight_def)
  ultimately have "?P (web_done i st) u" using u t fin(4) by auto
  then show "wp (creturn (web_done i st)) (lim_post B m h0 ?P) u" by (simp add: wp_basic)
qed

lemma web_todo_plain: "plain_post t u \<Longrightarrow> web_todo N fs (calls u) = web_todo N fs (calls t)"
  by (auto simp: plain_post_def web_todo_def plain_frame(3))

lemma web_ok_after_plain:
  assumes "plain_post t u" and "calls t = h0 @ new" and "web_ok B m stack names h0 st new"
  shows "\<exists>n. calls u = h0 @ n \<and> web_ok B m stack names h0 st n"
  using assms web_ok_plain[OF assms(3)] by (auto simp: plain_post_def)

lemma connecting_file_wp:
  fixes t :: "'z proc_scheme"
  assumes env: "web_env os N" and t: "calls t = h0 @ new" and ok: "web_ok B m stack names h0 st new"
    and i: "i < length (files st)" and f: "f_flags (files st ! i) = F_CONNECTING"
  shows "wp (cbind (call os (C_getsockopt (f_fd (files st ! i)) SOL_SOCKET SO_ERROR)) (\<lambda>r.
       cbind (if rv r < 0 \<or> out_int r \<noteq> 0 then err_ret os (''nonblocking connect failed for '' @ f_name (files st ! i)) else creturn ()) (\<lambda>_.
       cbind (web_printf os ''connection established for %s'' [V_str (f_name (files st ! i))]) (\<lambda>_.
       write_get_cmd os stack i (st\<lparr>wset := FD_CLR (f_fd (files st ! i)) (wset st)\<rparr>)))))
     (lim_post B m h0 (\<lambda>st' t'. web_step B m stack names h0 N (web_todo N (files st) (calls t)) st' t' \<and> only_file i st st')) t" (is "wp _ (lim_post B m h0 ?P) t")
proof -
  let ?c = "C_getsockopt (f_fd (files st ! i)) SOL_SOCKET SO_ERROR"
  define r where "r = os (calls t) ?c"
  define u where "u = after os ?c t"
  have tu: "plain_post t u" unfolding u_def by (rule plain_post_after) simp
  have "wp (if rv r < 0 \<or> out_int r \<noteq> 0 then err_ret os (''nonblocking connect failed for '' @ f_name (files st ! i)) else creturn ()) (lim_post B m h0 (\<lambda>_ v. plain_post t v)) u"
  proof (rule wp_ifI)
    from plain_err_ret show "wp (err_ret os (''nonblocking connect failed for '' @ f_name (files st ! i))) (lim_post B m h0 (\<lambda>_ v. plain_post t v)) u"
      by (rule wp_mono) (auto intro: plain_post_trans[OF tu] split: outcome.splits)
  qed (use tu in \<open>simp add: wp_basic\<close>)
  then have "wp (cbind (if rv r < 0 \<or> out_int r \<noteq> 0 then err_ret os (''nonblocking connect failed for '' @ f_name (files st ! i)) else creturn ()) (\<lambda>_.
       cbind (web_printf os ''connection established for %s'' [V_str (f_name (files st ! i))]) (\<lambda>_.
       write_get_cmd os stack i (st\<lparr>wset := FD_CLR (f_fd (files st ! i)) (wset st)\<rparr>)))) (lim_post B m h0 ?P) u"
  proof (rule lim.bind, intro lim.bind[OF plain_printf])
    fix a b and v v' :: "'z proc_scheme"
    assume "plain_post t v" and "plain_post v v'"
    then have p: "plain_post t v'" by (rule plain_post_trans)
    then obtain n where "calls v' = h0 @ n" "web_ok B m stack names h0 st n" using web_ok_after_plain[OF _ t ok] by blast
    from established_wp[OF env this i f] show "wp (write_get_cmd os stack i (st\<lparr>wset := FD_CLR (f_fd (files st ! i)) (wset st)\<rparr>)) (lim_post B m h0 ?P) v'"
      unfolding web_todo_plain[OF p] .
  qed
  then show ?thesis unfolding wp_bind[of "call _ _"] wp_call outcome.case r_def[symmetric] u_def[symmetric] .
qed

lemma reading_file_wp:
  fixes t :: "'z proc_scheme"
  assumes env: "web_env os N" and t: "calls t = h0 @ new" and ok: "web_ok B m stack names h0 st new"
    and i: "i < length (files st)" and f: "f_flags (files st ! i) = F_READING"
  shows "wp (cbind (Read os (f_fd (files st ! i)) MAXLINE) (\<lambda>n.
       if rv n = 0 then
         cbind (web_printf os ''end-of-file on %s'' [V_str (f_name (files st ! i))]) (\<lambda>_.
         cbind (Close os (f_fd (files st ! i))) (\<lambda>_. creturn (web_done i st)))
       else cbind (web_printf os ''read %d bytes from %s'' [V_int (rv n), V_str (f_name (files st ! i))]) (\<lambda>_. creturn st)))
     (lim_post B m h0 (\<lambda>st' t'. web_step B m stack names h0 N (web_todo N (files st) (calls t)) st' t' \<and> only_file i st st')) t" (is "wp _ (lim_post B m h0 ?P) t")
proof -
  have e: "read_ok os" "bounded_total os N" and lim: "limited B m h0 new" using env ok by (auto simp: web_env_def web_ok_def)
  show ?thesis
  proof (rule lim.bind[OF lim.Read_wp[OF e(1) t lim]], elim conjE, rule wp_ifI)
    fix r and u :: "'z proc_scheme"
    let ?c = "C_read (f_fd (files st ! i)) MAXLINE"
    assume u: "calls u = calls t @ [(?c, r)]" and r: "r = os (calls t) ?c" "0 \<le> rv r"
    have hu: "calls u = h0 @ (new @ [(?c, r)])" using u t by simp
    note oku = web_ok_read[OF ok, of "f_fd (files st ! i)" MAXLINE r]
    {
      assume z: "rv r = 0"
      show "wp (cbind (web_printf os ''end-of-file on %s'' [V_str (f_name (files st ! i))]) (\<lambda>_.
         cbind (Close os (f_fd (files st ! i))) (\<lambda>_. creturn (web_done i st)))) (lim_post B m h0 ?P) u"
      proof (rule lim.bind[OF plain_printf])
        fix a and v :: "'z proc_scheme"
        assume uv: "plain_post u v"
        then obtain n where n: "calls v = h0 @ n" "web_ok B m stack names h0 st n" using web_ok_after_plain[OF _ hu oku] by blast
        have same: "web_todo N (files st) (calls v) = web_todo N (files st) (calls t)" using web_todo_plain[OF uv] u z by (simp add: web_todo_def)
        from finished_wp[OF n i f, of os N] show "wp (cbind (Close os (f_fd (files st ! i))) (\<lambda>_. creturn (web_done i st))) (lim_post B m h0 ?P) v"
          unfolding same .
      qed
    next
      assume nz: "rv r \<noteq> 0"
      then have "total_read (calls t) + nat (rv r) \<le> N" using e(2) r by (simp add: bounded_total_def)
      then have less: "web_todo N (files st) (calls u) < web_todo N (files st) (calls t)" using u nz r(2) by (simp add: web_todo_def)
      show "wp (cbind (web_printf os ''read %d bytes from %s'' [V_int (rv r), V_str (f_name (files st ! i))]) (\<lambda>_. creturn st)) (lim_post B m h0 ?P) u"
      proof (rule lim.bind[OF plain_printf])
        fix a and v :: "'z proc_scheme"
        assume uv: "plain_post u v"
        then have "?P st v" using web_ok_after_plain[OF uv hu oku] less web_todo_plain[OF uv] by auto
        then show "wp (creturn st) (lim_post B m h0 ?P) v" by (simp add: wp_basic)
      qed
    }
  qed
qed

lemma web_file_wp:
  fixes t :: "'z proc_scheme"
  assumes env: "web_env os N" and t: "calls t = h0 @ new" and ok: "web_ok B m stack names h0 st new" and i: "i < length (files st)"
  shows "wp (web_file os stack rs ws i st) (lim_post B m h0 (\<lambda>st' t'.
     web_step B m stack names h0 N ((if web_ready st rs ws i then id else Suc) (web_todo N (files st) (calls t))) st' t' \<and> only_file i st st')) t"
proof -
  have skip: "wp (creturn st) (lim_post B m h0 (\<lambda>st' t'. web_step B m stack names h0 N (Suc (web_todo N (files st) (calls t))) st' t' \<and> only_file i st st')) t"
    using t ok by (simp add: wp_basic)
  have flags: "f_flags (files st ! i) \<in> {0, 1, 2, 4}" using ok i by (auto simp: web_ok_def web_inv_def)
  consider "web_ready st rs ws i" "f_flags (files st ! i) = 1" | "web_ready st rs ws i" "f_flags (files st ! i) = 2" | "\<not> web_ready st rs ws i"
    using flags by (auto simp: web_ready_def Let_def)
  then show ?thesis
  proof cases
    case 1
    then have c: "f_fd (files st ! i) \<in> set rs \<or> f_fd (files st ! i) \<in> set ws" "\<not> (f_flags (files st ! i) = 0 \<or> f_flags (files st ! i) AND F_DONE \<noteq> 0)"
      "f_flags (files st ! i) AND F_CONNECTING \<noteq> 0" by (auto simp: web_ready_def Let_def)
    show ?thesis unfolding web_file_def Let_def if_not_P[OF c(2)] if_P[OF conjI[OF c(3,1)]] if_P[OF 1(1)] id_apply
      by (rule connecting_file_wp[OF env t ok i 1(2)])
  next
    case 2
    then have c: "\<not> (f_flags (files st ! i) = 0 \<or> f_flags (files st ! i) AND F_DONE \<noteq> 0)" "f_flags (files st ! i) AND F_READING \<noteq> 0 \<and> f_fd (files st ! i) \<in> set rs"
      "\<not> (f_flags (files st ! i) AND F_CONNECTING \<noteq> 0 \<and> (f_fd (files st ! i) \<in> set rs \<or> f_fd (files st ! i) \<in> set ws))" by (auto simp: web_ready_def Let_def)
    show ?thesis unfolding web_file_def Let_def if_not_P[OF c(1)] if_not_P[OF c(3)] if_P[OF c(2)] if_P[OF 2(1)] id_apply
      by (rule reading_file_wp[OF env t ok i 2(2)])
  next
    case 3
    then have "web_file os stack rs ws i st = (creturn st :: ('z proc_scheme, web) cprog)"
      using flags by (auto simp: web_file_def web_ready_def Let_def)
    then show ?thesis using 3 skip by simp
  qed
qed

lemma web_scan_wp:
  fixes t :: "'z proc_scheme"
  assumes env: "web_env os N" and "calls t = h0 @ new" and "web_ok B m stack names h0 st new" and "distinct is" and "set is \<subseteq> {..<length (files st)}"
  shows "wp (web_scan os stack rs ws is st) (lim_post B m h0 (\<lambda>st' t'.
     web_step B m stack names h0 N ((if \<exists>i \<in> set is. web_ready st rs ws i then id else Suc) (web_todo N (files st) (calls t))) st' t')) t"
  using assms(2-5)
proof (induction "is" arbitrary: t new st)
  case (Nil t new st)
  then show ?case unfolding web_scan.simps wp_basic by auto
next
  case (Cons i "is" t new st)
  let ?k = "web_todo N (files st) (calls t)"
  have i: "i < length (files st)" using Cons.prems(4) by simp
  show ?case unfolding web_scan.simps
  proof (rule lim.bind[OF web_file_wp[OF env Cons.prems(1,2) i]], elim exE conjE)
    fix st' n and u :: "'z proc_scheme"
    assume u: "calls u = h0 @ n" "web_ok B m stack names h0 st' n"
      and less: "web_todo N (files st') (calls u) < (if web_ready st rs ws i then id else Suc) ?k"
      and only: "length (files st') = length (files st)" "\<forall>j. j \<noteq> i \<longrightarrow> files st' ! j = files st ! j"
    have same: "(\<exists>j \<in> set is. web_ready st' rs ws j) \<longleftrightarrow> (\<exists>j \<in> set is. web_ready st rs ws j)"
    proof (rule bex_cong[OF refl])
      fix j assume "j \<in> set is"
      then have "j \<noteq> i" using Cons.prems(3) by auto
      then show "web_ready st' rs ws j = web_ready st rs ws j" using only(2) by (simp add: web_ready_def)
    qed
    have "wp (web_scan os stack rs ws is st') (lim_post B m h0 (\<lambda>st'' t'.
       web_step B m stack names h0 N ((if \<exists>i \<in> set is. web_ready st' rs ws i then id else Suc) (web_todo N (files st') (calls u))) st'' t')) u"
      by (rule Cons.IH[OF u]) (use Cons.prems(3,4) only(1) in auto)
    then show "wp (web_scan os stack rs ws is st') (lim_post B m h0 (\<lambda>st'' t'.
       web_step B m stack names h0 N ((if \<exists>i \<in> set (i # is). web_ready st rs ws i then id else Suc) ?k) st'' t')) u"
      by (rule wp_mono) (use less same in \<open>auto split: outcome.splits if_splits\<close>)
  qed
qed

lemma web_selected:
  assumes "web_inv names st" and "set rs \<subseteq> set (rset st)" and "set ws \<subseteq> set (wset st)" and "rs \<noteq> [] \<or> ws \<noteq> []"
  shows "\<exists>i \<in> set [0..<length (files st)]. web_ready st rs ws i"
proof -
  obtain fd where "fd \<in> set rs \<or> fd \<in> set ws" using assms(4) by (metis list.set_intros(1) neq_Nil_conv)
  then obtain f where "f \<in> set (files st)" "f_fd f = fd" "f_flags f = 1 \<and> (fd \<in> set rs \<or> fd \<in> set ws) \<or> f_flags f = 2 \<and> fd \<in> set rs"
    using assms(1-3) by (auto simp: web_inv_def fds_def act_def)
  then show ?thesis by (auto simp: in_set_conv_nth web_ready_def Let_def intro!: bexI)
qed

lemma web_round_wp:
  fixes t :: "'z proc_scheme"
  assumes env: "web_env os N" and t: "calls t = h0 @ new" and ok: "web_ok B m stack names h0 st new"
  shows "wp (web_round os stack (int m) st) (lim_post B m h0 (web_step B m stack names h0 N (web_todo N (files st) (calls t)))) t"
  unfolding web_round_def
proof (rule lim.bind[OF web_connects_wp[OF env t ok]], elim exE conjE)
  fix st' :: web and n and u :: "'z proc_scheme"
  let ?P = "web_step B m stack names h0 N (web_todo N (files st) (calls t))"
  let ?c = "C_select (web_maxfd st' + 1) (rset st') (wset st') [] None"
  assume u: "calls u = h0 @ n" "web_ok B m stack names h0 st' n" and le: "web_todo N (files st') (calls u) < Suc (web_todo N (files st) (calls t))"
  have lim: "limited B m h0 n" and inv: "web_inv names st'" using u(2) by (simp_all add: web_ok_def)
  show "wp (cbind (Select os (web_maxfd st' + 1) (rset st') (wset st') [] None) (\<lambda>r.
     web_scan os stack (out_ints 0 r) (out_ints 1 r) [0..<length (files st')] st')) (lim_post B m h0 ?P) u"
  proof (rule lim.bind[where P = "\<lambda>r v. r = os (calls u) ?c \<and> 0 \<le> rv r \<and> plain_post u v"])
    show "wp (Select os (web_maxfd st' + 1) (rset st') (wset st') [] None) (lim_post B m h0 (\<lambda>r v. r = os (calls u) ?c \<and> 0 \<le> rv r \<and> plain_post u v)) u"
      unfolding Select_def by (rule plain_call[OF _ u(1) lim]) (auto intro: plain_post_after)
    fix r and v :: "'z proc_scheme"
    assume r: "r = os (calls u) ?c \<and> 0 \<le> rv r \<and> plain_post u v"
    then obtain n' where v: "calls v = h0 @ n'" "web_ok B m stack names h0 st' n'" using web_ok_after_plain[OF _ u] by blast
    have same: "web_todo N (files st') (calls v) = web_todo N (files st') (calls u)" using r web_todo_plain by blast
    have "set (out_ints 0 r) \<subseteq> set (rset st')" "set (out_ints 1 r) \<subseteq> set (wset st')" "out_ints 0 r \<noteq> [] \<or> out_ints 1 r \<noteq> []"
      using env r unfolding web_env_def select_ok_def Let_def by blast+
    note ready = web_selected[OF inv this]
    have "wp (web_scan os stack (out_ints 0 r) (out_ints 1 r) [0..<length (files st')] st') (lim_post B m h0
       (\<lambda>st'' t'. web_step B m stack names h0 N ((if \<exists>i \<in> set [0..<length (files st')]. web_ready st' (out_ints 0 r) (out_ints 1 r) i then id else Suc) (web_todo N (files st') (calls v))) st'' t')) v"
      by (rule web_scan_wp[OF env v]) auto
    then show "wp (web_scan os stack (out_ints 0 r) (out_ints 1 r) [0..<length (files st')] st') (lim_post B m h0 ?P) v"
      unfolding if_P[OF ready] id_apply same by (rule wp_mono) (use le in \<open>auto split: outcome.splits\<close>)
  qed
qed

lemma web_loop_wp:
  fixes t :: "'z proc_scheme"
  assumes env: "web_env os N" and "calls t = h0 @ new" and "web_ok B m stack names h0 st new"
  shows "wp (web_loop os stack (int m) st) (lim_post B m h0 (\<lambda>st' t'. \<exists>n. calls t' = h0 @ n \<and> web_ok B m stack names h0 st' n \<and> nlefttoread st' \<le> 0)) t"
  using assms(2,3)
proof (induction "web_todo N (files st) (calls t)" arbitrary: st t new rule: less_induct)
  case (less st t new)
  let ?Q = "lim_post B m h0 (\<lambda>st' t'. \<exists>n. calls (t' :: 'z proc_scheme) = h0 @ n \<and> web_ok B m stack names h0 st' n \<and> nlefttoread st' \<le> 0)"
  show ?case
  proof (cases "nlefttoread st > 0")
    case False
    have "web_loop os stack (int m) st t = creturn st t" unfolding web_loop.simps[of os stack "int m" st t] if_not_P[OF False] by (rule refl)
    then show ?thesis using less.prems False by (simp add: wp_def)
  next
    case True
    have "wp (cbind (web_round os stack (int m) st) (\<lambda>st. web_loop os stack (int m) st)) ?Q t"
      by (rule lim.bind[OF web_round_wp[OF env less.prems]]) (use less.hyps in blast)
    then show ?thesis using True unfolding wp_def by (subst web_loop.simps) simp
  qed
qed

section \<open>The client as a whole\<close>

text \<open>
  C12. The web client fetches every file. With a positive number of connections, servers that send a bounded number of
  bytes and an environment that keeps its documentation, the loop ends: either the process exits with status 1
  after an error, or every file is done, every socket the loop opened is closed, and each file's request was sent
  exactly once, in whole, and nothing else was sent. At no moment were more than \<open>maxnconn\<close> sockets open.
\<close>

theorem web_fetches:
  fixes s :: "'z proc_scheme"
  assumes "web_env os N" and "\<forall>f \<in> set fs. f_flags f = 0" and "0 < m"
  shows "wp (web_loop os stack (int m) (web_start fs)) (\<lambda>r t. \<exists>new. calls t = calls s @ new \<and>
    (\<forall>k \<le> length new. card (open_fds (calls s @ take k new) - open_fds (calls s)) \<le> m) \<and>
    (case r of
       Ret st \<Rightarrow> (\<forall>f \<in> set (files st). f_flags f = F_DONE) \<and> map f_name (files st) = map f_name fs \<and> open_fds (calls t) = open_fds (calls s) \<and>
         (\<exists>order. distinct (map snd order) \<and> set (map snd order) = {..<length fs} \<and>
            (\<forall>fd. written fd new = concat (map (\<lambda>p. if fst p = fd then get_line stack (f_name (fs ! snd p)) else []) order)))
     | Exit k \<Rightarrow> k = 1 | Abort \<Rightarrow> False)) s"
proof -
  let ?B = "open_fds (calls s)" and ?names = "map f_name fs"
  have "requested stack ?names (asked fs) []" using assms(2) by (auto simp: requested_def asked_def sent_def intro!: exI[of _ "[]"])
  then have "web_ok ?B m stack ?names (calls s) (web_start fs) []"
    using web_start_inv[OF assms(2)] by (simp add: web_ok_def limited_def web_start_def)
  then have "wp (web_loop os stack (int m) (web_start fs)) (lim_post ?B m (calls s) (\<lambda>st' t'. \<exists>n. calls t' = calls s @ n \<and>
      web_ok ?B m stack ?names (calls s) st' n \<and> nlefttoread st' \<le> 0)) s" by (intro web_loop_wp[OF assms(1)]) simp_all
  then show ?thesis
  proof (rule wp_mono, goal_cases)
    case (1 r t)
    show ?case
    proof (cases r)
      case (Ret st)
      with 1 obtain n where n: "calls t = calls s @ n" "web_ok ?B m stack ?names (calls s) st n" and left: "nlefttoread st \<le> 0" by auto
      have inv: "web_inv ?names st" using n(2) by (simp add: web_ok_def)
      have "filter (\<lambda>f. f_flags f \<noteq> 4) (files st) = []" using inv left by (simp add: web_inv_def cnt_def)
      then have fin: "\<forall>f \<in> set (files st). f_flags f = 4" by (simp add: filter_empty_conv)
      have len: "length (files st) = length fs" "map f_name (files st) = map f_name fs" using inv by (auto simp: web_inv_def dest: map_eq_imp_length_eq)
      have "asked (files st) = {..<length fs}" "fds act (files st) = {}" using fin len by (auto simp: asked_def fds_def act_def)
      then have "requested stack ?names {..<length fs} n" "open_fds (calls t) = ?B" using n by (auto simp: web_ok_def)
      moreover from this(1) obtain order where o: "distinct (map snd order)" "set (map snd order) = {..<length fs}" "\<forall>fd. written fd n = sent stack ?names order fd"
        by (auto simp: requested_def)
      moreover have "sent stack ?names order fd = concat (map (\<lambda>p. if fst p = fd then get_line stack (f_name (fs ! snd p)) else []) order)" for fd
      proof -
        have "snd p < length fs" if "p \<in> set order" for p using o(2) that by force
        then show ?thesis unfolding sent_def by (intro arg_cong[where f = concat] map_cong) auto
      qed
      ultimately show ?thesis using n fin len Ret by (auto simp: web_ok_def limited_def)
    next
      case (Exit k)
      then show ?thesis using 1 by (auto simp: limited_def)
    qed (use 1 in simp)
  qed
qed

text \<open>The bytes of a request: the command when it fits the buffer, else what is left of it and the memory behind.\<close>

lemma get_line_fits:
  assumes "length (get_cmd fname) < MAXLINE"
  shows "get_line stack fname = to_bytes (get_cmd fname)"
  using assms by (auto simp: get_line_def snprintf_mem_def snprintf_text_def Let_def to_bytes_def intro!: nth_equalityI)

lemma get_line_long:
  assumes "MAXLINE \<le> length (get_cmd fname)"
  shows "get_line stack fname = to_bytes (take (MAXLINE - 1) (get_cmd fname)) @ [0] @ map stack [MAXLINE..<length (get_cmd fname)]"
proof (rule nth_equalityI)
  have pos: "0 < MAXLINE" by (simp add: MAXLINE_def)
  show "length (get_line stack fname) = length (to_bytes (take (MAXLINE - 1) (get_cmd fname)) @ [0] @ map stack [MAXLINE..<length (get_cmd fname)])"
    using assms pos by (simp add: get_line_def Let_def to_bytes_def)
  fix j
  assume "j < length (get_line stack fname)"
  then have "j < length (get_cmd fname)" by (simp add: get_line_def Let_def)
  then show "get_line stack fname ! j = (to_bytes (take (MAXLINE - 1) (get_cmd fname)) @ [0] @ map stack [MAXLINE..<length (get_cmd fname)]) ! j"
    using assms pos by (auto simp: get_line_def snprintf_mem_def snprintf_text_def Let_def to_bytes_def nth_append)
qed

text \<open>
  C39. What \<open>write_get_cmd\<close> puts on the wire when it returns: nothing on any other descriptor, and on the file's own
  the \<open>GET\<close> command, once and complete, when the command is shorter than \<open>MAXLINE\<close>. For a longer one it sends as many
  bytes as the command has, but these are its first \<open>MAXLINE - 1\<close> characters, a null byte and the bytes that lie in
  memory behind the buffer \<open>line\<close>.
\<close>

theorem web_request_overrun:
  fixes s :: "'z proc_scheme"
  assumes "web_env os N"
  shows "wp (write_get_cmd os stack i st) (\<lambda>r t. case r of
      Ret st' \<Rightarrow> (\<exists>new. calls t = calls s @ new \<and> (\<forall>fd. written fd new =
        (if fd \<noteq> f_fd (files st ! i) then []
         else let cmd = get_cmd (f_name (files st ! i)) in
           if length cmd < MAXLINE then to_bytes cmd
           else to_bytes (take (MAXLINE - 1) cmd) @ [0] @ map stack [MAXLINE..<length cmd])))
    | Exit n \<Rightarrow> n = 1 | Abort \<Rightarrow> False) s"
proof -
  have "limited (open_fds (calls s)) 0 (calls s) []" by (simp add: limited_def)
  from write_get_cmd_wp[OF assms _ this, of s stack i st] show ?thesis
  proof (rule wp_mono[OF _], goal_cases)
    case (2 r t)
    let ?f = "f_name (files st ! i)"
    have line: "get_line stack ?f = (let cmd = get_cmd ?f in if length cmd < MAXLINE then to_bytes cmd
        else to_bytes (take (MAXLINE - 1) cmd) @ [0] @ map stack [MAXLINE..<length cmd])"
      using get_line_fits[of ?f stack] get_line_long[of ?f stack] by (simp add: Let_def)
    from 2 show ?case unfolding line[symmetric] by (cases r) auto
  qed simp
qed

section \<open>An environment with eight bytes to deliver\<close>

definition web_os :: os where
  "web_os h c = (case c of
       C_getaddrinfo a b hi \<Rightarrow> \<lparr>rv = 0, err = None, outs = [V_infos [hints 0 AF_INET SOCK_STREAM]]\<rparr>
     | C_connect fd a l \<Rightarrow> fails EINPROGRESS
     | C_read fd n \<Rightarrow> if total_read h + 2 \<le> 8 then ok_bytes (take n [65, 66]) else ok_bytes []
     | _ \<Rightarrow> busy_os h c)"

lemma web_os_env: "web_env web_os 8"
proof -
  have "web_os h (C_accept fd) = busy_os h (C_accept fd)" "web_os h (C_socket a b c) = busy_os h (C_socket a b c)"
    "web_os h (C_select n rd wr ex tm) = busy_os h (C_select n rd wr ex tm)" "web_os h (C_write fd bs) = busy_os h (C_write fd bs)"
    for h fd a b c n rd wr ex tm bs by (simp_all add: web_os_def)
  note same = this
  have "fresh_ok web_os" "select_ok web_os" "write_ok web_os"
    using busy_env unfolding srv_env_def fresh_ok_def select_ok_def write_ok_def same by auto
  moreover have "fair web_os (C_write fd bs)" for fd bs
    unfolding fair_def by (intro allI exI[of _ 0]) (simp add: same busy_os_def interrupted_def ok_def)
  moreover have "read_ok web_os" "bounded_total web_os 8" "lookup_ok web_os"
    by (auto simp: read_ok_def bounded_total_def lookup_ok_def web_os_def sysret_defs Let_def)
  ultimately show ?thesis by (simp add: web_env_def)
qed

definition two_files :: "webfile list" where
  "two_files = [\<lparr>f_name = ''/a'', f_host = ''h'', f_fd = 0, f_flags = 0\<rparr>, \<lparr>f_name = ''/b'', f_host = ''h'', f_fd = 0, f_flags = 0\<rparr>]"

theorem web_fetches_witness:
  "wp (web_loop web_os (\<lambda>_. 0) (int 1) (web_start two_files)) (\<lambda>r t. \<exists>new. calls t = calls fresh_proc @ new \<and>
    (\<forall>k \<le> length new. card (open_fds (calls fresh_proc @ take k new) - open_fds (calls fresh_proc)) \<le> 1) \<and>
    (case r of
       Ret st \<Rightarrow> (\<forall>f \<in> set (files st). f_flags f = F_DONE) \<and> map f_name (files st) = map f_name two_files \<and> open_fds (calls t) = open_fds (calls fresh_proc) \<and>
         (\<exists>order. distinct (map snd order) \<and> set (map snd order) = {..<length two_files} \<and>
            (\<forall>fd. written fd new = concat (map (\<lambda>p. if fst p = fd then get_line (\<lambda>_. 0) (f_name (two_files ! snd p)) else []) order)))
     | Exit k \<Rightarrow> k = 1 | Abort \<Rightarrow> False)) fresh_proc"
  by (rule web_fetches[OF web_os_env]) (simp_all add: two_files_def)

definition long_file :: webfile where
  "long_file = \<lparr>f_name = replicate 5000 CHR 0x61, f_host = ''h'', f_fd = 5, f_flags = 0\<rparr>"

theorem web_request_overrun_witness:
  "wp (write_get_cmd web_os (\<lambda>_. 83) 0 (web_start [long_file])) (\<lambda>r t. case r of
      Ret st' \<Rightarrow> (\<exists>new. calls t = calls fresh_proc @ new \<and> (\<forall>fd. written fd new =
        (if fd \<noteq> f_fd (files (web_start [long_file]) ! 0) then []
         else let cmd = get_cmd (f_name (files (web_start [long_file]) ! 0)) in
           if length cmd < MAXLINE then to_bytes cmd
           else to_bytes (take (MAXLINE - 1) cmd) @ [0] @ map (\<lambda>_. 83) [MAXLINE..<length cmd])))
    | Exit n \<Rightarrow> n = 1 | Abort \<Rightarrow> False) fresh_proc"
  by (rule web_request_overrun[OF web_os_env])

end
