(* ===== verification/Sigio.thy ===== *)
theory Sigio
  imports Sock_Util
begin

text \<open>
  The signal-driven echo server sigio/dgecho01.c: a signal handler reads datagrams into a ring of
  \<open>QSIZE\<close> buffers, the main loop sends them back. The handler \<open>sig_io\<close> and the parts of the main loop
  between two points where the handler may run are programs; the step relation \<open>echo_step\<close> runs
  the handler at any of those points. The ring is shown to be a queue (locale \<open>fifo\<close>), although the main
  loop takes an element out in two steps with the handler possibly running in between.
\<close>

definition QSIZE :: nat where "QSIZE = 8"
definition MAXDG :: nat where "MAXDG = 4096"

abbreviation (input) EWOULDBLOCK :: int where "EWOULDBLOCK \<equiv> EAGAIN"
abbreviation (input) SIGIO :: int where "SIGIO \<equiv> 29"
abbreviation (input) F_SETOWN :: int where "F_SETOWN \<equiv> 8"
abbreviation (input) FIOASYNC :: int where "FIOASYNC \<equiv> 0x5452"
abbreviation (input) FIONBIO :: int where "FIONBIO \<equiv> 0x5421"
abbreviation (input) SIG_BLOCK :: int where "SIG_BLOCK \<equiv> 0"
abbreviation (input) SIG_SETMASK :: int where "SIG_SETMASK \<equiv> 2"

section \<open>The queue of datagrams\<close>

record DG =
  dg_data :: "byte list"
  dg_len :: nat
  dg_sa :: sockaddr
  dg_salen :: nat

text \<open>The static variables of the file; \<open>dgproc\<close> adds them to the process.\<close>

record dgproc = proc +
  sockfd :: int
  dg :: "DG list"
  cntread :: "int list"
  iget :: nat
  iput :: nat
  nqueue :: nat
  clilen :: nat

definition wrap :: "nat \<Rightarrow> nat" where
  "wrap i = (if i \<ge> QSIZE then 0 else i)"

definition put_datagram :: "sysret \<Rightarrow> DG \<Rightarrow> DG" where
  "put_datagram r d = d\<lparr>dg_data := out_bytes r @ drop (length (out_bytes r)) (dg_data d), dg_len := nat (rv r),
     dg_sa := (case out_from r of Some (a, n) \<Rightarrow> a | None \<Rightarrow> dg_sa d),
     dg_salen := (case out_from r of Some (a, n) \<Rightarrow> n | None \<Rightarrow> dg_salen d)\<rparr>"

section \<open>The signal handlers\<close>

partial_function (option) sig_io_loop :: "os \<Rightarrow> nat \<Rightarrow> (dgproc, nat) cprog" where
  "sig_io_loop os nread s =
     (if nqueue s \<ge> QSIZE then err_quit os ''receive overflow'' s
      else let s1 = s\<lparr>dg := (dg s)[iput s := (dg s ! iput s)\<lparr>dg_salen := clilen s\<rparr>]\<rparr>;
               c = C_recvfrom (sockfd s) MAXDG 0;
               r = os (calls s1) c;
               s2 = after os c s1 in
           if rv r < 0
           then (if errno s2 = EWOULDBLOCK then Some (Ret nread, s2) else err_sys os ''recvfrom error'' s2)
           else sig_io_loop os (nread + 1)
                  (s2\<lparr>dg := (dg s2)[iput s2 := put_datagram r (dg s2 ! iput s2)],
                      nqueue := nqueue s2 + 1, iput := wrap (iput s2 + 1)\<rparr>))"

definition sig_io :: "os \<Rightarrow> (dgproc, unit) cprog" where
  "sig_io os = cbind (sig_io_loop os 0) (\<lambda>nread.
     cupd (\<lambda>s. s\<lparr>cntread := (cntread s)[nread := cntread s ! nread + 1]\<rparr>))"

fun sig_hup_loop :: "os \<Rightarrow> nat list \<Rightarrow> (dgproc, unit) cprog" where
  "sig_hup_loop os [] = creturn ()"
| "sig_hup_loop os (i # is) =
     cbind (cget (\<lambda>s. cntread s ! i)) (\<lambda>n.
     cbind (call os (C_fputs (''cntread['' @ print_radix 10 i @ ''] = '' @ print_int n @ [CHR 0x0A]) STDOUT)) (\<lambda>_.
     sig_hup_loop os is))"

definition sig_hup :: "os \<Rightarrow> (dgproc, unit) cprog" where
  "sig_hup os = sig_hup_loop os [0..<QSIZE + 1]"

section \<open>The main loop\<close>

fun alloc_queue :: "os \<Rightarrow> nat list \<Rightarrow> (dgproc, unit) cprog" where
  "alloc_queue os [] = creturn ()"
| "alloc_queue os (i # is) =
     cbind (Malloc os MAXDG) (\<lambda>_.
     cbind (cget clilen) (\<lambda>n.
     cbind (Malloc os n) (\<lambda>_.
     cbind (cupd (\<lambda>s. s\<lparr>dg := (dg s)[i := (dg s ! i)\<lparr>dg_data := replicate MAXDG 0, dg_salen := clilen s\<rparr>]\<rparr>)) (\<lambda>_.
     alloc_queue os is))))"

text \<open>Everything before the endless loop; the result is \<open>oldmask\<close>.\<close>

definition dg_echo_init :: "os \<Rightarrow> int \<Rightarrow> int \<Rightarrow> int \<Rightarrow> nat \<Rightarrow> (dgproc, int list) cprog" where
  "dg_echo_init os h_hup h_io sockfd_arg clilen_arg =
     cbind (cupd (\<lambda>s. s\<lparr>sockfd := sockfd_arg, clilen := clilen_arg\<rparr>)) (\<lambda>_.
     cbind (alloc_queue os [0..<QSIZE]) (\<lambda>_.
     cbind (cupd (\<lambda>s. s\<lparr>iget := 0, iput := 0, nqueue := 0\<rparr>)) (\<lambda>_.
     cbind (Signal os SIGHUP h_hup) (\<lambda>_.
     cbind (Signal os SIGIO h_io) (\<lambda>_.
     cbind (call os (C_lib ''getpid'' [])) (\<lambda>p.
     cbind (Fcntl os sockfd_arg F_SETOWN (rv p)) (\<lambda>_.
     cbind (Ioctl os sockfd_arg FIOASYNC [1, 0, 0, 0]) (\<lambda>_.
     cbind (Ioctl os sockfd_arg FIONBIO [1, 0, 0, 0]) (\<lambda>_.
     cbind (Sigemptyset os) (\<lambda>zeromask.
     cbind (Sigemptyset os) (\<lambda>oldmask.
     cbind (Sigemptyset os) (\<lambda>newmask.
     cbind (Sigaddset os newmask SIGIO) (\<lambda>newmask'.
     Sigprocmask os SIG_BLOCK newmask')))))))))))))"

text \<open>The parts of the loop: with the signal blocked and a datagram waiting, unblock; send the datagram and
  step on; block again and count it off.\<close>

definition echo_unblock :: "os \<Rightarrow> int list \<Rightarrow> (dgproc, unit) cprog" where
  "echo_unblock os oldmask = cbind (Sigprocmask os SIG_SETMASK oldmask) (\<lambda>_. creturn ())"

definition echo_send :: "os \<Rightarrow> (dgproc, unit) cprog" where
  "echo_send os =
     cbind (cget (\<lambda>s. (sockfd s, dg s ! iget s))) (\<lambda>(fd, d).
     cbind (Sendto os fd (take (dg_len d) (dg_data d)) 0 (dg_sa d) (dg_salen d)) (\<lambda>_.
     cupd (\<lambda>s. s\<lparr>iget := wrap (iget s + 1)\<rparr>)))"

definition echo_block :: "os \<Rightarrow> int list \<Rightarrow> (dgproc, unit) cprog" where
  "echo_block os newmask =
     cbind (Sigprocmask os SIG_BLOCK newmask) (\<lambda>_. cupd (\<lambda>s. s\<lparr>nqueue := nqueue s - 1\<rparr>))"

text \<open>Where the main loop is. The handler runs inside \<open>sigsuspend\<close> (\<open>Blocked\<close> with an empty queue) and
  wherever the signal is not blocked.\<close>

datatype phase = Blocked | Unblocked | Sent

inductive echo_step :: "os \<Rightarrow> int list \<Rightarrow> int list \<Rightarrow> phase \<times> dgproc \<Rightarrow> phase \<times> dgproc \<Rightarrow> bool"
  for os oldmask newmask where
  suspend: "nqueue s = 0 \<Longrightarrow> sig_io os (after os (C_lib ''sigsuspend'' [V_ints []]) s) = Some (Ret (), t) \<Longrightarrow>
    echo_step os oldmask newmask (Blocked, s) (Blocked, t)"
| unblock: "nqueue s \<noteq> 0 \<Longrightarrow> echo_unblock os oldmask s = Some (Ret (), t) \<Longrightarrow>
    echo_step os oldmask newmask (Blocked, s) (Unblocked, t)"
| signal_unblocked: "sig_io os s = Some (Ret (), t) \<Longrightarrow> echo_step os oldmask newmask (Unblocked, s) (Unblocked, t)"
| send: "echo_send os s = Some (Ret (), t) \<Longrightarrow> echo_step os oldmask newmask (Unblocked, s) (Sent, t)"
| signal_sent: "sig_io os s = Some (Ret (), t) \<Longrightarrow> echo_step os oldmask newmask (Sent, s) (Sent, t)"
| block: "echo_block os newmask s = Some (Ret (), t) \<Longrightarrow> echo_step os oldmask newmask (Sent, s) (Blocked, t)"

section \<open>The ring is a queue\<close>

locale fifo =
  fixes inv :: "'s \<Rightarrow> bool" and abs :: "'s \<Rightarrow> 'a list" and cap :: nat
    and put :: "'a \<Rightarrow> 's \<Rightarrow> 's" and front :: "'s \<Rightarrow> 'a" and pop :: "'s \<Rightarrow> 's"
  assumes put: "inv s \<Longrightarrow> length (abs s) < cap \<Longrightarrow> inv (put x s) \<and> abs (put x s) = abs s @ [x]"
    and front: "inv s \<Longrightarrow> abs s \<noteq> [] \<Longrightarrow> front s = hd (abs s)"
    and pop: "inv s \<Longrightarrow> abs s \<noteq> [] \<Longrightarrow> inv (pop s) \<and> abs (pop s) = tl (abs s)"
    and bounded: "inv s \<Longrightarrow> length (abs s) \<le> cap"
begin

lemma front_pop: "inv s \<Longrightarrow> abs s \<noteq> [] \<Longrightarrow> abs s = front s # abs (pop s)"
  using front pop by simp

text \<open>An element may be added while the front one is being taken out.\<close>

lemma put_pop: "inv s \<Longrightarrow> abs s \<noteq> [] \<Longrightarrow> length (abs s) < cap \<Longrightarrow>
    front (put x s) = front s \<and> abs (pop (put x s)) = abs (pop s) @ [x] \<and> abs (put x (pop s)) = abs (pop s) @ [x]"
  using put[of s x] front[of s] front[of "put x s"] pop[of s] pop[of "put x s"] put[of "pop s" x] bounded[of s]
  by (cases "abs s") auto

end

definition ring_inv :: "dgproc \<Rightarrow> bool" where
  "ring_inv s \<longleftrightarrow> length (dg s) = QSIZE \<and> iget s < QSIZE \<and> nqueue s \<le> QSIZE \<and> iput s = (iget s + nqueue s) mod QSIZE"

definition ring_abs :: "dgproc \<Rightarrow> DG list" where
  "ring_abs s = map (\<lambda>j. dg s ! ((iget s + j) mod QSIZE)) [0..<nqueue s]"

definition ring_put :: "DG \<Rightarrow> dgproc \<Rightarrow> dgproc" where
  "ring_put d s = s\<lparr>dg := (dg s)[iput s := d], nqueue := nqueue s + 1, iput := wrap (iput s + 1)\<rparr>"

definition ring_pop :: "dgproc \<Rightarrow> dgproc" where
  "ring_pop s = s\<lparr>iget := wrap (iget s + 1), nqueue := nqueue s - 1\<rparr>"

lemma wrap_mod: "i < QSIZE \<Longrightarrow> wrap (Suc i) = Suc i mod QSIZE"
  by (cases "Suc i = QSIZE") (auto simp: wrap_def)

lemma length_ring_abs [simp]: "length (ring_abs s) = nqueue s"
  by (simp add: ring_abs_def)

lemma slot_free:
  assumes "j < n" and "n < QSIZE"
  shows "(i + j) mod QSIZE \<noteq> (i + n) mod QSIZE"
proof
  assume "(i + j) mod QSIZE = (i + n) mod QSIZE"
  then have "QSIZE dvd (i + n) - (i + j)" using assms by (subst mod_eq_dvd_iff_nat[symmetric]) simp_all
  with assms show False by (simp add: nat_dvd_not_less)
qed

lemma ring_abs_free_slot:
  assumes "ring_inv s" and "nqueue s < QSIZE"
  shows "map (\<lambda>j. (dg s)[iput s := d] ! ((iget s + j) mod QSIZE)) [0..<nqueue s] = ring_abs s"
proof -
  have "(dg s)[iput s := d] ! ((iget s + j) mod QSIZE) = dg s ! ((iget s + j) mod QSIZE)" if "j < nqueue s" for j
    using slot_free[OF that assms(2), of "iget s"] assms(1) by (simp add: ring_inv_def)
  then show ?thesis by (simp add: ring_abs_def)
qed

interpretation rq: fifo ring_inv ring_abs QSIZE ring_put "\<lambda>s. dg s ! iget s" ring_pop
proof unfold_locales
  fix s :: dgproc and x
  assume inv: "ring_inv s"
  have q: "QSIZE = 8" by (simp add: QSIZE_def)
  show "length (ring_abs s) \<le> QSIZE" using inv by (simp add: ring_inv_def)
  {
    assume n: "length (ring_abs s) < QSIZE"
    have "iput s < QSIZE" using inv by (simp add: ring_inv_def q)
    then have "ring_inv (ring_put x s)"
      using inv n wrap_mod[of "iput s"] by (simp add: ring_inv_def ring_put_def mod_Suc_eq)
    moreover have "ring_abs (ring_put x s) = ring_abs s @ [x]"
      using ring_abs_free_slot[OF inv, of x] n inv \<open>iput s < QSIZE\<close>
      unfolding ring_abs_def[of "ring_put x s"] by (simp add: ring_put_def ring_inv_def)
    ultimately show "ring_inv (ring_put x s) \<and> ring_abs (ring_put x s) = ring_abs s @ [x]" by simp
  }
  {
    assume ne: "ring_abs s \<noteq> []"
    then have n: "0 < nqueue s" by (metis length_ring_abs length_greater_0_conv)
    then have u: "[0..<nqueue s] = 0 # map Suc [0..<nqueue s - 1]" by (metis Suc_pred' map_Suc_upt upt_conv_Cons)
    have ig: "iget s mod QSIZE = iget s" using inv by (simp add: ring_inv_def)
    show "dg s ! iget s = hd (ring_abs s)" by (simp add: ring_abs_def u ig)
    obtain k where k: "nqueue s = Suc k" using n by (cases "nqueue s") auto
    then have "ring_inv (ring_pop s)"
      using inv by (auto simp: ring_inv_def ring_pop_def wrap_mod mod_add_left_eq q)
    moreover have "ring_abs (ring_pop s) = tl (ring_abs s)"
      using inv by (simp add: ring_abs_def u ring_pop_def wrap_mod ring_inv_def mod_add_left_eq comp_def)
    ultimately show "ring_inv (ring_pop s) \<and> ring_abs (ring_pop s) = tl (ring_abs s)" by simp
  }
qed

section \<open>The handler keeps the queue\<close>

definition dgram :: "DG \<Rightarrow> byte list \<times> sockaddr" where
  "dgram d = (take (dg_len d) (dg_data d), dg_sa d)"

lemma dgram_put:
  assumes "recvfrom_ok os" and "0 \<le> rv (os h (C_recvfrom fd n fl))"
  shows "dgram (put_datagram (os h (C_recvfrom fd n fl)) d)
    = (out_bytes (os h (C_recvfrom fd n fl)), fst (the (out_from (os h (C_recvfrom fd n fl)))))"
proof -
  let ?r = "os h (C_recvfrom fd n fl)"
  obtain a m where "length (out_bytes ?r) = nat (rv ?r)" "out_from ?r = Some (a, m)"
    using assms by (fastforce simp: recvfrom_ok_def Let_def)
  then show ?thesis by (simp add: dgram_def put_datagram_def)
qed

lemma ring_touch_free:
  assumes "ring_inv s" and "nqueue s < QSIZE"
  shows "ring_inv (s\<lparr>dg := (dg s)[iput s := d]\<rparr>)" and "ring_abs (s\<lparr>dg := (dg s)[iput s := d]\<rparr>) = ring_abs s"
  using assms ring_abs_free_slot[OF assms, of d] by (simp_all add: ring_inv_def ring_abs_def)

text \<open>What a run of the handler leaves: the queue seen from any read position \<open>i\<close> (the main loop may have
  moved on already) is extended by what was received.\<close>

definition handler_post :: "dgproc \<Rightarrow> dgproc \<Rightarrow> bool" where
  "handler_post s t \<longleftrightarrow> iget t = iget s \<and> sockfd t = sockfd s \<and> clilen t = clilen s \<and>
     echoed_dgs (calls t) = echoed_dgs (calls s) \<and>
     (\<forall>i. ring_inv (s\<lparr>iget := i\<rparr>) \<longrightarrow> ring_inv (t\<lparr>iget := i\<rparr>) \<and>
        (\<exists>ds. ring_abs (t\<lparr>iget := i\<rparr>) = ring_abs (s\<lparr>iget := i\<rparr>) @ ds \<and>
              received_dgs (calls t) = received_dgs (calls s) @ map dgram ds))"

lemma handler_post_trans: "handler_post s t \<Longrightarrow> handler_post t u \<Longrightarrow> handler_post s u"
  unfolding handler_post_def by (metis (no_types, lifting) append_assoc map_append)

lemma handler_post_fields:
  assumes "handler_post s t" and "dg u = dg t" "iget u = iget t" "iput u = iput t" "nqueue u = nqueue t" "calls u = calls t"
    "sockfd u = sockfd t" "clilen u = clilen t"
  shows "handler_post s u"
proof -
  have "ring_inv (u\<lparr>iget := i\<rparr>) = ring_inv (t\<lparr>iget := i\<rparr>)" "ring_abs (u\<lparr>iget := i\<rparr>) = ring_abs (t\<lparr>iget := i\<rparr>)" for i
    using assms by (simp_all add: ring_inv_def ring_abs_def)
  then show ?thesis using assms by (simp add: handler_post_def)
qed

text \<open>One round of the loop that received a datagram.\<close>

definition recv_round :: "os \<Rightarrow> dgproc \<Rightarrow> dgproc" where
  "recv_round os s =
     (let s1 = s\<lparr>dg := (dg s)[iput s := (dg s ! iput s)\<lparr>dg_salen := clilen s\<rparr>]\<rparr>;
          c = C_recvfrom (sockfd s) MAXDG 0;
          s2 = after os c s1 in
      s2\<lparr>dg := (dg s2)[iput s2 := put_datagram (os (calls s1) c) (dg s2 ! iput s2)],
         nqueue := nqueue s2 + 1, iput := wrap (iput s2 + 1)\<rparr>)"

lemma after_fields [simp]:
  "dg (after os c s) = dg s" "iget (after os c s) = iget s" "iput (after os c s) = iput s" "nqueue (after os c s) = nqueue s"
  "sockfd (after os c s) = sockfd s" "clilen (after os c s) = clilen s" "cntread (after os c s) = cntread s"
  by (simp_all add: after_def)

lemma recv_round_post:
  assumes "recvfrom_ok os" and "nqueue s < QSIZE" and "0 \<le> rv (os (calls s) (C_recvfrom (sockfd s) MAXDG 0))"
  shows "handler_post s (recv_round os s)"
proof -
  let ?r = "os (calls s) (C_recvfrom (sockfd s) MAXDG 0)"
  have q: "ring_inv ((recv_round os s)\<lparr>iget := i\<rparr>) \<and>
      ring_abs ((recv_round os s)\<lparr>iget := i\<rparr>) = ring_abs (s\<lparr>iget := i\<rparr>) @ [put_datagram ?r ((dg s ! iput s)\<lparr>dg_salen := clilen s\<rparr>)]"
    if inv: "ring_inv (s\<lparr>iget := i\<rparr>)" for i
  proof -
    let ?d = "(dg s ! iput s)\<lparr>dg_salen := clilen s\<rparr>" and ?s = "s\<lparr>iget := i\<rparr>"
    let ?t = "ring_put (put_datagram ?r ?d) (?s\<lparr>dg := (dg s)[iput s := ?d]\<rparr>)"
    have il: "iput s < length (dg s)" using inv by (simp add: ring_inv_def QSIZE_def)
    have f: "ring_inv (?s\<lparr>dg := (dg s)[iput s := ?d]\<rparr>)" "ring_abs (?s\<lparr>dg := (dg s)[iput s := ?d]\<rparr>) = ring_abs ?s"
      using ring_touch_free[OF inv, of ?d] assms(2) by simp_all
    have "ring_inv ?t \<and> ring_abs ?t = ring_abs ?s @ [put_datagram ?r ?d]"
      using rq.put[OF f(1), of "put_datagram ?r ?d"] f(2) assms(2) by simp
    moreover have "ring_inv ((recv_round os s)\<lparr>iget := i\<rparr>) = ring_inv ?t" "ring_abs ((recv_round os s)\<lparr>iget := i\<rparr>) = ring_abs ?t"
      using il by (simp_all add: recv_round_def Let_def ring_inv_def ring_abs_def ring_put_def)
    ultimately show ?thesis by simp
  qed
  have "received_dgs (calls (recv_round os s)) = received_dgs (calls s) @ map dgram [put_datagram ?r ((dg s ! iput s)\<lparr>dg_salen := clilen s\<rparr>)]"
    using assms(1,3) by (simp add: recv_round_def Let_def dgram_put) (simp add: received_dgs_def)
  moreover have "echoed_dgs (calls (recv_round os s)) = echoed_dgs (calls s)"
    by (simp add: recv_round_def Let_def) (simp add: echoed_dgs_def)
  ultimately show ?thesis using q unfolding handler_post_def by (auto simp: recv_round_def Let_def)
qed

lemma sig_io_loop_full: "QSIZE \<le> nqueue s \<Longrightarrow> sig_io_loop os n s = Some (Exit 1, err_state os False LOG_ERR ''receive overflow'' s)"
  by (subst sig_io_loop.simps) simp

lemma sig_io_loop_round:
  assumes "nqueue s < QSIZE" and "0 \<le> rv (os (calls s) (C_recvfrom (sockfd s) MAXDG 0))"
  shows "sig_io_loop os n s = sig_io_loop os (n + 1) (recv_round os s)"
  using assms by (subst sig_io_loop.simps) (simp add: Let_def recv_round_def)

lemma sig_io_loop_end:
  assumes "nqueue s < QSIZE" and "rv (os (calls s) (C_recvfrom (sockfd s) MAXDG 0)) < 0"
  shows "wp (sig_io_loop os n) (\<lambda>r t. case r of Ret k \<Rightarrow> handler_post s t \<and> nqueue t = nqueue s \<and> k = n
      | Exit m \<Rightarrow> m = 1 | Abort \<Rightarrow> False) s"
proof -
  let ?s1 = "s\<lparr>dg := (dg s)[iput s := (dg s ! iput s)\<lparr>dg_salen := clilen s\<rparr>]\<rparr>"
  let ?s2 = "after os (C_recvfrom (sockfd s) MAXDG 0) ?s1"
  have "ring_inv (?s2\<lparr>iget := i\<rparr>) \<and> ring_abs (?s2\<lparr>iget := i\<rparr>) = ring_abs (s\<lparr>iget := i\<rparr>)" if "ring_inv (s\<lparr>iget := i\<rparr>)" for i
    using ring_touch_free[OF that, of "(dg s ! iput s)\<lparr>dg_salen := clilen s\<rparr>"] assms(1) by (simp add: ring_inv_def ring_abs_def)
  moreover have "received_dgs (calls ?s2) = received_dgs (calls s)" "echoed_dgs (calls ?s2) = echoed_dgs (calls s)"
    using assms(2) by (simp_all add: received_dgs_def echoed_dgs_def)
  ultimately have "handler_post s ?s2" by (auto simp: handler_post_def)
  then show ?thesis using assms by (simp add: wp_def sig_io_loop.simps[of os n s] Let_def)
qed

lemma sig_io_loop_wp:
  assumes ok: "recvfrom_ok os"
  shows "wp (sig_io_loop os n) (\<lambda>r t. case r of Ret k \<Rightarrow> handler_post s t \<and> nqueue t < QSIZE \<and> k + nqueue s = n + nqueue t
      | Exit m \<Rightarrow> m = 1 | Abort \<Rightarrow> False) s"
proof (induction "QSIZE - nqueue s" arbitrary: s n)
  case 0
  then show ?case by (simp add: wp_def sig_io_loop_full)
next
  case (Suc d)
  then have lt: "nqueue s < QSIZE" by simp
  show ?case
  proof (cases "rv (os (calls s) (C_recvfrom (sockfd s) MAXDG 0)) < 0")
    case True
    show ?thesis by (rule wp_mono[OF sig_io_loop_end[of s os n, OF lt True]]) (auto simp: lt split: outcome.splits)
  next
    case False
    then have rr: "handler_post s (recv_round os s)" using recv_round_post[OF ok lt] by simp
    have nq: "nqueue (recv_round os s) = nqueue s + 1" by (simp add: recv_round_def Let_def)
    have "sig_io_loop os n s = sig_io_loop os (n + 1) (recv_round os s)"
      using sig_io_loop_round[OF lt] False by simp
    then have eq: "wp (sig_io_loop os n) Q s = wp (sig_io_loop os (n + 1)) Q (recv_round os s)" for Q by (simp add: wp_def)
    have "d = QSIZE - nqueue (recv_round os s)" using Suc.hyps(2) nq by simp
    from Suc.hyps(1)[OF this, of "n + 1"] show ?thesis
      unfolding eq by (rule wp_mono) (auto simp: nq handler_post_trans[OF rr] split: outcome.splits)
  qed
qed

lemma sig_io_wp:
  assumes "recvfrom_ok os"
  shows "wp (sig_io os) (\<lambda>r t. case r of Ret _ \<Rightarrow> handler_post s t \<and> nqueue t < QSIZE
      | Exit m \<Rightarrow> m = 1 | Abort \<Rightarrow> False) s"
  unfolding sig_io_def
  by (rule wp_bindI[OF sig_io_loop_wp[OF assms]]) (auto simp: wp_cupd elim: handler_post_fields)

section \<open>Every datagram is echoed once, in order, to its sender\<close>

inductive echo_reach :: "os \<Rightarrow> int list \<Rightarrow> int list \<Rightarrow> dgproc \<Rightarrow> phase \<Rightarrow> dgproc \<Rightarrow> bool"
  for os oldmask newmask s0 where
  start: "echo_reach os oldmask newmask s0 Blocked s0"
| step: "echo_reach os oldmask newmask s0 p s \<Longrightarrow> echo_step os oldmask newmask (p, s) (q, t) \<Longrightarrow>
    echo_reach os oldmask newmask s0 q t"

text \<open>Between the step past a datagram and its being counted off, the queue starts one slot earlier than
  \<open>iget\<close>.\<close>

definition queue_view :: "phase \<Rightarrow> dgproc \<Rightarrow> dgproc" where
  "queue_view p s = (case p of Sent \<Rightarrow> s\<lparr>iget := (iget s + 7) mod QSIZE\<rparr> | _ \<Rightarrow> s)"

definition waiting :: "phase \<Rightarrow> dgproc \<Rightarrow> DG list" where
  "waiting p s = (case p of Sent \<Rightarrow> tl (ring_abs (queue_view p s)) | _ \<Rightarrow> ring_abs s)"

definition echo_inv :: "phase \<Rightarrow> dgproc \<Rightarrow> bool" where
  "echo_inv p s \<longleftrightarrow> ring_inv (queue_view p s) \<and> iget s < QSIZE \<and> (p \<noteq> Blocked \<longrightarrow> nqueue s \<noteq> 0) \<and>
     received_dgs (calls s) = echoed_dgs (calls s) @ map dgram (waiting p s)"

lemma handler_keeps_inv:
  assumes "echo_inv p s" and "handler_post s t"
  shows "echo_inv p t"
proof -
  define i where "i = iget (queue_view p s)"
  have views: "queue_view p s = s\<lparr>iget := i\<rparr>" "queue_view p t = t\<lparr>iget := i\<rparr>"
    using assms(2) by (auto simp: i_def queue_view_def handler_post_def split: phase.split)
  with assms obtain ds where ds: "ring_inv (t\<lparr>iget := i\<rparr>)" "ring_abs (t\<lparr>iget := i\<rparr>) = ring_abs (s\<lparr>iget := i\<rparr>) @ ds"
    "received_dgs (calls t) = received_dgs (calls s) @ map dgram ds"
    by (auto simp: echo_inv_def handler_post_def)
  have "length (ring_abs (t\<lparr>iget := i\<rparr>)) = length (ring_abs (s\<lparr>iget := i\<rparr>)) + length ds" using ds(2) by simp
  then have nq: "nqueue t = nqueue s + length ds" by simp
  have "waiting p t = waiting p s @ ds"
  proof (cases p)
    case Sent
    then have "ring_abs (s\<lparr>iget := i\<rparr>) \<noteq> []" using assms(1) by (metis echo_inv_def length_0_conv length_ring_abs phase.distinct(3) views(1) dgproc.select_convs(6) dgproc.surjective dgproc.update_convs(4))
    then show ?thesis using Sent views ds(2) by (simp add: waiting_def)
  next
    case Blocked
    then have "s\<lparr>iget := i\<rparr> = s" "t\<lparr>iget := i\<rparr> = t" using views by (simp_all add: queue_view_def)
    then show ?thesis using Blocked ds(2) by (simp add: waiting_def)
  next
    case Unblocked
    then have "s\<lparr>iget := i\<rparr> = s" "t\<lparr>iget := i\<rparr> = t" using views by (simp_all add: queue_view_def)
    then show ?thesis using Unblocked ds(2) by (simp add: waiting_def)
  qed
  then show ?thesis using assms ds views nq by (auto simp: echo_inv_def handler_post_def)
qed

lemma Sigprocmask_fields:
  assumes "Sigprocmask os how m s = Some (Ret x, t)"
  shows "t = after os (C_lib ''sigprocmask'' [V_int how, V_ints m]) s"
  using w_Sigprocmask.returnsD(3)[OF assms] .

lemma lib_call_dgs: "received_dgs [(C_lib f a, r)] = []" "echoed_dgs [(C_lib f a, r)] = []"
  by (simp_all add: received_dgs_def echoed_dgs_def)

lemma queue_view_after: "queue_view p (after os c s) = after os c (queue_view p s)"
  by (cases p; cases "err (os (calls s) c)") (simp_all add: queue_view_def after_def)

lemma ring_after: "ring_inv (after os c s) = ring_inv s" "ring_abs (after os c s) = ring_abs s"
  by (simp_all add: ring_inv_def ring_abs_def)

lemma waiting_after: "waiting p (after os c s) = waiting p s"
  by (simp add: waiting_def queue_view_after ring_after split: phase.split)

lemma echo_inv_lib: "echo_inv p s \<Longrightarrow> echo_inv p (after os (C_lib f a) s)"
  by (simp add: echo_inv_def queue_view_after ring_after waiting_after lib_call_dgs)

lemma step_back: "i < QSIZE \<Longrightarrow> (wrap (i + 1) + 7) mod QSIZE = i"
  by (cases "i = 7") (auto simp: wrap_def QSIZE_def mod_if)

lemma echo_step_inv:
  assumes "echo_step os oldmask newmask (p, s) (q, t)" and "recvfrom_ok os" and inv: "echo_inv p s"
  shows "echo_inv q t"
  using assms(1)
proof cases
  case suspend
  then have "handler_post (after os (C_lib ''sigsuspend'' [V_ints []]) s) t"
    using wpD[OF sig_io_wp[OF assms(2)]] by fastforce
  then show ?thesis using suspend handler_keeps_inv echo_inv_lib[OF inv] by blast
next
  case unblock
  then obtain x where "Sigprocmask os SIG_SETMASK oldmask s = Some (Ret x, t)"
    by (auto simp: echo_unblock_def elim!: cbindE)
  from Sigprocmask_fields[OF this] echo_inv_lib[OF inv] unblock show ?thesis
    by (simp add: echo_inv_def queue_view_def waiting_def)
next
  case signal_unblocked
  then have "handler_post s t" using wpD[OF sig_io_wp[OF assms(2)]] by fastforce
  then show ?thesis using signal_unblocked handler_keeps_inv[OF inv] by blast
next
  case signal_sent
  then have "handler_post s t" using wpD[OF sig_io_wp[OF assms(2)]] by fastforce
  then show ?thesis using signal_sent handler_keeps_inv[OF inv] by blast
next
  case send
  let ?d = "dg s ! iget s"
  let ?c = "C_sendto (sockfd s) (take (dg_len ?d) (dg_data ?d)) 0 (dg_sa ?d) (dg_salen ?d)"
  from send have t: "t = (after os ?c s)\<lparr>iget := wrap (iget s + 1)\<rparr>" and r: "rv (os (calls s) ?c) = int (length (take (dg_len ?d) (dg_data ?d)))"
    by (auto simp: echo_send_def Sendto_def elim!: cbindE split: if_splits)
  have inv': "ring_inv s" "iget s < QSIZE" "nqueue s \<noteq> 0" "received_dgs (calls s) = echoed_dgs (calls s) @ map dgram (ring_abs s)"
    using inv send by (simp_all add: echo_inv_def queue_view_def waiting_def)
  have v: "queue_view Sent t = after os ?c s" using step_back[OF inv'(2)] by (simp add: t queue_view_def after_def)
  have ne: "ring_abs s \<noteq> []" using inv'(3) length_ring_abs[of s] by (metis list.size(3))
  have "dgram ?d # map dgram (tl (ring_abs s)) = map dgram (ring_abs s)"
    using rq.front[OF inv'(1) ne] ne by (metis list.collapse list.simps(9))
  moreover have "echoed_dgs [(?c, os (calls s) ?c)] = [dgram ?d]" "received_dgs [(?c, os (calls s) ?c)] = []"
    using r by (simp_all add: echoed_dgs_def received_dgs_def dgram_def)
  moreover have "wrap (Suc (iget s)) < QSIZE" by (simp add: wrap_def QSIZE_def)
  ultimately show ?thesis
    using send v inv' ring_after[of os ?c s] by (simp add: echo_inv_def waiting_def t)
next
  case block
  let ?c = "C_lib ''sigprocmask'' [V_int SIG_BLOCK, V_ints newmask]"
  from block obtain x u where u: "Sigprocmask os SIG_BLOCK newmask s = Some (Ret x, u)" and t: "t = u\<lparr>nqueue := nqueue u - 1\<rparr>"
    by (auto simp: echo_block_def elim!: cbindE)
  define v where "v = queue_view Sent (after os ?c s)"
  have inv': "echo_inv Sent (after os ?c s)" using echo_inv_lib[OF inv] block by simp
  have n: "nqueue v = nqueue (after os ?c s)" "calls v = calls (after os ?c s)" by (simp_all add: v_def queue_view_def)
  have ne: "ring_abs v \<noteq> []" using inv' n length_ring_abs[of v] by (metis echo_inv_def list.size(3) phase.distinct(3))
  have vi: "ring_inv v" using inv' by (simp add: echo_inv_def v_def)
  have "wrap ((iget s + 7) mod QSIZE + 1) = iget s" using inv' by (auto simp: wrap_def QSIZE_def echo_inv_def mod_if)
  then have "ring_pop v = t"
    by (simp add: ring_pop_def v_def queue_view_def t Sigprocmask_fields[OF u] after_def)
  with rq.pop[OF vi ne] have "ring_inv t" "ring_abs t = tl (ring_abs v)" by auto
  moreover have "iget t < QSIZE" using \<open>ring_inv t\<close> by (simp add: ring_inv_def)
  moreover have "calls t = calls (after os ?c s)" using t Sigprocmask_fields[OF u] by simp
  ultimately show ?thesis using inv' block by (simp add: echo_inv_def waiting_def v_def queue_view_def)
qed

text \<open>The start of the main loop: what the initialisation leaves.\<close>

definition echo_start :: "dgproc \<Rightarrow> bool" where
  "echo_start s \<longleftrightarrow> ring_inv s \<and> nqueue s = 0 \<and> received_dgs (calls s) = echoed_dgs (calls s)"

definition quiet :: "ccall \<Rightarrow> bool" where
  "quiet c \<longleftrightarrow> (\<forall>r. received_dgs [(c, r)] = [] \<and> echoed_dgs [(c, r)] = [])"

lemma quiet_calls: "quiet (C_lib f a)" "quiet (C_fcntl fd cmd x)" "quiet (C_strerror e)" "quiet (C_syslog l m)"
  "quiet (C_fflush f')" "quiet (C_fputs m f')"
  by (simp_all add: quiet_def received_dgs_def echoed_dgs_def)

definition ready :: "dgproc \<Rightarrow> bool" where
  "ready s \<longleftrightarrow> length (dg s) = QSIZE \<and> received_dgs (calls s) = echoed_dgs (calls s)"

lemma ready_after: "quiet c \<Longrightarrow> ready s \<Longrightarrow> ready (after os c s)"
  by (simp add: ready_def quiet_def)

lemma start_after: "quiet c \<Longrightarrow> echo_start s \<Longrightarrow> echo_start (after os c s)"
  by (simp add: echo_start_def quiet_def ring_after)

lemma alloc_queue_ready: "keeps ready (alloc_queue os is)"
proof (induction "is")
  case Nil
  show ?case unfolding alloc_queue.simps by blast
next
  case (Cons i "is")
  then show ?case unfolding alloc_queue.simps Malloc_def
    by (intro keeps_bind keeps_call keeps_if keeps_err keeps_return keeps_upd ready_after quiet_calls) (auto simp: ready_def)
qed

lemma dg_echo_init_start:
  assumes "ready s"
  shows "wp (dg_echo_init os h_hup h_io fd cl) (\<lambda>r t. case r of Ret _ \<Rightarrow> echo_start t | Exit n \<Rightarrow> n = 1 | Abort \<Rightarrow> False) s"
proof -
  have rest: "keeps echo_start (cbind (Signal os SIGHUP h_hup) (\<lambda>_.
     cbind (Signal os SIGIO h_io) (\<lambda>_.
     cbind (call os (C_lib ''getpid'' [])) (\<lambda>p.
     cbind (Fcntl os fd F_SETOWN (rv p)) (\<lambda>_.
     cbind (Ioctl os fd FIOASYNC [1, 0, 0, 0]) (\<lambda>_.
     cbind (Ioctl os fd FIONBIO [1, 0, 0, 0]) (\<lambda>_.
     cbind (Sigemptyset os) (\<lambda>zeromask.
     cbind (Sigemptyset os) (\<lambda>oldmask.
     cbind (Sigemptyset os) (\<lambda>newmask.
     cbind (Sigaddset os newmask SIGIO) (\<lambda>newmask'.
     Sigprocmask os SIG_BLOCK newmask')))))))))))"
    unfolding Signal_def signal_def Fcntl_def Ioctl_def Sigemptyset_def Sigaddset_def Sigprocmask_def
    by (intro keeps_bind keeps_call keeps_if keeps_let keeps_err keeps_return start_after quiet_calls) assumption+
  have "ready (s\<lparr>sockfd := fd, clilen := cl\<rparr>)" using assms by (simp add: ready_def)
  note 1 = keepsD[OF alloc_queue_ready this]
  have "echo_start (t\<lparr>iget := 0, iput := 0, nqueue := 0\<rparr>)" if "ready t" for t
    using that by (simp add: ready_def echo_start_def ring_inv_def QSIZE_def)
  with keepsD[OF rest] show ?thesis
    unfolding dg_echo_init_def wp_bind[of "cupd _"] wp_cupd outcome.case
    by (intro wp_bindI[OF 1]) (simp_all only: wp_bind[of "cupd _"] wp_cupd outcome.case)
qed

lemma echo_reach_inv:
  assumes "echo_reach os oldmask newmask s0 p s" and "recvfrom_ok os" and "echo_start s0"
  shows "echo_inv p s"
  using assms(1)
proof (induction rule: echo_reach.induct)
  case start
  then show ?case
    using assms(3) by (simp add: echo_start_def echo_inv_def queue_view_def waiting_def ring_inv_def ring_abs_def)
next
  case (step p s q t)
  then show ?case using echo_step_inv[OF _ assms(2)] by blast
qed

text \<open>
  C3. The echo server answers every datagram exactly once, in the order of arrival and to the address
  it came from, whenever the signal handler runs: at every moment the datagrams received are those
  echoed followed by those waiting in the ring of buffers, which never holds more than its capacity, and
  the handler never overwrites a buffer in use.
\<close>

theorem dg_echo_exactly_once:
  assumes "recvfrom_ok os" and "echo_start s0" and "echo_reach os oldmask newmask s0 p s"
  shows "received_dgs (calls s) = echoed_dgs (calls s) @ map dgram (waiting p s) \<and>
    length (waiting p s) \<le> nqueue s \<and> nqueue s \<le> QSIZE"
proof -
  have inv: "echo_inv p s" by (rule echo_reach_inv[OF assms(3,1,2)])
  have "nqueue s \<le> QSIZE" using inv by (cases p) (auto simp: echo_inv_def queue_view_def ring_inv_def)
  moreover have "length (waiting p s) \<le> nqueue s" by (cases p) (simp_all add: waiting_def queue_view_def)
  ultimately show ?thesis using inv by (simp add: echo_inv_def)
qed

definition one_datagram :: os where
  "one_datagram h c = (case c of
     C_recvfrom _ _ _ \<Rightarrow> if received_dgs h = [] then \<lparr>rv = 2, err = None, outs = [V_bytes [7, 8], V_addr (Sockaddr_in 9 [10, 0, 0, 1]), V_int 16]\<rparr>
                         else fails EAGAIN
   | C_sendto _ bs _ _ _ \<Rightarrow> ok (int (length bs)) | _ \<Rightarrow> ok 0)"

definition idle_echo :: dgproc where
  "idle_echo = \<lparr>errno = 0, daemon_proc = 0, calls = [], sockfd = 3,
     dg = replicate 8 \<lparr>dg_data = replicate 4096 0, dg_len = 0, dg_sa = null_addr, dg_salen = 16\<rparr>,
     cntread = replicate 9 0, iget = 0, iput = 0, nqueue = 0, clilen = 16\<rparr>"

lemma one_datagram_ok: "recvfrom_ok one_datagram"
  by (auto simp: recvfrom_ok_def one_datagram_def Let_def ok_def fails_def out_bytes_def out_from_def)

theorem dg_echo_exactly_once_witness:
  "\<exists>s. echo_reach one_datagram [] [29] idle_echo Blocked s \<and> nqueue s = 1 \<and>
     received_dgs (calls s) = echoed_dgs (calls s) @ map dgram (waiting Blocked s)"
proof -
  let ?s1 = "after one_datagram (C_lib ''sigsuspend'' [V_ints []]) idle_echo"
  have st: "echo_start idle_echo"
    by (simp add: echo_start_def idle_echo_def ring_inv_def QSIZE_def received_dgs_def echoed_dgs_def)
  have "sig_io_loop one_datagram 0 ?s1 = sig_io_loop one_datagram 1 (recv_round one_datagram ?s1)"
    using sig_io_loop_round[of ?s1 one_datagram 0] by (simp add: idle_echo_def QSIZE_def one_datagram_def received_dgs_def)
  moreover obtain t where t: "sig_io_loop one_datagram 1 (recv_round one_datagram ?s1) = Some (Ret 1, t)" "nqueue t = 1"
    by (simp add: sig_io_loop.simps[of _ "Suc 0"] recv_round_def Let_def idle_echo_def QSIZE_def one_datagram_def received_dgs_def fails_def errno_after)
  ultimately have "sig_io one_datagram ?s1 = Some (Ret (), t\<lparr>cntread := (cntread t)[1 := cntread t ! 1 + 1]\<rparr>)"
    by (simp add: sig_io_def)
  then have "echo_step one_datagram [] [29] (Blocked, idle_echo) (Blocked, t\<lparr>cntread := (cntread t)[1 := cntread t ! 1 + 1]\<rparr>)"
    by (intro echo_step.suspend) (simp_all add: idle_echo_def)
  with echo_reach.step[OF echo_reach.start] have
    r: "echo_reach one_datagram [] [29] idle_echo Blocked (t\<lparr>cntread := (cntread t)[1 := cntread t ! 1 + 1]\<rparr>)" by blast
  from dg_echo_exactly_once[OF one_datagram_ok st r] r t(2) show ?thesis by (intro exI) auto
qed

text \<open>
  The handler always ends, and when it returns there is a free buffer. So the ring's last buffer is
  never used: the handler ends the process as soon as a datagram fills the ring, although nothing has
  been lost then (the test for a full queue comes before the call that would find no more data).
\<close>

theorem sig_io_capacity:
  assumes "recvfrom_ok os"
  shows "wp (sig_io os) (\<lambda>r t. case r of Ret _ \<Rightarrow> nqueue t < QSIZE | Exit m \<Rightarrow> m = 1 | Abort \<Rightarrow> False) s \<and>
   (nqueue s = QSIZE - 1 \<and> 0 \<le> rv (os (calls s) (C_recvfrom (sockfd s) MAXDG 0)) \<longrightarrow>
      (\<exists>t. sig_io os s = Some (Exit 1, t)))"
proof
  show "wp (sig_io os) (\<lambda>r t. case r of Ret _ \<Rightarrow> nqueue t < QSIZE | Exit m \<Rightarrow> m = 1 | Abort \<Rightarrow> False) s"
    by (rule wp_mono[OF sig_io_wp[OF assms]]) (auto split: outcome.splits)
  show "nqueue s = QSIZE - 1 \<and> 0 \<le> rv (os (calls s) (C_recvfrom (sockfd s) MAXDG 0)) \<longrightarrow>
      (\<exists>t. sig_io os s = Some (Exit 1, t))"
  proof
    assume a: "nqueue s = QSIZE - 1 \<and> 0 \<le> rv (os (calls s) (C_recvfrom (sockfd s) MAXDG 0))"
    then have "sig_io_loop os 0 s = sig_io_loop os (0 + 1) (recv_round os s)"
      by (intro sig_io_loop_round) (auto simp: QSIZE_def)
    moreover have "QSIZE \<le> nqueue (recv_round os s)" using a by (simp add: recv_round_def Let_def)
    ultimately show "\<exists>t. sig_io os s = Some (Exit 1, t)" by (auto simp: sig_io_def sig_io_loop_full)
  qed
qed

theorem sig_io_capacity_witness:
  "\<exists>t. sig_io one_datagram (idle_echo\<lparr>nqueue := 7, iput := 7\<rparr>) = Some (Exit 1, t)"
  using sig_io_capacity[OF one_datagram_ok, of "idle_echo\<lparr>nqueue := 7, iput := 7\<rparr>"]
  by (simp add: idle_echo_def QSIZE_def one_datagram_def received_dgs_def)

end
