(* ===== verification/Pool.thy ===== *)
theory Pool
  imports Sigio
begin

text \<open>
  The prethreaded server with one accepting thread, server/serv08.c and server/pthread08.c. The main
  thread hands connections to the worker threads through the array \<open>clifd\<close>, used as a ring between the
  indices \<open>iget\<close> and \<open>iput\<close>, under the mutex \<open>clifd_mutex\<close> and with the condition variable \<open>clifd_cond\<close>. The
  threads are a step relation: one step is one statement of one thread, in any interleaving. A program
  counter says which statement comes next; the value of a local \<open>connfd\<close> is part of it. \<open>pthread_cond_wait\<close> is three
  steps (release the mutex and wait, be woken, take the mutex again), a wake-up may be spurious, and
  \<open>pthread_cond_signal\<close> wakes at least one of the threads that wait, when there are any. An \<open>err_quit\<close> or
  \<open>err_sys\<close> of any thread ends the whole process, which is the main thread's \<open>M_quit\<close>. What was accepted, taken and
  closed is recorded beside the state.
\<close>

section \<open>State\<close>

definition MAXNCLI :: nat where "MAXNCLI = 32"

datatype main_pc = M_accept | M_lock int | M_store int | M_test | M_signal | M_unlock | M_quit

datatype worker_pc = W_lock | W_test | W_wait | W_relock | W_take | W_unlock int | W_count int | W_child int | W_close int

datatype holder = Main_thread | Worker nat

record pool =
  clifd :: "int list"
  pool_iget :: nat
  pool_iput :: nat
  clifd_mutex :: "holder option"
  main_at :: main_pc
  worker_at :: "nat \<Rightarrow> worker_pc"
  thread_count :: "nat \<Rightarrow> nat"
  stored :: "int list"
  taken :: "(nat \<times> int) list"
  closed :: "(nat \<times> int) list"

definition pool_next :: "nat \<Rightarrow> nat" where
  "pool_next i = (if i + 1 = MAXNCLI then 0 else i + 1)"

definition pool_put :: "int \<Rightarrow> pool \<Rightarrow> pool" where
  "pool_put connfd s = s\<lparr>clifd := (clifd s)[pool_iput s := connfd], pool_iput := pool_next (pool_iput s)\<rparr>"

definition pool_front :: "pool \<Rightarrow> int" where
  "pool_front s = clifd s ! pool_iget s"

definition pool_pop :: "pool \<Rightarrow> pool" where
  "pool_pop s = s\<lparr>pool_iget := pool_next (pool_iget s)\<rparr>"

definition pool_start :: pool where
  "pool_start = \<lparr>clifd = replicate MAXNCLI 0, pool_iget = 0, pool_iput = 0, clifd_mutex = None, main_at = M_accept,
     worker_at = (\<lambda>_. W_lock), thread_count = (\<lambda>_. 0), stored = [], taken = [], closed = []\<rparr>"

section \<open>Steps\<close>

inductive main_step :: "nat \<Rightarrow> pool \<Rightarrow> pool \<Rightarrow> bool" for nthreads where
  accept: "main_at s = M_accept \<Longrightarrow> main_step nthreads s (s\<lparr>main_at := M_lock connfd\<rparr>)"
| accept_error: "main_at s = M_accept \<Longrightarrow> main_step nthreads s (s\<lparr>main_at := M_quit\<rparr>)"
| lock: "main_at s = M_lock connfd \<Longrightarrow> clifd_mutex s = None \<Longrightarrow>
    main_step nthreads s (s\<lparr>main_at := M_store connfd, clifd_mutex := Some Main_thread\<rparr>)"
| store: "main_at s = M_store connfd \<Longrightarrow>
    main_step nthreads s ((pool_put connfd s)\<lparr>main_at := M_test, stored := stored s @ [connfd]\<rparr>)"
| full: "main_at s = M_test \<Longrightarrow> pool_iput s = pool_iget s \<Longrightarrow> main_step nthreads s (s\<lparr>main_at := M_quit\<rparr>)"
| test: "main_at s = M_test \<Longrightarrow> pool_iput s \<noteq> pool_iget s \<Longrightarrow> main_step nthreads s (s\<lparr>main_at := M_signal\<rparr>)"
| signal: "main_at s = M_signal \<Longrightarrow> W \<subseteq> {i. i < nthreads \<and> worker_at s i = W_wait} \<Longrightarrow>
    (\<exists>i < nthreads. worker_at s i = W_wait) \<longrightarrow> W \<noteq> {} \<Longrightarrow>
    main_step nthreads s (s\<lparr>main_at := M_unlock, worker_at := (\<lambda>i. if i \<in> W then W_relock else worker_at s i)\<rparr>)"
| unlock: "main_at s = M_unlock \<Longrightarrow> main_step nthreads s (s\<lparr>main_at := M_accept, clifd_mutex := None\<rparr>)"

inductive worker_step :: "nat \<Rightarrow> pool \<Rightarrow> pool \<Rightarrow> bool" for i where
  lock: "worker_at s i = W_lock \<Longrightarrow> clifd_mutex s = None \<Longrightarrow>
    worker_step i s (s\<lparr>worker_at := (worker_at s)(i := W_test), clifd_mutex := Some (Worker i)\<rparr>)"
| wait: "worker_at s i = W_test \<Longrightarrow> pool_iget s = pool_iput s \<Longrightarrow>
    worker_step i s (s\<lparr>worker_at := (worker_at s)(i := W_wait), clifd_mutex := None\<rparr>)"
| wake: "worker_at s i = W_wait \<Longrightarrow> worker_step i s (s\<lparr>worker_at := (worker_at s)(i := W_relock)\<rparr>)"
| relock: "worker_at s i = W_relock \<Longrightarrow> clifd_mutex s = None \<Longrightarrow>
    worker_step i s (s\<lparr>worker_at := (worker_at s)(i := W_test), clifd_mutex := Some (Worker i)\<rparr>)"
| some: "worker_at s i = W_test \<Longrightarrow> pool_iget s \<noteq> pool_iput s \<Longrightarrow>
    worker_step i s (s\<lparr>worker_at := (worker_at s)(i := W_take)\<rparr>)"
| take: "worker_at s i = W_take \<Longrightarrow>
    worker_step i s ((pool_pop s)\<lparr>worker_at := (worker_at s)(i := W_unlock (pool_front s)), taken := taken s @ [(i, pool_front s)]\<rparr>)"
| unlock: "worker_at s i = W_unlock connfd \<Longrightarrow>
    worker_step i s (s\<lparr>worker_at := (worker_at s)(i := W_count connfd), clifd_mutex := None\<rparr>)"
| count: "worker_at s i = W_count connfd \<Longrightarrow>
    worker_step i s (s\<lparr>worker_at := (worker_at s)(i := W_child connfd), thread_count := (thread_count s)(i := thread_count s i + 1)\<rparr>)"
| child: "worker_at s i = W_child connfd \<Longrightarrow> worker_step i s (s\<lparr>worker_at := (worker_at s)(i := W_close connfd)\<rparr>)"
| close: "worker_at s i = W_close connfd \<Longrightarrow>
    worker_step i s (s\<lparr>worker_at := (worker_at s)(i := W_lock), closed := closed s @ [(i, connfd)]\<rparr>)"

text \<open>
  The threads run until the process exits; a worker ends it when \<open>web_child\<close> refuses a request or \<open>Close\<close> fails.
\<close>

inductive pool_step :: "nat \<Rightarrow> pool \<Rightarrow> pool \<Rightarrow> bool" for nthreads where
  main: "main_step nthreads s s' \<Longrightarrow> pool_step nthreads s s'"
| worker: "main_at s \<noteq> M_quit \<Longrightarrow> i < nthreads \<Longrightarrow> worker_step i s s' \<Longrightarrow> pool_step nthreads s s'"
| exit: "main_at s \<noteq> M_quit \<Longrightarrow> i < nthreads \<Longrightarrow> worker_at s i = W_child connfd \<or> worker_at s i = W_close connfd \<Longrightarrow>
    pool_step nthreads s (s\<lparr>main_at := M_quit\<rparr>)"

inductive pool_reach :: "nat \<Rightarrow> pool \<Rightarrow> bool" for nthreads where
  start: "pool_reach nthreads pool_start"
| step: "pool_reach nthreads s \<Longrightarrow> pool_step nthreads s s' \<Longrightarrow> pool_reach nthreads s'"

section \<open>The ring between the indices is a queue\<close>

definition ring_size :: "pool \<Rightarrow> nat" where
  "ring_size s = (pool_iput s + MAXNCLI - pool_iget s) mod MAXNCLI"

text \<open>The connections in the \<open>k\<close> slots of the array from \<open>iget\<close> on.\<close>

definition slots :: "pool \<Rightarrow> nat \<Rightarrow> int list" where
  "slots s k = map (\<lambda>j. clifd s ! ((pool_iget s + j) mod MAXNCLI)) [0..<k]"

definition waiting :: "pool \<Rightarrow> int list" where
  "waiting s = slots s (ring_size s)"

definition pool_wf :: "pool \<Rightarrow> bool" where
  "pool_wf s \<longleftrightarrow> length (clifd s) = MAXNCLI \<and> pool_iget s < MAXNCLI \<and> pool_iput s < MAXNCLI"

lemma length_slots [simp]: "length (slots s k) = k"
  by (simp add: slots_def)

lemma length_waiting [simp]: "length (waiting s) = ring_size s"
  by (simp add: waiting_def)

lemma pool_next_mod: "i < MAXNCLI \<Longrightarrow> pool_next i = (i + 1) mod MAXNCLI"
  by (cases "i + 1 = MAXNCLI") (auto simp: pool_next_def)

lemma ring_size_cases:
  assumes "pool_wf s"
  shows "ring_size s = (if pool_iget s \<le> pool_iput s then pool_iput s - pool_iget s else pool_iput s + MAXNCLI - pool_iget s)"
  using assms by (auto simp: ring_size_def pool_wf_def mod_if)

lemma ring_size_empty: "pool_wf s \<Longrightarrow> ring_size s = 0 \<longleftrightarrow> pool_iget s = pool_iput s"
  by (auto simp: ring_size_cases pool_wf_def)

lemma iput_of_size: "pool_wf s \<Longrightarrow> pool_iput s = (pool_iget s + ring_size s) mod MAXNCLI"
  by (auto simp: ring_size_cases pool_wf_def mod_if)

lemma pool_put_size: "pool_wf s \<Longrightarrow> ring_size s < MAXNCLI - 1 \<Longrightarrow> pool_wf (pool_put x s) \<and> ring_size (pool_put x s) = ring_size s + 1"
proof -
  assume wf: "pool_wf s" and n: "ring_size s < MAXNCLI - 1"
  have w: "pool_wf (pool_put x s)" using wf by (auto simp: pool_wf_def pool_put_def pool_next_def)
  then have "ring_size (pool_put x s) = ring_size s + 1"
    using wf n by (auto simp: ring_size_cases pool_wf_def pool_put_def pool_next_def split: if_splits)
  with w show ?thesis by simp
qed

lemma pool_pop_size: "pool_wf s \<Longrightarrow> ring_size s \<noteq> 0 \<Longrightarrow> pool_wf (pool_pop s) \<and> ring_size s = ring_size (pool_pop s) + 1"
proof -
  assume wf: "pool_wf s" and n: "ring_size s \<noteq> 0"
  have w: "pool_wf (pool_pop s)" using wf by (auto simp: pool_wf_def pool_pop_def pool_next_def)
  then have "ring_size s = ring_size (pool_pop s) + 1"
    using wf n by (auto simp: ring_size_cases pool_wf_def pool_pop_def pool_next_def split: if_splits)
  with w show ?thesis by simp
qed

lemma other_slot: "j < n \<Longrightarrow> n < MAXNCLI \<Longrightarrow> (i + j) mod MAXNCLI \<noteq> (i + n) mod MAXNCLI"
proof
  assume j: "j < n" "n < MAXNCLI" and "(i + j) mod MAXNCLI = (i + n) mod MAXNCLI"
  then have "MAXNCLI dvd (i + n) - (i + j)" by (subst mod_eq_dvd_iff_nat[symmetric]) simp_all
  with j show False by (simp add: nat_dvd_not_less)
qed

text \<open>The slot a connection is stored in is not one of those in use, also when it is the last free one.\<close>

lemma put_slots:
  assumes "pool_wf s"
  shows "slots (pool_put x s) (ring_size s + 1) = waiting s @ [x]"
proof -
  have n: "ring_size s < MAXNCLI" using assms by (auto simp: ring_size_cases pool_wf_def)
  have "clifd (pool_put x s) ! ((pool_iget s + j) mod MAXNCLI) = clifd s ! ((pool_iget s + j) mod MAXNCLI)" if "j < ring_size s" for j
    using other_slot[OF that n, of "pool_iget s"] iput_of_size[OF assms] by (simp add: pool_put_def)
  moreover have "clifd (pool_put x s) ! ((pool_iget s + ring_size s) mod MAXNCLI) = x"
    using assms by (simp add: pool_put_def pool_wf_def flip: iput_of_size[OF assms])
  ultimately show ?thesis by (simp add: waiting_def slots_def) (simp add: pool_put_def)
qed

interpretation pq: fifo pool_wf waiting "MAXNCLI - 1" pool_put pool_front pool_pop
proof unfold_locales
  fix s :: pool and x
  assume wf: "pool_wf s"
  show "length (waiting s) \<le> MAXNCLI - 1" using wf by (auto simp: ring_size_cases pool_wf_def)
  show "pool_wf (pool_put x s) \<and> waiting (pool_put x s) = waiting s @ [x]" if "length (waiting s) < MAXNCLI - 1"
  proof -
    have n: "ring_size s < MAXNCLI - 1" using that by simp
    show ?thesis using pool_put_size[OF wf n, of x] put_slots[OF wf, of x] by (simp add: waiting_def)
  qed
  assume "waiting s \<noteq> []"
  then have ne: "ring_size s \<noteq> 0" by (simp add: waiting_def slots_def)
  then obtain k where k: "ring_size s = Suc k" by (cases "ring_size s") auto
  then have u: "[0..<ring_size s] = 0 # map Suc [0..<k]" by (simp only: map_Suc_upt upt_conv_Cons[of 0 "Suc k"] zero_less_Suc)
  have ig: "pool_iget s mod MAXNCLI = pool_iget s" using wf by (simp add: pool_wf_def)
  show "pool_front s = hd (waiting s)" by (simp add: pool_front_def waiting_def slots_def u ig)
  note pp = pool_pop_size[OF wf ne]
  have "pool_iget (pool_pop s) = (pool_iget s + 1) mod MAXNCLI" using wf by (simp add: pool_pop_def pool_next_mod pool_wf_def)
  then have "clifd (pool_pop s) ! ((pool_iget (pool_pop s) + j) mod MAXNCLI) = clifd s ! ((pool_iget s + Suc j) mod MAXNCLI)" for j
    by (simp add: pool_pop_def mod_add_left_eq)
  then have "waiting (pool_pop s) = map (\<lambda>j. clifd s ! ((pool_iget s + Suc j) mod MAXNCLI)) [0..<k]"
    using pp k by (simp add: waiting_def slots_def)
  moreover have "tl (waiting s) = map (\<lambda>j. clifd s ! ((pool_iget s + Suc j) mod MAXNCLI)) [0..<k]"
    unfolding waiting_def slots_def u by (simp add: comp_def)
  ultimately show "pool_wf (pool_pop s) \<and> waiting (pool_pop s) = tl (waiting s)" using pp by simp
qed

section \<open>The invariant\<close>

fun main_in :: "main_pc \<Rightarrow> bool" where
  "main_in (M_store c) = True"
| "main_in M_test = True"
| "main_in M_signal = True"
| "main_in M_unlock = True"
| "main_in p = False"

fun worker_in :: "worker_pc \<Rightarrow> bool" where
  "worker_in W_test = True"
| "worker_in W_take = True"
| "worker_in (W_unlock c) = True"
| "worker_in p = False"

text \<open>The connection a worker is serving, and whether it has counted it.\<close>

fun serving :: "worker_pc \<Rightarrow> int list" where
  "serving (W_unlock c) = [c]"
| "serving (W_count c) = [c]"
| "serving (W_child c) = [c]"
| "serving (W_close c) = [c]"
| "serving p = []"

fun uncounted :: "worker_pc \<Rightarrow> nat" where
  "uncounted (W_unlock c) = 1"
| "uncounted (W_count c) = 1"
| "uncounted p = 0"

definition overrun :: "pool \<Rightarrow> bool" where
  "overrun s \<longleftrightarrow> main_at s = M_test \<and> pool_iput s = pool_iget s"

definition of_worker :: "nat \<Rightarrow> (nat \<times> int) list \<Rightarrow> int list" where
  "of_worker i xs = map snd (filter (\<lambda>p. fst p = i) xs)"

lemma of_worker_append [simp]: "of_worker i (xs @ ys) = of_worker i xs @ of_worker i ys"
  "of_worker i [(j, c)] = (if i = j then [c] else [])" "of_worker i [] = []"
  by (auto simp: of_worker_def)

definition mutex_inv :: "pool \<Rightarrow> bool" where
  "mutex_inv s \<longleftrightarrow> (main_in (main_at s) \<longleftrightarrow> clifd_mutex s = Some Main_thread) \<and>
     (\<forall>i. worker_in (worker_at s i) \<longleftrightarrow> clifd_mutex s = Some (Worker i))"

definition queue_inv :: "pool \<Rightarrow> bool" where
  "queue_inv s \<longleftrightarrow> pool_wf s \<and> (\<forall>i. worker_at s i = W_take \<longrightarrow> waiting s \<noteq> []) \<and>
     stored s = map snd (taken s) @ (if overrun s then slots s MAXNCLI else waiting s)"

definition worker_inv :: "pool \<Rightarrow> bool" where
  "worker_inv s \<longleftrightarrow> (\<forall>i. of_worker i (taken s) = of_worker i (closed s) @ serving (worker_at s i) \<and>
     length (of_worker i (closed s)) + length (serving (worker_at s i)) = thread_count s i + uncounted (worker_at s i))"

definition wakeup_inv :: "nat \<Rightarrow> pool \<Rightarrow> bool" where
  "wakeup_inv n s \<longleftrightarrow> (\<forall>i < n. worker_at s i = W_wait) \<longrightarrow> 0 < n \<longrightarrow> waiting s = [] \<or> main_at s = M_test \<or> main_at s = M_signal"

definition pool_inv :: "nat \<Rightarrow> pool \<Rightarrow> bool" where
  "pool_inv n s \<longleftrightarrow> main_at s \<noteq> M_quit \<longrightarrow> mutex_inv s \<and> queue_inv s \<and> worker_inv s \<and> wakeup_inv n s"

text \<open>Fields the ring does not depend on.\<close>

lemma slots_frame [simp]:
  "slots (s\<lparr>main_at := p\<rparr>) = slots s" "slots (s\<lparr>clifd_mutex := m\<rparr>) = slots s" "slots (s\<lparr>worker_at := w\<rparr>) = slots s"
  "slots (s\<lparr>thread_count := c\<rparr>) = slots s" "slots (s\<lparr>stored := a\<rparr>) = slots s" "slots (s\<lparr>taken := b\<rparr>) = slots s" "slots (s\<lparr>closed := b\<rparr>) = slots s"
  by (simp_all add: slots_def fun_eq_iff)

lemma ring_frame [simp]:
  "waiting (s\<lparr>main_at := p\<rparr>) = waiting s" "waiting (s\<lparr>clifd_mutex := m\<rparr>) = waiting s" "waiting (s\<lparr>worker_at := w\<rparr>) = waiting s"
  "waiting (s\<lparr>thread_count := c\<rparr>) = waiting s" "waiting (s\<lparr>stored := a\<rparr>) = waiting s" "waiting (s\<lparr>taken := b\<rparr>) = waiting s" "waiting (s\<lparr>closed := b\<rparr>) = waiting s"
  by (simp_all add: waiting_def slots_def ring_size_def)

lemma wf_frame [simp]:
  "pool_wf (s\<lparr>main_at := p\<rparr>) = pool_wf s" "pool_wf (s\<lparr>clifd_mutex := m\<rparr>) = pool_wf s" "pool_wf (s\<lparr>worker_at := w\<rparr>) = pool_wf s"
  "pool_wf (s\<lparr>thread_count := c\<rparr>) = pool_wf s" "pool_wf (s\<lparr>stored := a\<rparr>) = pool_wf s" "pool_wf (s\<lparr>taken := b\<rparr>) = pool_wf s" "pool_wf (s\<lparr>closed := b\<rparr>) = pool_wf s"
  by (simp_all add: pool_wf_def)

lemma put_frame [simp]:
  "main_at (pool_put c s) = main_at s" "clifd_mutex (pool_put c s) = clifd_mutex s" "worker_at (pool_put c s) = worker_at s"
  "thread_count (pool_put c s) = thread_count s" "stored (pool_put c s) = stored s" "taken (pool_put c s) = taken s" "closed (pool_put c s) = closed s"
  by (simp_all add: pool_put_def)

lemma pop_frame [simp]:
  "main_at (pool_pop s) = main_at s" "clifd_mutex (pool_pop s) = clifd_mutex s" "worker_at (pool_pop s) = worker_at s"
  "thread_count (pool_pop s) = thread_count s" "stored (pool_pop s) = stored s" "taken (pool_pop s) = taken s" "closed (pool_pop s) = closed s"
  by (simp_all add: pool_pop_def)

lemma waiting_empty: "pool_wf s \<Longrightarrow> waiting s = [] \<longleftrightarrow> pool_iget s = pool_iput s"
  using ring_size_empty[of s] length_waiting[of s] by (metis length_0_conv)

text \<open>A connection stored in the last free slot makes the indices meet.\<close>

lemma put_full:
  assumes "pool_wf s" and "ring_size s = MAXNCLI - 1"
  shows "pool_wf (pool_put c s)" and "pool_iput (pool_put c s) = pool_iget (pool_put c s)" and "slots (pool_put c s) MAXNCLI = waiting s @ [c]"
proof -
  show "pool_wf (pool_put c s)" "pool_iput (pool_put c s) = pool_iget (pool_put c s)"
    using assms by (auto simp: pool_wf_def ring_size_cases pool_put_def pool_next_def split: if_splits)
  show "slots (pool_put c s) MAXNCLI = waiting s @ [c]" using put_slots[OF assms(1), of c] assms(2) by (simp add: MAXNCLI_def)
qed

lemma put_not_full:
  assumes "pool_wf s" and "ring_size s \<noteq> MAXNCLI - 1"
  shows "pool_wf (pool_put c s)" and "waiting (pool_put c s) = waiting s @ [c]" and "pool_iput (pool_put c s) \<noteq> pool_iget (pool_put c s)"
proof -
  have "length (waiting s) < MAXNCLI - 1" using pq.bounded[OF assms(1)] assms(2) by simp
  from pq.put[OF assms(1) this, of c] show "pool_wf (pool_put c s)" "waiting (pool_put c s) = waiting s @ [c]" by auto
  then show "pool_iput (pool_put c s) \<noteq> pool_iget (pool_put c s)" using waiting_empty[of "pool_put c s"] by auto
qed

lemma mutex_inv_main: "main_step n s s' \<Longrightarrow> main_at s' \<noteq> M_quit \<Longrightarrow> mutex_inv s \<Longrightarrow> mutex_inv s'"
  by (induction rule: main_step.induct) (auto simp: mutex_inv_def split: if_splits)

lemma mutex_after:
  assumes "mutex_inv s" and "worker_at s' = (worker_at s)(i := p)" and "main_at s' = main_at s"
    and "clifd_mutex s' = clifd_mutex s \<and> worker_in p = worker_in (worker_at s i) \<or> clifd_mutex s = None \<and> clifd_mutex s' = Some (Worker i) \<and> worker_in p \<or>
      clifd_mutex s = Some (Worker i) \<and> clifd_mutex s' = None \<and> \<not> worker_in p"
  shows "mutex_inv s'"
proof -
  have m: "main_in (main_at s) \<longleftrightarrow> clifd_mutex s = Some Main_thread" and w: "worker_in (worker_at s j) \<longleftrightarrow> clifd_mutex s = Some (Worker j)" for j
    using assms(1) by (auto simp: mutex_inv_def)
  have "worker_in (worker_at s' j) \<longleftrightarrow> clifd_mutex s' = Some (Worker j)" for j
    using assms(2,4) w[of j] w[of i] by (cases "j = i") auto
  moreover have "main_in (main_at s') \<longleftrightarrow> clifd_mutex s' = Some Main_thread" using assms(3,4) m by auto
  ultimately show ?thesis by (simp add: mutex_inv_def)
qed

lemma mutex_held: "mutex_inv s \<Longrightarrow> worker_in (worker_at s i) \<Longrightarrow> clifd_mutex s = Some (Worker i)"
  by (simp add: mutex_inv_def)

lemma mutex_inv_worker: "worker_step i s s' \<Longrightarrow> mutex_inv s \<Longrightarrow> mutex_inv s'"
  by (cases rule: worker_step.cases, assumption; rule mutex_after, assumption) (auto simp: mutex_held)

lemma worker_inv_main: "main_step n s s' \<Longrightarrow> worker_inv s \<Longrightarrow> worker_inv s'"
proof (induction rule: main_step.induct)
  case (signal s W)
  then have "serving (if i \<in> W then W_relock else worker_at s i) = serving (worker_at s i)"
    "uncounted (if i \<in> W then W_relock else worker_at s i) = uncounted (worker_at s i)" for i by auto
  with signal show ?case by (simp add: worker_inv_def)
qed (simp_all add: worker_inv_def)

lemma worker_inv_worker:
  assumes "worker_step i s s'" and inv: "worker_inv s"
  shows "worker_inv s'"
proof -
  have "of_worker i (taken s) = of_worker i (closed s) @ serving (worker_at s i)"
    "length (of_worker i (closed s)) + length (serving (worker_at s i)) = thread_count s i + uncounted (worker_at s i)"
    using inv by (simp_all add: worker_inv_def)
  with assms show ?thesis by (cases rule: worker_step.cases) (auto simp: worker_inv_def)
qed

lemma not_overrun: "mutex_inv s \<Longrightarrow> clifd_mutex s \<noteq> Some Main_thread \<Longrightarrow> \<not> overrun s"
  by (auto simp: mutex_inv_def overrun_def)

lemma queue_inv_main:
  assumes "main_step n s s'" and "mutex_inv s" and inv: "queue_inv s" and "main_at s' \<noteq> M_quit"
  shows "queue_inv s'"
  using assms(1)
proof cases
  case (store connfd)
  have "clifd_mutex s = Some Main_thread" using assms(2) store by (simp add: mutex_inv_def)
  then have idle: "worker_at s i \<noteq> W_take" for i using mutex_held[OF assms(2), of i] by auto
  have wf: "pool_wf s" and books: "stored s = map snd (taken s) @ waiting s" using inv store by (auto simp: queue_inv_def overrun_def)
  show ?thesis
  proof (cases "ring_size s = MAXNCLI - 1")
    case True
    show ?thesis using put_full[OF wf True, of connfd] store idle books by (simp add: queue_inv_def overrun_def)
  next
    case False
    show ?thesis using put_not_full[OF wf False, of connfd] store idle books by (simp add: queue_inv_def overrun_def)
  qed
qed (use assms in \<open>auto simp: queue_inv_def overrun_def split: if_splits\<close>)

lemma queue_inv_worker:
  assumes "worker_step i s s'" and mx: "mutex_inv s" and inv: "queue_inv s"
  shows "queue_inv s'"
  using assms(1)
proof cases
  case some
  then have held: "clifd_mutex s = Some (Worker i)" using mutex_held[OF mx, of i] by simp
  then show ?thesis using some inv not_overrun[OF mx] waiting_empty[of s] by (auto simp: queue_inv_def overrun_def)
next
  case take
  then have held: "clifd_mutex s = Some (Worker i)" using mutex_held[OF mx, of i] by simp
  have free: "\<not> overrun s" "main_at s \<noteq> M_test" using held not_overrun[OF mx] mx by (auto simp: mutex_inv_def)
  have wf: "pool_wf s" and ne: "waiting s \<noteq> []" and books: "stored s = map snd (taken s) @ waiting s" using inv take free by (auto simp: queue_inv_def)
  have "worker_at s j \<noteq> W_take" if "j \<noteq> i" for j using mutex_held[OF mx, of j] held that by auto
  then show ?thesis using take free pq.pop[OF wf ne] pq.front_pop[OF wf ne] books by (auto simp: queue_inv_def overrun_def)
qed (use inv in \<open>auto simp: queue_inv_def overrun_def\<close>)

lemma wakeup_inv_main:
  assumes "main_step n s s'" and "wakeup_inv n s" and "main_at s' \<noteq> M_quit"
  shows "wakeup_inv n s'"
  using assms(1)
proof cases
  case (signal W)
  then show ?thesis unfolding wakeup_inv_def by (auto split: if_splits)
qed (use assms in \<open>auto simp: wakeup_inv_def\<close>)

lemma wakeup_inv_worker:
  assumes "worker_step i s s'" and "i < n" and "pool_wf s" and "wakeup_inv n s"
  shows "wakeup_inv n s'"
  using assms(1)
proof cases
  case wait
  then show ?thesis using waiting_empty[OF assms(3)] by (simp add: wakeup_inv_def)
qed (use assms(2) in \<open>auto simp: wakeup_inv_def intro!: exI[of _ i]\<close>)

lemma pool_inv_start: "pool_inv n pool_start"
  by (simp add: pool_inv_def pool_start_def mutex_inv_def queue_inv_def worker_inv_def wakeup_inv_def overrun_def pool_wf_def waiting_def slots_def ring_size_def MAXNCLI_def)

lemma quit_stays: "main_step n s s' \<Longrightarrow> main_at s \<noteq> M_quit"
  by (auto elim: main_step.cases)

lemma pool_inv_step: "pool_step n s s' \<Longrightarrow> pool_inv n s \<Longrightarrow> pool_inv n s'"
proof (induction rule: pool_step.induct)
  case (main s s')
  then show ?case
    using quit_stays[OF main(1)] mutex_inv_main queue_inv_main worker_inv_main wakeup_inv_main unfolding pool_inv_def by blast
next
  case (worker s i s')
  then have "main_at s' = main_at s" by (auto elim: worker_step.cases)
  then show ?case
    using worker mutex_inv_worker queue_inv_worker worker_inv_worker wakeup_inv_worker unfolding pool_inv_def by (metis queue_inv_def)
next
  case (exit s i connfd)
  then show ?case by (simp add: pool_inv_def)
qed

lemma pool_reach_inv: "pool_reach n s \<Longrightarrow> pool_inv n s"
  by (induction rule: pool_reach.induct) (auto intro: pool_inv_start pool_inv_step)

section \<open>What the pool guarantees\<close>

text \<open>
  C13. Every connection is served exactly once, in any interleaving of the main thread and the workers: as long
  as the array has not been filled, the connections stored are those the workers took, in the order they were
  stored, followed by those waiting in the ring; each worker closed the connections it took, in order, except
  the one it is serving, and its counter is their number (but for one it has not counted yet).
\<close>

theorem pool_exactly_once:
  assumes "pool_reach n s" and "main_at s \<noteq> M_quit" and "\<not> overrun s"
  shows "stored s = map snd (taken s) @ waiting s \<and>
    (\<forall>i. of_worker i (taken s) = of_worker i (closed s) @ serving (worker_at s i) \<and>
       length (of_worker i (taken s)) = thread_count s i + uncounted (worker_at s i))"
  using pool_reach_inv[OF assms(1)] assms(2,3) unfolding pool_inv_def queue_inv_def worker_inv_def by auto

text \<open>
  C14. No wake-up is lost: when a connection waits and the mutex is free, some worker is not waiting for
  the condition variable and can take its next step.
\<close>

theorem pool_no_lost_wakeup:
  assumes "pool_reach n s" and "main_at s \<noteq> M_quit" and "0 < n" and "clifd_mutex s = None" and "waiting s \<noteq> []"
  shows "\<exists>i < n. worker_at s i \<noteq> W_wait \<and> (\<exists>s'. pool_step n s s' \<and> worker_step i s s')"
proof -
  have inv: "mutex_inv s" "wakeup_inv n s" using pool_reach_inv[OF assms(1)] assms(2) by (auto simp: pool_inv_def)
  have "main_at s \<noteq> M_test" "main_at s \<noteq> M_signal" using inv(1) assms(4) by (auto simp: mutex_inv_def)
  then obtain i where i: "i < n" "worker_at s i \<noteq> W_wait" using inv(2) assms(3,5) by (auto simp: wakeup_inv_def)
  have "\<not> worker_in (worker_at s i)" using inv(1) assms(4) by (simp add: mutex_inv_def)
  then have "\<exists>s'. worker_step i s s'" using i(2) assms(4) by (cases "worker_at s i") (auto intro: worker_step.intros)
  then show ?thesis using i assms(2) pool_step.worker by blast
qed

text \<open>
  C22. No waiting connection is overwritten, and the process gives up at the right moment. When the main thread is at
  the test after storing a connection, the connections stored and not taken are between 1 and \<open>MAXNCLI\<close> and are all
  in the array, in order, in the slots from \<open>iget\<close> on: also when the store has filled the last slot. The test ends the
  process if and only if there are \<open>MAXNCLI\<close> of them, that is, every slot is in use.
\<close>

theorem pool_capacity:
  assumes "pool_reach n s" and "main_at s = M_test"
  shows "(\<exists>k. 0 < k \<and> k \<le> MAXNCLI \<and>
      stored s = map snd (taken s) @ map (\<lambda>j. clifd s ! ((pool_iget s + j) mod MAXNCLI)) [0..<k] \<and>
      ((\<exists>s'. main_step n s s' \<and> main_at s' = M_quit) \<longleftrightarrow> k = MAXNCLI))"
proof -
  have inv: "queue_inv s" using pool_reach_inv[OF assms(1)] assms(2) by (simp add: pool_inv_def)
  have quit: "(\<exists>s'. main_step n s s' \<and> main_at s' = M_quit) \<longleftrightarrow> pool_iput s = pool_iget s"
    using assms(2) main_step.full[of s n] by (auto elim!: main_step.cases)
  show ?thesis
  proof (cases "pool_iput s = pool_iget s")
    case True
    then have "stored s = map snd (taken s) @ slots s MAXNCLI" using inv assms(2) by (simp add: queue_inv_def overrun_def)
    then show ?thesis using True quit by (intro exI[of _ MAXNCLI]) (simp add: slots_def MAXNCLI_def)
  next
    case False
    then have "stored s = map snd (taken s) @ slots s (ring_size s)" and wf: "pool_wf s"
      using inv by (auto simp: queue_inv_def overrun_def waiting_def)
    moreover have "0 < ring_size s" using ring_size_empty[OF wf] False by auto
    moreover have "ring_size s < MAXNCLI" using pq.bounded[OF wf] by (simp add: MAXNCLI_def)
    ultimately show ?thesis using False quit by (intro exI[of _ "ring_size s"]) (simp add: slots_def)
  qed
qed

text \<open>
  The pool as its clients see it: a queue of connections, the connections that have arrived, and who was given which.
\<close>

inductive queue_step :: "nat \<Rightarrow> int list \<times> int list \<times> (nat \<times> int) list \<Rightarrow> int list \<times> int list \<times> (nat \<times> int) list \<Rightarrow> bool" for n where
  arrive: "queue_step n (arrived, queue, given) (arrived @ [c], queue @ [c], given)"
| give: "i < n \<Longrightarrow> queue_step n (arrived, c # queue, given) (arrived, queue, given @ [(i, c)])"
| stutter: "queue_step n x x"

definition abs_pool :: "pool \<Rightarrow> int list \<times> int list \<times> (nat \<times> int) list" where
  "abs_pool s = (stored s, waiting s, taken s)"

lemma main_step_abs:
  assumes "main_step n s s'" and "queue_inv s" and "\<not> overrun s'"
  shows "queue_step n (abs_pool s) (abs_pool s')"
  using assms(1)
proof cases
  case (store connfd)
  have wf: "pool_wf s" using assms(2) by (simp add: queue_inv_def)
  have "ring_size s \<noteq> MAXNCLI - 1" using put_full(2)[OF wf, of connfd] assms(3) store by (auto simp: overrun_def)
  from put_not_full(2)[OF wf this, of connfd] show ?thesis using store queue_step.arrive by (simp add: abs_pool_def)
qed (use queue_step.stutter in \<open>simp_all add: abs_pool_def\<close>)

lemma worker_step_abs:
  assumes "worker_step i s s'" and "i < n" and "queue_inv s"
  shows "queue_step n (abs_pool s) (abs_pool s')"
  using assms(1)
proof cases
  case take
  have wf: "pool_wf s" and ne: "waiting s \<noteq> []" using assms(3) take by (auto simp: queue_inv_def)
  have "waiting s = pool_front s # waiting (pool_pop s)" using pq.pop[OF wf ne] pq.front_pop[OF wf ne] ne by (metis list.collapse)
  then show ?thesis using take queue_step.give[OF assms(2)] by (simp add: abs_pool_def)
qed (use queue_step.stutter in \<open>simp_all add: abs_pool_def\<close>)

text \<open>
  C37. The pool implements a queue: the array, its two indices, the mutex and the condition variable are invisible from
  outside. It starts empty, and every step of any thread, as long as the process runs and the array has not been
  filled, is one step of the queue (a connection arrives at its end, or the first one is given to one of the
  threads) or changes nothing of it.
\<close>

theorem pool_refines_queue:
  assumes "pool_reach n s" and "pool_step n s s'" and "main_at s' \<noteq> M_quit" and "\<not> overrun s'"
  shows "abs_pool pool_start = ([], [], []) \<and> queue_step n (abs_pool s) (abs_pool s')"
proof
  show "abs_pool pool_start = ([], [], [])" by (simp add: abs_pool_def pool_start_def waiting_def slots_def ring_size_def MAXNCLI_def)
  show "queue_step n (abs_pool s) (abs_pool s')"
    using assms(2)
  proof cases
    case main
    have "queue_inv s" using pool_reach_inv[OF assms(1)] quit_stays[OF main] by (simp add: pool_inv_def)
    with main assms(4) show ?thesis by (intro main_step_abs)
  next
    case (worker i)
    have "queue_inv s" using pool_reach_inv[OF assms(1)] worker by (simp add: pool_inv_def)
    with worker show ?thesis by (intro worker_step_abs)
  qed (use assms(3) in simp)
qed

text \<open>A run: the main thread accepts descriptor 5 and stores it.\<close>

definition one_stored :: pool where
  "one_stored = (pool_put 5 pool_start)\<lparr>main_at := M_test, clifd_mutex := Some Main_thread, stored := [5]\<rparr>"

lemma before_store_reach: "pool_reach 2 (pool_start\<lparr>main_at := M_store 5, clifd_mutex := Some Main_thread\<rparr>)"
proof -
  have 1: "pool_reach 2 (pool_start\<lparr>main_at := M_lock 5\<rparr>)"
    by (rule pool_reach.step[OF pool_reach.start pool_step.main[OF main_step.accept]]) (simp add: pool_start_def)
  show ?thesis using pool_reach.step[OF 1 pool_step.main[OF main_step.lock[of _ 5]]] by (simp add: pool_start_def)
qed

lemma one_stored_reach: "pool_reach 2 one_stored"
proof -
  have "main_step 2 (pool_start\<lparr>main_at := M_store 5, clifd_mutex := Some Main_thread\<rparr>) one_stored"
    using main_step.store[of "pool_start\<lparr>main_at := M_store 5, clifd_mutex := Some Main_thread\<rparr>" 5 2]
    by (simp add: one_stored_def pool_put_def pool_start_def)
  then show ?thesis by (rule pool_reach.step[OF before_store_reach pool_step.main])
qed

lemma one_stored_idle: "pool_reach 2 (one_stored\<lparr>main_at := M_accept, clifd_mutex := None\<rparr>)"
proof -
  have ne: "pool_iput one_stored \<noteq> pool_iget one_stored" by (simp add: one_stored_def pool_put_def pool_next_def pool_start_def MAXNCLI_def)
  have 1: "pool_reach 2 (one_stored\<lparr>main_at := M_signal\<rparr>)"
    by (rule pool_reach.step[OF one_stored_reach pool_step.main[OF main_step.test]]) (use ne in \<open>simp_all add: one_stored_def\<close>)
  have "main_step 2 (one_stored\<lparr>main_at := M_signal\<rparr>) (one_stored\<lparr>main_at := M_unlock\<rparr>)"
    using main_step.signal[of "one_stored\<lparr>main_at := M_signal\<rparr>" "{}" 2] by (simp add: one_stored_def pool_put_def pool_start_def)
  from pool_reach.step[OF 1 pool_step.main[OF this]] have 2: "pool_reach 2 (one_stored\<lparr>main_at := M_unlock\<rparr>)" .
  show ?thesis using pool_reach.step[OF 2 pool_step.main[OF main_step.unlock]] by simp
qed

theorem pool_exactly_once_witness: "stored one_stored = map snd (taken one_stored) @ waiting one_stored"
  using pool_exactly_once[OF one_stored_reach]
  by (simp add: one_stored_def overrun_def pool_put_def pool_next_def pool_start_def MAXNCLI_def)

theorem pool_no_lost_wakeup_witness:
  "\<exists>i < 2. worker_at (one_stored\<lparr>main_at := M_accept, clifd_mutex := None\<rparr>) i \<noteq> W_wait \<and>
     (\<exists>s'. pool_step 2 (one_stored\<lparr>main_at := M_accept, clifd_mutex := None\<rparr>) s' \<and> worker_step i (one_stored\<lparr>main_at := M_accept, clifd_mutex := None\<rparr>) s')"
  by (rule pool_no_lost_wakeup[OF one_stored_idle])
    (simp_all add: one_stored_def pool_put_def pool_next_def pool_start_def waiting_def slots_def ring_size_def MAXNCLI_def)

theorem pool_capacity_witness:
  "main_at one_stored = M_test \<and> (\<exists>k. 0 < k \<and> k \<le> MAXNCLI \<and>
     [5] = map (\<lambda>j. clifd one_stored ! ((pool_iget one_stored + j) mod MAXNCLI)) [0..<k])"
proof -
  have at: "main_at one_stored = M_test" "stored one_stored = [5]" "taken one_stored = []" by (simp_all add: one_stored_def pool_put_def pool_start_def)
  show ?thesis using pool_capacity[OF one_stored_reach at(1)] unfolding at by (auto simp: at)
qed

theorem pool_refines_queue_witness:
  "queue_step 2 (abs_pool (pool_start\<lparr>main_at := M_store 5, clifd_mutex := Some Main_thread\<rparr>)) (abs_pool one_stored)"
proof -
  let ?s = "pool_start\<lparr>main_at := M_store 5, clifd_mutex := Some Main_thread\<rparr>"
  have "main_step 2 ?s one_stored" using main_step.store[of ?s 5 2] by (simp add: one_stored_def pool_put_def pool_start_def)
  then have "pool_step 2 ?s one_stored" by (rule pool_step.main)
  with pool_refines_queue[OF before_store_reach this] show ?thesis
    by (simp add: one_stored_def overrun_def pool_put_def pool_next_def pool_start_def MAXNCLI_def)
qed

end
