(* ===== verification/Prefork.thy ===== *)
theory Prefork
  imports Prelude "HOL-Library.Multiset"
begin

text \<open>
  The preforked server with descriptor passing, server/serv05.c and server/child05.c. The parent accepts
  connections and passes each to a child that is available, over a stream pipe; a child that has served its
  connection sends a byte back. Parent and children are processes, so the program is a step relation: one step is
  one statement (or a group of statements that touches only the parent's own variables) of one process. The stream
  pipe to a child is the list of the descriptors on their way, the one back is the number of bytes on their way. The
  pipe is the child's standard error (\<open>Dup2\<close> in \<open>child_make\<close>), so a child that fails in \<open>err_quit\<close> or \<open>err_sys\<close>
  (in \<open>web_child\<close>, \<open>Close\<close>, \<open>Read_fd\<close> or \<open>Write\<close>) writes its message, any number of bytes, to the parent before it
  exits; a child may also be killed at any time. What was accepted and who handled it is recorded beside the state.
\<close>

section \<open>State\<close>

record child =
  child_status :: int
  child_count :: nat

datatype quit_reason = Q_error | Q_none_available | Q_child nat

text \<open>The set is what \<open>select\<close> left of the children's pipes, the number is \<open>nsel\<close>.\<close>

datatype parent_pc =
    P_select
  | P_accept "nat set" nat
  | P_find int "nat set" nat
  | P_send nat int "nat set" nat
  | P_close "nat set" nat
  | P_scan nat "nat set" nat
  | P_quit quit_reason "int list"

datatype child_pc = C_read | C_work int | C_close int | C_ready | C_failing | C_dead

record prefork =
  cptr :: "child list"
  navail :: int
  parent_at :: parent_pc
  to_child :: "nat \<Rightarrow> int list"
  from_child :: "nat \<Rightarrow> nat"
  child_at :: "nat \<Rightarrow> child_pc"
  accepted :: "int list"
  handled :: "(nat \<times> int) list"

definition prefork_start :: "nat \<Rightarrow> prefork" where
  "prefork_start nchildren = \<lparr>cptr = replicate nchildren \<lparr>child_status = 0, child_count = 0\<rparr>, navail = int nchildren, parent_at = P_select,
     to_child = (\<lambda>_. []), from_child = (\<lambda>_. 0), child_at = (\<lambda>_. C_read), accepted = [], handled = []\<rparr>"

fun free_child :: "child list \<Rightarrow> nat" where
  "free_child [] = 0"
| "free_child (c # cs) = (if child_status c = 0 then 0 else Suc (free_child cs))"

definition mark_busy :: "nat \<Rightarrow> prefork \<Rightarrow> prefork" where
  "mark_busy i s = (let c = cptr s ! i in
     s\<lparr>cptr := (cptr s)[i := c\<lparr>child_status := 1, child_count := child_count c + 1\<rparr>], navail := navail s - 1\<rparr>)"

definition mark_free :: "nat \<Rightarrow> prefork \<Rightarrow> prefork" where
  "mark_free i s = s\<lparr>cptr := (cptr s)[i := (cptr s ! i)\<lparr>child_status := 0\<rparr>], navail := navail s + 1\<rparr>"

text \<open>A pipe is readable when a byte waits in it or its other end was closed.\<close>

definition readable :: "prefork \<Rightarrow> nat \<Rightarrow> bool" where
  "readable s i \<longleftrightarrow> 0 < from_child s i \<or> child_at s i = C_dead"

section \<open>Steps\<close>

inductive parent_step :: "prefork \<Rightarrow> prefork \<Rightarrow> bool" where
  select_listen: "parent_at s = P_select \<Longrightarrow> 0 < navail s \<Longrightarrow> R \<subseteq> {i. i < length (cptr s) \<and> readable s i} \<Longrightarrow>
    parent_step s (s\<lparr>parent_at := P_accept R (card R + 1)\<rparr>)"
| select_pipes: "parent_at s = P_select \<Longrightarrow> R \<subseteq> {i. i < length (cptr s) \<and> readable s i} \<Longrightarrow> R \<noteq> {} \<Longrightarrow>
    parent_step s (s\<lparr>parent_at := P_scan 0 R (card R)\<rparr>)"
| select_error: "parent_at s = P_select \<Longrightarrow> parent_step s (s\<lparr>parent_at := P_quit Q_error []\<rparr>)"
| accept: "parent_at s = P_accept R n \<Longrightarrow> parent_step s (s\<lparr>parent_at := P_find connfd R n, accepted := accepted s @ [connfd]\<rparr>)"
| accept_error: "parent_at s = P_accept R n \<Longrightarrow> parent_step s (s\<lparr>parent_at := P_quit Q_error []\<rparr>)"
| find: "parent_at s = P_find connfd R n \<Longrightarrow> free_child (cptr s) = i \<Longrightarrow> i \<noteq> length (cptr s) \<Longrightarrow>
    parent_step s ((mark_busy i s)\<lparr>parent_at := P_send i connfd R n\<rparr>)"
| find_none: "parent_at s = P_find connfd R n \<Longrightarrow> free_child (cptr s) = length (cptr s) \<Longrightarrow>
    parent_step s (s\<lparr>parent_at := P_quit Q_none_available [connfd]\<rparr>)"
| send: "parent_at s = P_send i connfd R n \<Longrightarrow>
    parent_step s (s\<lparr>parent_at := P_close R n, to_child := (to_child s)(i := to_child s i @ [connfd])\<rparr>)"
| send_error: "parent_at s = P_send i connfd R n \<Longrightarrow> parent_step s (s\<lparr>parent_at := P_quit Q_error [connfd]\<rparr>)"
| close: "parent_at s = P_close R n \<Longrightarrow> parent_step s (s\<lparr>parent_at := (if n - 1 = 0 then P_select else P_scan 0 R (n - 1))\<rparr>)"
| close_error: "parent_at s = P_close R n \<Longrightarrow> parent_step s (s\<lparr>parent_at := P_quit Q_error []\<rparr>)"
| scan_end: "parent_at s = P_scan i R n \<Longrightarrow> i = length (cptr s) \<Longrightarrow> parent_step s (s\<lparr>parent_at := P_select\<rparr>)"
| scan_skip: "parent_at s = P_scan i R n \<Longrightarrow> i < length (cptr s) \<Longrightarrow> i \<notin> R \<Longrightarrow> parent_step s (s\<lparr>parent_at := P_scan (i + 1) R n\<rparr>)"
| scan_read: "parent_at s = P_scan i R n \<Longrightarrow> i < length (cptr s) \<Longrightarrow> i \<in> R \<Longrightarrow> 0 < from_child s i \<Longrightarrow>
    parent_step s ((mark_free i s)\<lparr>from_child := (from_child s)(i := from_child s i - 1),
      parent_at := (if n - 1 = 0 then P_select else P_scan (i + 1) R (n - 1))\<rparr>)"
| scan_eof: "parent_at s = P_scan i R n \<Longrightarrow> i < length (cptr s) \<Longrightarrow> i \<in> R \<Longrightarrow> from_child s i = 0 \<Longrightarrow> child_at s i = C_dead \<Longrightarrow>
    parent_step s (s\<lparr>parent_at := P_quit (Q_child i) []\<rparr>)"
| scan_error: "parent_at s = P_scan i R n \<Longrightarrow> parent_step s (s\<lparr>parent_at := P_quit Q_error []\<rparr>)"

inductive child_step :: "nat \<Rightarrow> prefork \<Rightarrow> prefork \<Rightarrow> bool" for i where
  read: "child_at s i = C_read \<Longrightarrow> to_child s i = connfd # rest \<Longrightarrow>
    child_step i s (s\<lparr>child_at := (child_at s)(i := C_work connfd), to_child := (to_child s)(i := rest), handled := handled s @ [(i, connfd)]\<rparr>)"
| work: "child_at s i = C_work connfd \<Longrightarrow> child_step i s (s\<lparr>child_at := (child_at s)(i := C_close connfd)\<rparr>)"
| close: "child_at s i = C_close connfd \<Longrightarrow> child_step i s (s\<lparr>child_at := (child_at s)(i := C_ready)\<rparr>)"
| ready: "child_at s i = C_ready \<Longrightarrow>
    child_step i s (s\<lparr>child_at := (child_at s)(i := C_read), from_child := (from_child s)(i := from_child s i + 1)\<rparr>)"
| fail: "child_at s i \<noteq> C_dead \<Longrightarrow> child_step i s (s\<lparr>child_at := (child_at s)(i := C_failing)\<rparr>)"
| message: "child_at s i = C_failing \<Longrightarrow> child_step i s (s\<lparr>from_child := (from_child s)(i := from_child s i + k)\<rparr>)"
| die: "child_at s i \<noteq> C_dead \<Longrightarrow> child_step i s (s\<lparr>child_at := (child_at s)(i := C_dead)\<rparr>)"

inductive prefork_reach :: "nat \<Rightarrow> prefork \<Rightarrow> bool" for nchildren where
  start: "prefork_reach nchildren (prefork_start nchildren)"
| parent: "prefork_reach nchildren s \<Longrightarrow> parent_step s s' \<Longrightarrow> prefork_reach nchildren s'"
| child: "prefork_reach nchildren s \<Longrightarrow> i < nchildren \<Longrightarrow> child_step i s s' \<Longrightarrow> prefork_reach nchildren s'"

section \<open>Invariants\<close>

fun busy :: "child_pc \<Rightarrow> nat" where
  "busy C_read = 0"
| "busy C_failing = 0"
| "busy C_dead = 0"
| "busy p = 1"

fun live :: "child_pc \<Rightarrow> bool" where
  "live C_failing = False"
| "live C_dead = False"
| "live p = True"

fun running :: "parent_pc \<Rightarrow> bool" where
  "running (P_quit q cs) = False"
| "running p = True"

fun sending :: "parent_pc \<Rightarrow> nat \<Rightarrow> nat" where
  "sending (P_send j c R n) i = (if i = j then 1 else 0)"
| "sending p i = 0"

fun held :: "parent_pc \<Rightarrow> int list" where
  "held (P_find c R n) = [c]"
| "held (P_send i c R n) = [c]"
| "held (P_quit q cs) = cs"
| "held p = []"

text \<open>The connections a child has before it, and the bytes it has sent that were not read yet.\<close>

definition load :: "prefork \<Rightarrow> nat \<Rightarrow> nat" where
  "load s i = length (to_child s i) + busy (child_at s i) + from_child s i"

definition child_ok :: "prefork \<Rightarrow> nat \<Rightarrow> bool" where
  "child_ok s i \<longleftrightarrow> (child_status (cptr s ! i) = 0 \<or> child_status (cptr s ! i) = 1) \<and>
     (live (child_at s i) \<longrightarrow> int (load s i + sending (parent_at s) i) \<le> child_status (cptr s ! i) \<and>
       (running (parent_at s) \<longrightarrow> int (load s i + sending (parent_at s) i) = child_status (cptr s ! i)))"

definition children_inv :: "nat \<Rightarrow> prefork \<Rightarrow> bool" where
  "children_inv n s \<longleftrightarrow> length (cptr s) = n \<and> (\<forall>i < n. child_ok s i)"

definition free_count :: "child list \<Rightarrow> int" where
  "free_count cs = int (length (filter (\<lambda>c. child_status c = 0) cs))"

fun may_accept :: "parent_pc \<Rightarrow> bool" where
  "may_accept (P_accept R n) = True"
| "may_accept (P_find c R n) = True"
| "may_accept p = False"

definition all_live :: "nat \<Rightarrow> prefork \<Rightarrow> bool" where
  "all_live n s \<longleftrightarrow> (\<forall>i < n. live (child_at s i))"

definition avail_inv :: "nat \<Rightarrow> prefork \<Rightarrow> bool" where
  "avail_inv n s \<longleftrightarrow> free_count (cptr s) \<le> navail s \<and> (all_live n s \<longrightarrow> navail s = free_count (cptr s)) \<and>
     (may_accept (parent_at s) \<longrightarrow> 0 < navail s)"

fun quit_ok :: "nat \<Rightarrow> prefork \<Rightarrow> parent_pc \<Rightarrow> bool" where
  "quit_ok n s (P_quit Q_none_available cs) \<longleftrightarrow> \<not> all_live n s"
| "quit_ok n s (P_quit (Q_child i) cs) \<longleftrightarrow> i < n \<and> child_at s i = C_dead"
| "quit_ok n s p \<longleftrightarrow> True"

definition conserve_inv :: "nat \<Rightarrow> prefork \<Rightarrow> bool" where
  "conserve_inv n s \<longleftrightarrow> mset (accepted s) = mset (map snd (handled s)) + (\<Sum>i<n. mset (to_child s i)) + mset (held (parent_at s))"

lemma free_child_le: "free_child cs \<le> length cs"
  by (induction cs) auto

lemma free_child_lt: "free_child cs < length cs \<Longrightarrow> child_status (cs ! free_child cs) = 0"
  by (induction cs) (auto split: if_splits)

lemma free_child_none: "free_child cs = length cs \<Longrightarrow> free_count cs = 0"
  by (induction cs) (auto simp: free_count_def split: if_splits)

lemma free_count_update:
  assumes "i < length cs"
  shows "free_count (cs[i := c]) = free_count cs - (if child_status (cs ! i) = 0 then 1 else 0) + (if child_status c = 0 then 1 else 0)"
  unfolding free_count_def filter_update[OF assms] filter_entry[OF assms, of "\<lambda>c. child_status c = 0"] by simp

lemma pipes_update:
  fixes f :: "nat \<Rightarrow> int list"
  assumes "i < n"
  shows "(\<Sum>j<n. mset ((f(i := xs)) j)) + mset (f i) = (\<Sum>j<n. mset (f j)) + mset xs"
proof -
  have "(\<Sum>j<n. mset (g j)) = mset (g i) + (\<Sum>j \<in> {..<n} - {i}. mset (g j))" for g :: "nat \<Rightarrow> int list"
    using assms by (intro sum.remove) auto
  moreover have "(\<Sum>j \<in> {..<n} - {i}. mset ((f(i := xs)) j)) = (\<Sum>j \<in> {..<n} - {i}. mset (f j))" by (rule sum.cong) auto
  ultimately show ?thesis by simp
qed

text \<open>A step changes one child at most.\<close>

lemma child_ok_frame:
  assumes "child_ok s i" and "cptr s' ! i = cptr s ! i" and "from_child s' i = from_child s i" and "to_child s' i = to_child s i"
    and "child_at s' i = child_at s i" and "sending (parent_at s') i \<le> sending (parent_at s) i"
    and "running (parent_at s') \<Longrightarrow> running (parent_at s) \<and> sending (parent_at s') i = sending (parent_at s) i"
  shows "child_ok s' i"
  using assms by (auto simp: child_ok_def load_def)

lemma child_step_children:
  assumes "child_step j s s'" and "children_inv n s"
  shows "children_inv n s'"
proof -
  have "child_ok s' i" if "i < n" for i
  proof (cases "i = j")
    case True
    have "child_ok s i" using that assms(2) by (simp add: children_inv_def)
    with assms(1) show ?thesis unfolding True by cases (auto simp: child_ok_def load_def)
  next
    case False
    have "child_ok s i" using that assms(2) by (simp add: children_inv_def)
    then show ?thesis by (rule child_ok_frame) (use assms(1) False in \<open>cases, auto\<close>)+
  qed
  moreover have "cptr s' = cptr s" using assms(1) by cases auto
  ultimately show ?thesis using assms(2) by (simp add: children_inv_def)
qed

text \<open>A child that has failed stays so.\<close>

lemma child_step_live:
  assumes "child_step j s s'"
  shows "live (child_at s' i) \<Longrightarrow> live (child_at s i)" and "child_at s i = C_dead \<Longrightarrow> child_at s' i = C_dead"
  using assms by (cases, auto split: if_splits)+

lemma child_step_rest:
  assumes "child_step j s s'" and "j < n"
  shows "avail_inv n s \<Longrightarrow> avail_inv n s'" and "quit_ok n s (parent_at s) \<Longrightarrow> quit_ok n s' (parent_at s')"
    and "conserve_inv n s \<Longrightarrow> conserve_inv n s'"
proof -
  have same: "parent_at s' = parent_at s" "cptr s' = cptr s" "navail s' = navail s" using assms(1) by (cases, auto)+
  have all: "all_live n s' \<Longrightarrow> all_live n s" using child_step_live(1)[OF assms(1)] by (auto simp: all_live_def)
  show "avail_inv n s'" if "avail_inv n s" using that all by (auto simp: avail_inv_def same)
  show "quit_ok n s' (parent_at s')" if "quit_ok n s (parent_at s)"
    unfolding same using that all child_step_live(2)[OF assms(1)] by (cases "(n, s, parent_at s)" rule: quit_ok.cases) auto
  show "conserve_inv n s'" if inv: "conserve_inv n s"
    using assms(1)
  proof cases
    case (read connfd rest)
    then show ?thesis using inv pipes_update[OF assms(2), of "to_child s" rest] by (simp add: conserve_inv_def)
  qed (use inv in \<open>simp_all add: conserve_inv_def\<close>)
qed

text \<open>The parent.\<close>

lemma mark_busy_ok:
  assumes "child_ok s i" and "i < length (cptr s)" and "child_status (cptr s ! i) = 0" and "parent_at s = P_find c R n"
  shows "child_ok ((mark_busy i s)\<lparr>parent_at := P_send i c R n\<rparr>) i"
  using assms by (auto simp: child_ok_def mark_busy_def Let_def load_def)

lemma mark_free_ok:
  assumes "child_ok s i" and "i < length (cptr s)" and "0 < from_child s i" and "sending p i = 0" and "running (parent_at s)"
  shows "child_ok ((mark_free i s)\<lparr>from_child := (from_child s)(i := from_child s i - 1), parent_at := p\<rparr>) i"
  using assms by (auto simp: child_ok_def mark_free_def load_def)

lemma parent_step_children:
  assumes "parent_step s s'" and inv: "children_inv n s"
  shows "children_inv n s'"
proof -
  have ok: "child_ok s i" if "i < n" for i using that inv by (simp add: children_inv_def)
  have len: "length (cptr s) = n" using inv by (simp add: children_inv_def)
  have "child_ok s' i" if i: "i < n" for i
    using assms(1)
  proof cases
    case (find connfd R k j)
    have j: "j < length (cptr s)" "child_status (cptr s ! j) = 0" using find free_child_le[of "cptr s"] free_child_lt[of "cptr s"] by auto
    show ?thesis
    proof (cases "i = j")
      case True
      then show ?thesis using find mark_busy_ok[OF ok[OF i], of connfd R k] j by simp
    next
      case False
      show ?thesis by (rule child_ok_frame[OF ok[OF i]]) (use find False j in \<open>simp_all add: mark_busy_def Let_def\<close>)
    qed
  next
    case (send j connfd R k)
    then show ?thesis using ok[OF i] by (auto simp: child_ok_def load_def)
  next
    case (scan_read j R k)
    show ?thesis
    proof (cases "i = j")
      case True
      then show ?thesis using scan_read mark_free_ok[OF ok[OF i]] by simp
    next
      case False
      show ?thesis by (rule child_ok_frame[OF ok[OF i]]) (use scan_read False in \<open>simp_all add: mark_free_def\<close>)
    qed
  qed (rule child_ok_frame[OF ok[OF i]]; simp)+
  moreover have "length (cptr s') = n" using assms(1) len by cases (simp_all add: mark_busy_def mark_free_def Let_def)
  ultimately show ?thesis by (simp add: children_inv_def)
qed

lemma parent_step_avail:
  assumes "parent_step s s'" and "children_inv n s" and "avail_inv n s"
  shows "avail_inv n s'"
  using assms(1)
proof cases
  case (find connfd R k j)
  then have "j < length (cptr s)" "child_status (cptr s ! j) = 0" using free_child_le[of "cptr s"] free_child_lt[of "cptr s"] by auto
  then show ?thesis using find assms(3) by (auto simp: avail_inv_def mark_busy_def Let_def free_count_update all_live_def)
next
  case (scan_read j R k)
  have "live (child_at s j) \<Longrightarrow> child_status (cptr s ! j) = 1" using scan_read assms(2) by (auto simp: children_inv_def child_ok_def load_def)
  then show ?thesis using scan_read assms(2,3) by (auto simp: avail_inv_def mark_free_def free_count_update all_live_def children_inv_def)
qed (use assms(3) in \<open>simp_all add: avail_inv_def all_live_def\<close>)

lemma parent_step_quit:
  assumes "parent_step s s'" and "children_inv n s" and "avail_inv n s"
  shows "quit_ok n s' (parent_at s')"
  using assms(1)
proof cases
  case (find_none connfd R k)
  then show ?thesis using assms(3) free_child_none[of "cptr s"] by (auto simp: avail_inv_def all_live_def)
next
  case (scan_eof i R k)
  then show ?thesis using assms(2) by (simp add: children_inv_def)
qed simp_all

lemma parent_step_conserve:
  assumes "parent_step s s'" and "conserve_inv n s" and "\<And>i c R k. parent_at s = P_send i c R k \<Longrightarrow> i < n"
  shows "conserve_inv n s'"
  using assms(1)
proof cases
  case (send i connfd R k)
  then show ?thesis using assms(2) pipes_update[OF assms(3), of i connfd R k "to_child s" "to_child s i @ [connfd]"]
    by (simp add: conserve_inv_def)
qed (use assms(2) in \<open>simp_all add: conserve_inv_def mark_busy_def mark_free_def Let_def\<close>)

definition prefork_inv :: "nat \<Rightarrow> prefork \<Rightarrow> bool" where
  "prefork_inv n s \<longleftrightarrow> children_inv n s \<and> avail_inv n s \<and> quit_ok n s (parent_at s) \<and> conserve_inv n s \<and> (\<forall>i c R k. parent_at s = P_send i c R k \<longrightarrow> i < n)"

lemma parent_step_inv:
  assumes "parent_step s s'" and inv: "prefork_inv n s"
  shows "prefork_inv n s'"
proof -
  have "i < n" if "parent_at s' = P_send i c R k" for i c R k
    using assms(1)
  proof cases
    case (find connfd R k j)
    then show ?thesis using that inv free_child_le[of "cptr s"] by (auto simp: prefork_inv_def children_inv_def)
  qed (use that in \<open>auto split: if_splits\<close>)
  then show ?thesis using assms(1) inv parent_step_children parent_step_avail parent_step_quit parent_step_conserve unfolding prefork_inv_def by blast
qed

lemma child_step_inv: "child_step i s s' \<Longrightarrow> i < n \<Longrightarrow> prefork_inv n s \<Longrightarrow> prefork_inv n s'"
proof -
  assume step: "child_step i s s'" and i: "i < n" and inv: "prefork_inv n s"
  have "parent_at s' = parent_at s" using step by cases auto
  then show ?thesis using inv child_step_children[OF step] child_step_rest[OF step i] by (auto simp: prefork_inv_def)
qed

lemma prefork_reach_inv: "prefork_reach n s \<Longrightarrow> prefork_inv n s"
proof (induction rule: prefork_reach.induct)
  case start
  show ?case by (auto simp: prefork_inv_def prefork_start_def children_inv_def child_ok_def load_def avail_inv_def all_live_def free_count_def conserve_inv_def)
qed (auto intro: parent_step_inv child_step_inv)

section \<open>What the server guarantees\<close>

text \<open>
  C15. The parent's books in every interleaving of parent and children. A child that has not failed never has more than
  one connection before it (being sent, on the pipe, being served, or finished and not yet reported), and while the
  parent runs it is marked busy exactly when it has one. As long as no child has failed \<open>navail\<close> is the number of
  children marked available; it is never less. The parent quits for lack of an available child only after some child
  has failed, and quits because of child \<open>i\<close> only when that child is dead.
\<close>

theorem prefork_available:
  assumes "prefork_reach nchildren s"
  shows "(\<forall>i < nchildren. live (child_at s i) \<longrightarrow>
      length (to_child s i) + busy (child_at s i) + from_child s i + sending (parent_at s) i \<le> 1 \<and>
      (running (parent_at s) \<longrightarrow> child_status (cptr s ! i) =
         int (length (to_child s i) + busy (child_at s i) + from_child s i + sending (parent_at s) i))) \<and>
    int (card {i. i < nchildren \<and> child_status (cptr s ! i) = 0}) \<le> navail s \<and>
    ((\<forall>i < nchildren. live (child_at s i)) \<longrightarrow> navail s = int (card {i. i < nchildren \<and> child_status (cptr s ! i) = 0})) \<and>
    (\<forall>cs. parent_at s = P_quit Q_none_available cs \<longrightarrow> (\<exists>i < nchildren. \<not> live (child_at s i))) \<and>
    (\<forall>i cs. parent_at s = P_quit (Q_child i) cs \<longrightarrow> i < nchildren \<and> child_at s i = C_dead)"
proof -
  note inv = prefork_reach_inv[OF assms, unfolded prefork_inv_def avail_inv_def all_live_def children_inv_def]
  have free: "free_count (cptr s) = int (card {i. i < nchildren \<and> child_status (cptr s ! i) = 0})"
    using inv length_filter_conv_card[of "\<lambda>c. child_status c = 0" "cptr s"] unfolding free_count_def by simp
  have "length (to_child s i) + busy (child_at s i) + from_child s i + sending (parent_at s) i \<le> 1 \<and>
      (running (parent_at s) \<longrightarrow> child_status (cptr s ! i) =
         int (length (to_child s i) + busy (child_at s i) + from_child s i + sending (parent_at s) i))"
    if "i < nchildren" "live (child_at s i)" for i
  proof -
    have "child_ok s i" using inv that(1) by simp
    then show ?thesis using that(2) by (auto simp: child_ok_def load_def)
  qed
  moreover have "\<exists>i < nchildren. \<not> live (child_at s i)" if "parent_at s = P_quit Q_none_available cs" for cs
    using inv that by (simp add: all_live_def)
  moreover have "i < nchildren \<and> child_at s i = C_dead" if "parent_at s = P_quit (Q_child i) cs" for i cs using inv that by simp
  ultimately show ?thesis using inv free by simp
qed

text \<open>
  C16. Every accepted connection is handed to one child: counted with multiplicity, the accepted descriptors are those
  a child has taken, those on their way to a child and the one the parent holds.
\<close>

theorem prefork_exactly_once:
  assumes "prefork_reach nchildren s"
  shows "mset (accepted s) = mset (map snd (handled s)) + (\<Sum>i<nchildren. mset (to_child s i)) + mset (held (parent_at s))"
  using prefork_reach_inv[OF assms] by (simp add: prefork_inv_def conserve_inv_def)

section \<open>A run\<close>

definition sent_one :: prefork where
  "sent_one = \<lparr>cptr = [\<lparr>child_status = 1, child_count = 1\<rparr>, \<lparr>child_status = 0, child_count = 0\<rparr>], navail = 1, parent_at = P_close {} 1,
     to_child = (\<lambda>i. if i = 0 then [7] else []), from_child = (\<lambda>_. 0), child_at = (\<lambda>_. C_read), accepted = [7], handled = []\<rparr>"

lemma sent_one_reachable: "prefork_reach 2 sent_one"
proof -
  let ?a = "(prefork_start 2)\<lparr>parent_at := P_accept {} (card ({} :: nat set) + 1)\<rparr>"
  let ?b = "?a\<lparr>parent_at := P_find 7 {} 1, accepted := accepted ?a @ [7]\<rparr>"
  let ?c = "(mark_busy 0 ?b)\<lparr>parent_at := P_send 0 7 {} 1\<rparr>"
  let ?d = "?c\<lparr>parent_at := P_close {} 1, to_child := (to_child ?c)(0 := to_child ?c 0 @ [7])\<rparr>"
  have "prefork_reach 2 ?a" by (rule prefork_reach.parent[OF prefork_reach.start parent_step.select_listen]) (simp_all add: prefork_start_def)
  then have "prefork_reach 2 ?b" by (rule prefork_reach.parent) (rule parent_step.accept, simp)
  then have "prefork_reach 2 ?c" by (rule prefork_reach.parent) (rule parent_step.find, simp_all add: prefork_start_def numeral_2_eq_2)
  then have "prefork_reach 2 ?d" by (rule prefork_reach.parent) (rule parent_step.send, simp)
  moreover have "?d = sent_one" by (auto simp: sent_one_def prefork_start_def mark_busy_def Let_def numeral_2_eq_2 fun_eq_iff)
  ultimately show ?thesis by simp
qed

theorem prefork_available_witness:
  "prefork_reach 2 sent_one \<and> navail sent_one = int (card {i. i < 2 \<and> child_status (cptr sent_one ! i) = 0}) \<and>
   child_status (cptr sent_one ! 0) = 1 \<and> length (to_child sent_one 0) = 1"
  using prefork_available[OF sent_one_reachable] sent_one_reachable by (simp add: sent_one_def)

theorem prefork_exactly_once_witness:
  "mset (accepted sent_one) = mset (map snd (handled sent_one)) + (\<Sum>i<2. mset (to_child sent_one i)) + mset (held (parent_at sent_one))"
  by (rule prefork_exactly_once[OF sent_one_reachable])

section \<open>A failing child is counted as available\<close>

text \<open>Child 0 fails and writes \<open>k\<close> bytes, of which the parent has read \<open>j\<close>; then \<open>m\<close> connections arrive.\<close>

definition overcounted :: "nat \<Rightarrow> nat \<Rightarrow> nat \<Rightarrow> prefork" where
  "overcounted n k j = (prefork_start n)\<lparr>child_at := (\<lambda>_. C_read)(0 := C_failing), from_child := (\<lambda>_. 0)(0 := k - j), navail := int n + int j\<rparr>"

definition given_out :: "nat \<Rightarrow> nat \<Rightarrow> nat \<Rightarrow> prefork" where
  "given_out n k m = (overcounted n k k)\<lparr>cptr := replicate m \<lparr>child_status = 1, child_count = 1\<rparr> @ replicate (n - m) \<lparr>child_status = 0, child_count = 0\<rparr>,
     navail := int n + int k - int m, to_child := (\<lambda>i. if i < m then [7] else []), accepted := replicate m 7\<rparr>"

lemmas over_defs = overcounted_def prefork_start_def mark_free_def mark_busy_def Let_def

lemma overcounted_step:
  assumes "prefork_reach n (overcounted n k j)" and "j < k" and "0 < n"
  shows "prefork_reach n (overcounted n k (Suc j))"
proof -
  let ?s = "overcounted n k j"
  let ?a = "?s\<lparr>parent_at := P_scan 0 {0} (card {0 :: nat})\<rparr>"
  have "prefork_reach n ?a"
    by (rule prefork_reach.parent[OF assms(1) parent_step.select_pipes]) (use assms in \<open>simp_all add: over_defs readable_def\<close>)
  then have "prefork_reach n ((mark_free 0 ?a)\<lparr>from_child := (from_child ?a)(0 := from_child ?a 0 - 1),
      parent_at := (if card {0 :: nat} - 1 = 0 then P_select else P_scan (0 + 1) {0} (card {0 :: nat} - 1))\<rparr>)"
    by (rule prefork_reach.parent[OF _ parent_step.scan_read]) (use assms in \<open>simp_all add: over_defs\<close>)
  moreover have "(replicate n \<lparr>child_status = 0, child_count = 0\<rparr>)[0 := \<lparr>child_status = 0, child_count = 0\<rparr>] = replicate n \<lparr>child_status = 0, child_count = 0\<rparr>"
    using assms(3) by (metis list_update_id nth_replicate)
  ultimately show ?thesis using assms by (simp add: over_defs ac_simps)
qed

lemma overcounted_reach:
  assumes "0 < n" and "j \<le> k"
  shows "prefork_reach n (overcounted n k j)"
  using assms(2)
proof (induction j)
  case 0
  let ?a = "(prefork_start n)\<lparr>child_at := (child_at (prefork_start n))(0 := C_failing)\<rparr>"
  have "prefork_reach n ?a"
    by (rule prefork_reach.child[OF prefork_reach.start assms(1) child_step.fail]) (simp add: prefork_start_def)
  then have "prefork_reach n (?a\<lparr>from_child := (from_child ?a)(0 := from_child ?a 0 + k)\<rparr>)"
    by (rule prefork_reach.child[OF _ assms(1) child_step.message]) simp
  then show ?case by (simp add: overcounted_def prefork_start_def)
qed (use assms(1) overcounted_step in simp)

lemma free_child_replicate [simplified, simp]: "free_child (replicate m \<lparr>child_status = 1, child_count = 1\<rparr> @ cs) = m + free_child cs"
  by (induction m) simp_all

lemma given_out_accept:
  assumes "prefork_reach n (given_out n k m)" and "m < n + k"
  shows "prefork_reach n ((given_out n k m)\<lparr>parent_at := P_find 7 {} 1, accepted := replicate (Suc m) 7\<rparr>)"
proof -
  let ?s = "given_out n k m"
  have "prefork_reach n (?s\<lparr>parent_at := P_accept {} (card ({} :: nat set) + 1)\<rparr>)"
    by (rule prefork_reach.parent[OF assms(1) parent_step.select_listen]) (use assms(2) in \<open>simp_all add: given_out_def over_defs\<close>)
  then have "prefork_reach n ((?s\<lparr>parent_at := P_accept {} (card ({} :: nat set) + 1)\<rparr>)\<lparr>parent_at := P_find 7 {} 1, accepted := accepted ?s @ [7]\<rparr>)"
    by (rule prefork_reach.parent) (use parent_step.accept[of "?s\<lparr>parent_at := P_accept {} (card ({} :: nat set) + 1)\<rparr>" "{}" 1 7] in simp)
  then show ?thesis by (simp add: given_out_def replicate_append_same)
qed

lemma given_out_step:
  assumes "prefork_reach n (given_out n k m)" and "m < n"
  shows "prefork_reach n (given_out n k (Suc m))"
proof -
  let ?b = "(given_out n k m)\<lparr>parent_at := P_find 7 {} 1, accepted := replicate (Suc m) 7\<rparr>"
  have rest: "replicate (n - m) (c :: child) = c # replicate (n - Suc m) c" for c using assms(2) by (simp add: Suc_diff_Suc flip: replicate_Suc)
  have free: "free_child (cptr ?b) = m" "m \<noteq> length (cptr ?b)" using assms(2) by (simp_all add: given_out_def free_child_replicate rest)
  have "prefork_reach n ?b" by (rule given_out_accept) (use assms in simp_all)
  then have "prefork_reach n ((mark_busy m ?b)\<lparr>parent_at := P_send m 7 {} 1\<rparr>)" (is "prefork_reach n ?c")
    by (rule prefork_reach.parent[OF _ parent_step.find]) (use free in simp_all)
  then have "prefork_reach n (?c\<lparr>parent_at := P_close {} 1, to_child := (to_child ?c)(m := to_child ?c m @ [7])\<rparr>)" (is "prefork_reach n ?d")
    by (rule prefork_reach.parent[OF _ parent_step.send]) simp
  then have "prefork_reach n (?d\<lparr>parent_at := P_select\<rparr>)"
    by (rule prefork_reach.parent) (use parent_step.close[of ?d "{}" 1] in simp)
  moreover have "?d\<lparr>parent_at := P_select\<rparr> = given_out n k (Suc m)"
    using assms(2) by (auto simp: given_out_def over_defs rest nth_append replicate_app_Cons_same list_update_append fun_eq_iff)
  ultimately show ?thesis by simp
qed

lemma given_out_reach:
  assumes "0 < n" and "m \<le> n"
  shows "prefork_reach n (given_out n k m)"
  using assms(2)
proof (induction m)
  case 0
  have "given_out n k 0 = overcounted n k k" by (simp add: given_out_def over_defs fun_eq_iff)
  then show ?case using overcounted_reach[OF assms(1), of k k] by simp
qed (use given_out_step in simp)

text \<open>
  C23. A child that fails is counted as available, once for every byte of the message it writes: with \<open>k > 0\<close> bytes
  from one failing child (the others are well) there is a run in which \<open>navail\<close> is \<open>k\<close> more than the number of
  children marked available, and it continues to a state in which the parent, having passed a connection to every
  child, has accepted one more and quits with it because there is no available child.
\<close>

theorem prefork_overcounts:
  assumes "0 < nchildren" and "0 < k"
  shows "(\<exists>s. prefork_reach nchildren s \<and> running (parent_at s) \<and> (\<forall>i. 0 < i \<and> i < nchildren \<longrightarrow> live (child_at s i)) \<and>
      navail s = int (card {i. i < nchildren \<and> child_status (cptr s ! i) = 0}) + int k) \<and>
    (\<exists>s c. prefork_reach nchildren s \<and> (\<forall>i. 0 < i \<and> i < nchildren \<longrightarrow> live (child_at s i)) \<and>
      length (accepted s) = nchildren + 1 \<and> parent_at s = P_quit Q_none_available [c])"
proof -
  let ?s = "overcounted nchildren k k" and ?t = "(given_out nchildren k nchildren)\<lparr>parent_at := P_find 7 {} 1, accepted := replicate (Suc nchildren) 7\<rparr>"
  have "{i. i < nchildren \<and> child_status (cptr ?s ! i) = 0} = {..<nchildren}" by (auto simp: over_defs)
  then have 1: "prefork_reach nchildren ?s \<and> running (parent_at ?s) \<and> (\<forall>i. 0 < i \<and> i < nchildren \<longrightarrow> live (child_at ?s i)) \<and>
      navail ?s = int (card {i. i < nchildren \<and> child_status (cptr ?s ! i) = 0}) + int k"
    using overcounted_reach[OF assms(1), of k k] by (simp add: over_defs)
  have "prefork_reach nchildren ?t" by (rule given_out_accept[OF given_out_reach]) (use assms in simp_all)
  then have "prefork_reach nchildren (?t\<lparr>parent_at := P_quit Q_none_available [7]\<rparr>)"
    by (rule prefork_reach.parent[OF _ parent_step.find_none]) (use free_child_replicate[of nchildren "[]"] in \<open>simp_all add: given_out_def\<close>)
  then have "prefork_reach nchildren (?t\<lparr>parent_at := P_quit Q_none_available [7]\<rparr>) \<and>
      (\<forall>i. 0 < i \<and> i < nchildren \<longrightarrow> live (child_at (?t\<lparr>parent_at := P_quit Q_none_available [7]\<rparr>) i))"
    by (simp add: given_out_def over_defs)
  with 1 show ?thesis by (intro conjI exI[of _ ?s] exI[of _ "?t\<lparr>parent_at := P_quit Q_none_available [7]\<rparr>"] exI[of _ 7]) simp_all
qed

theorem prefork_overcounts_witness:
  "\<exists>s c. prefork_reach 2 s \<and> length (accepted s) = 3 \<and> parent_at s = P_quit Q_none_available [c]"
  using prefork_overcounts[of 2 27] by auto

end
