(* ===== verification/Packet.thy ===== *)
theory Packet
  imports Posix
begin

text \<open>
  Packets as ping and traceroute handle them: the layout of integers in a buffer on the little-endian
  64-bit host (16-bit fields, the 64-bit members of a \<open>struct timeval\<close>), the Internet checksum of
  libfree/in_cksum.c, whose buffer is the list of its \<open>len\<close> bytes, and the macros of the ICMPv6 headers.
\<close>

unbundle bit_operations_syntax

section \<open>Fields of a packet\<close>

fun le_val :: "byte list \<Rightarrow> nat" where
  "le_val [] = 0"
| "le_val (b # bs) = unat b + 256 * le_val bs"

fun le_bytes :: "nat \<Rightarrow> nat \<Rightarrow> byte list" where
  "le_bytes 0 v = []"
| "le_bytes (Suc n) v = of_nat v # le_bytes n (v div 256)"

definition get8 :: "nat \<Rightarrow> byte list \<Rightarrow> nat" where
  "get8 k bs = unat (bs ! k)"

abbreviation slice :: "nat \<Rightarrow> nat \<Rightarrow> byte list \<Rightarrow> byte list" where
  "slice k n bs \<equiv> take n (drop k bs)"

definition get16 :: "nat \<Rightarrow> byte list \<Rightarrow> u16" where
  "get16 k bs = of_nat (le_val (slice k 2 bs))"

definition get64 :: "nat \<Rightarrow> byte list \<Rightarrow> 64 word" where
  "get64 k bs = of_nat (le_val (slice k 8 bs))"

text \<open>Overwriting part of a buffer; the writes of the programs are inside the buffer.\<close>

definition put_bytes :: "nat \<Rightarrow> byte list \<Rightarrow> byte list \<Rightarrow> byte list" where
  "put_bytes k new bs = take k bs @ new @ drop (k + length new) bs"

definition put16 :: "nat \<Rightarrow> u16 \<Rightarrow> byte list \<Rightarrow> byte list" where
  "put16 k w bs = put_bytes k (le_bytes 2 (unat w)) bs"

definition put64 :: "nat \<Rightarrow> 64 word \<Rightarrow> byte list \<Rightarrow> byte list" where
  "put64 k w bs = put_bytes k (le_bytes 8 (unat w)) bs"

lemma length_le_bytes [simp]: "length (le_bytes n v) = n"
  by (induction n arbitrary: v) simp_all

lemma le_val_le_bytes: "le_val (le_bytes n v) = v mod 256 ^ n"
proof (induction n arbitrary: v)
  case (Suc n)
  have "v mod (256 * 256 ^ n) = v mod 256 + 256 * (v div 256 mod 256 ^ n)" by (simp add: mod_mult2_eq)
  then show ?case using Suc by (simp add: unat_of_nat)
qed simp

lemma length_put_bytes [simp]: "k + length new \<le> length bs \<Longrightarrow> length (put_bytes k new bs) = length bs"
  by (simp add: put_bytes_def)

lemma take_put_bytes: "j \<le> k \<Longrightarrow> k \<le> length bs \<Longrightarrow> take j (put_bytes k new bs) = take j bs"
  by (simp add: put_bytes_def min_def)

lemma nth_put_bytes: "j < k \<or> k + length new \<le> j \<Longrightarrow> k + length new \<le> length bs \<Longrightarrow> put_bytes k new bs ! j = bs ! j"
  by (auto simp: put_bytes_def nth_append)

lemma slice_put_same: "n = length new \<Longrightarrow> k + length new \<le> length bs \<Longrightarrow> slice k n (put_bytes k new bs) = new"
  by (simp add: put_bytes_def)

lemma slice_put_other:
  assumes "j + n \<le> k \<or> k + length new \<le> j" and "k + length new \<le> length bs"
  shows "slice j n (put_bytes k new bs) = slice j n bs"
  using assms(1)
proof
  assume "j + n \<le> k"
  then have "take (n + j) (put_bytes k new bs) = take (n + j) bs" using assms(2) by (intro take_put_bytes) auto
  then show ?thesis by (simp add: take_drop)
next
  assume "k + length new \<le> j"
  then show ?thesis using assms(2) by (simp add: put_bytes_def)
qed

lemma slice_update: "i < j \<or> j + n \<le> i \<Longrightarrow> slice j n (bs[i := b]) = slice j n bs"
  by (cases "i < j") (auto simp: drop_update_swap)

lemma slice_take: "j + n \<le> m \<Longrightarrow> slice j n (take m bs) = slice j n bs"
  by (simp add: drop_take min_def)

lemma slice_append: "j + n \<le> length xs \<Longrightarrow> slice j n (xs @ ys) = slice j n xs"
  by simp

lemma take_put_0: "n = length new \<Longrightarrow> take n (put_bytes 0 new bs) = new"
  by (simp add: put_bytes_def)

lemma take_put:
  assumes "k + length new \<le> n" and "k \<le> length bs"
  shows "take n (put_bytes k new bs) = put_bytes k new (take n bs)"
proof -
  from assms have "min n k = k" "min k n = k" "n - k - length new = n - (k + length new)" by simp_all
  with assms show ?thesis by (simp add: put_bytes_def drop_take min_absorb2)
qed

lemma of_nat_unat_mod [simp]:
  "(of_nat (unat w mod 65536) :: u16) = w" "(of_nat (unat v mod 18446744073709551616) :: 64 word) = v"
  using unsigned_less[of w, where 'a = nat] unsigned_less[of v, where 'a = nat] by (simp_all add: word_unat_eq_iff unat_of_nat)

text \<open>Reading a field of a buffer in which others were written.\<close>

lemmas packet_simps = get8_def get16_def get64_def put16_def put64_def nth_put_bytes slice_put_same slice_put_other
  slice_update slice_take le_val_le_bytes

section \<open>Times in packets\<close>

definition put_time :: "nat \<Rightarrow> int \<times> int \<Rightarrow> byte list \<Rightarrow> byte list" where
  "put_time k tv bs = put64 (k + 8) (word_of_int (snd tv)) (put64 k (word_of_int (fst tv)) bs)"

definition get_time :: "nat \<Rightarrow> byte list \<Rightarrow> int \<times> int" where
  "get_time k bs = (sint (get64 k bs), sint (get64 (k + 8) bs))"

lemma get_put_time:
  assumes "k + 16 \<le> length bs" and "- (2 ^ 63) \<le> fst tv" "fst tv < 2 ^ 63" "- (2 ^ 63) \<le> snd tv" "snd tv < 2 ^ 63"
  shows "get_time k (put_time k tv bs) = tv"
proof -
  have "get64 k (put_time k tv bs) = word_of_int (fst tv)" "get64 (k + 8) (put_time k tv bs) = word_of_int (snd tv)"
    using assms(1) by (simp_all add: put_time_def packet_simps)
  then show ?thesis using assms(2-5) by (simp add: get_time_def prod_eq_iff int_word_sint)
qed

section \<open>Numbers and macros of the headers\<close>

abbreviation (input) IPPROTO_ICMP :: int where "IPPROTO_ICMP \<equiv> 1"
abbreviation (input) IPPROTO_ICMPV6 :: int where "IPPROTO_ICMPV6 \<equiv> 58"
abbreviation (input) SOCK_RAW :: int where "SOCK_RAW \<equiv> 3"
abbreviation (input) ICMP6_FILTER :: int where "ICMP6_FILTER \<equiv> 1"

text \<open>The macros \<open>ICMP6_FILTER_SETBLOCKALL\<close> and \<open>ICMP6_FILTER_SETPASS\<close>: a bit per type, set for the types
  that are blocked.\<close>

definition filter_passing :: "nat list \<Rightarrow> byte list" where
  "filter_passing tys = foldl (\<lambda>bs ty. bs[ty div 8 := bs ! (ty div 8) AND NOT (push_bit (ty mod 8) 1)]) (replicate 32 0xFF) tys"

definition v4mapped :: "sockaddr \<Rightarrow> bool" where
  "v4mapped sa = (case sa of Sockaddr_in6 _ a \<Rightarrow> take 12 a = replicate 10 0 @ [0xFF, 0xFF] | _ \<Rightarrow> False)"

section \<open>libfree/in\_cksum.c\<close>

text \<open>The loop over the 16-bit words: the sum and the bytes left over.\<close>

fun in_cksum_loop :: "u32 \<Rightarrow> byte list \<Rightarrow> u32 \<times> byte list" where
  "in_cksum_loop acc (a # b # rest) = in_cksum_loop (acc + of_nat (le_val [a, b])) rest"
| "in_cksum_loop acc [a] = (acc, [a])"
| "in_cksum_loop acc [] = (acc, [])"

definition in_cksum :: "byte list \<Rightarrow> u16" where
  "in_cksum addr =
     (let (acc, rest) = in_cksum_loop 0 addr;
          acc = (case rest of [b] \<Rightarrow> acc + ucast b | _ \<Rightarrow> acc);
          acc = drop_bit 16 acc + (acc AND 0xFFFF);
          acc = acc + drop_bit 16 acc
      in ucast (NOT acc))"

section \<open>What it computes\<close>

text \<open>The sum of the little-endian words of a buffer, the last one padded with a zero byte.\<close>

fun word_sum :: "byte list \<Rightarrow> nat" where
  "word_sum (a # b # rest) = unat a + 256 * unat b + word_sum rest"
| "word_sum [a] = unat a"
| "word_sum [] = 0"

text \<open>The ones' complement sum of such words: the representative of the sum modulo 65535 that is 0 only
  for the sum 0.\<close>

definition ones_sum :: "nat \<Rightarrow> nat" where
  "ones_sum n = (if n = 0 then 0 else (n - 1) mod 65535 + 1)"

lemma byte_bound: "unat (b :: byte) < 256"
  by (rule order_less_le_trans[OF unsigned_less]) simp

lemma u16_bound: "unat (w :: u16) < 65536"
  by (rule order_less_le_trans[OF unsigned_less]) simp

lemma u32_bound: "unat (w :: u32) < 4294967296"
  by (rule order_less_le_trans[OF unsigned_less]) simp

lemma word_sum_bound: "word_sum bs \<le> 65535 * ((length bs + 1) div 2)"
proof (induction bs rule: word_sum.induct)
  case (1 a b rest)
  have "unat a < 256" "unat b < 256" using byte_bound[of a] byte_bound[of b] by simp_all
  with 1 show ?case by simp
next
  case (2 a)
  then show ?case using byte_bound[of a] by simp
qed simp

lemma in_cksum_loop_sum:
  assumes "unat acc + word_sum bs < 2 ^ 32"
  shows "(case in_cksum_loop acc bs of (s, rest) \<Rightarrow> unat (case rest of [b] \<Rightarrow> s + ucast b | _ \<Rightarrow> s))
    = unat acc + word_sum bs"
  using assms
proof (induction acc bs rule: in_cksum_loop.induct)
  case (1 acc a b rest)
  have "unat (acc + of_nat (le_val [a, b])) = unat acc + (unat a + 256 * unat b)"
  proof -
    have "unat (of_nat (le_val [a, b]) :: u32) = unat a + 256 * unat b"
      using byte_bound[of a] byte_bound[of b] by (simp add: unat_of_nat del: of_nat_add of_nat_mult)
    then show ?thesis using 1(2) by (simp add: unat_word_ariths del: of_nat_add of_nat_mult)
  qed
  with 1 show ?case by simp
next
  case (2 acc a)
  then show ?case using byte_bound[of a] by (simp add: unat_word_ariths unsigned_ucast_eq take_bit_eq_mod)
qed simp

lemma ones_sum_fold:
  assumes "n < 2 ^ 32"
  defines "m \<equiv> n div 65536 + n mod 65536"
  shows "(m + m div 65536) mod 65536 = ones_sum n"
proof (cases "n = 0")
  case False
  define q r where "q = n div 65536" and "r = n mod 65536"
  have n: "n = 65536 * q + r" "r < 65536" "q < 65536" using assms(1) by (auto simp: q_def r_def)
  have m: "m = q + r" by (simp add: m_def q_def r_def)
  have "(n - 1) mod 65535 = (q + r - 1) mod 65535"
  proof -
    have "n - 1 = 65535 * q + (q + r - 1)" using n False by auto
    then show ?thesis by simp
  qed
  also have "\<dots> + 1 = (m + m div 65536) mod 65536"
  proof (cases "q + r \<le> 65535")
    case True
    then have "m div 65536 = 0" "(q + r - 1) mod 65535 = q + r - 1" using n False by (auto simp: m)
    then show ?thesis using True n False by (simp add: m)
  next
    case False
    then have d: "m div 65536 = 1" using n by (auto simp: m intro!: div_nat_eqI)
    have "q + r - 1 = (q + r - 65536) + 65535 * 1" using False by simp
    then have "(q + r - 1) mod 65535 = (q + r - 65536) mod 65535" by (metis mod_mult_self1 mult.commute)
    moreover have "q + r - 65536 < 65535" using n False by simp
    moreover have "(m + 1) mod 65536 = q + r - 65536 + 1" using n False by (simp add: m mod_if) linarith
    ultimately show ?thesis by (simp add: d)
  qed
  finally show ?thesis using False by (simp add: ones_sum_def)
qed (simp add: ones_sum_def m_def)

lemma fold_carries:
  fixes acc :: u32
  defines "one \<equiv> drop_bit 16 acc + (acc AND 0xFFFF)"
  shows "unat (ucast (NOT (one + drop_bit 16 one)) :: u16) = 65535 - ones_sum (unat acc)"
proof -
  let ?n = "unat acc"
  have n: "?n < 2 ^ 32" using u32_bound[of acc] by simp
  have lo: "unat (acc AND 0xFFFF) = ?n mod 65536"
  proof -
    have "acc AND 0xFFFF = take_bit 16 acc" by (simp add: take_bit_eq_mask mask_eq_exp_minus_1)
    then show ?thesis by (simp only: unsigned_take_bit_eq) (simp add: take_bit_eq_mod)
  qed
  have hi: "unat (drop_bit 16 w) = unat w div 65536" for w :: u32
    using u32_bound[of w] by (simp add: unsigned_drop_bit_eq take_bit_eq_mod) (simp add: drop_bit_eq_div)
  have one: "unat one = ?n div 65536 + ?n mod 65536"
    using n by (simp add: one_def unat_word_ariths lo hi)
  have two: "unat (one + drop_bit 16 one) mod 65536 = ones_sum ?n"
    using ones_sum_fold[OF n] n by (simp add: unat_word_ariths hi one mod_mod_cancel)
  have "unat (ucast (NOT w) :: u16) = 65535 - unat w mod 65536" for w :: u32
  proof -
    have "(ucast (NOT w) :: u16) = NOT (ucast w)"
      by (rule bit_word_eqI) (simp add: bit_unsigned_iff bit_not_iff)
    also have "\<dots> = - 1 - ucast w" by (simp add: not_eq_complement)
    also have "unat \<dots> = unat (- 1 :: u16) - unat (ucast w :: u16)" by (rule unat_sub) simp
    also have "\<dots> = 65535 - unat w mod 65536" by (simp add: unsigned_ucast_eq unsigned_minus_1_eq_mask mask_eq_exp_minus_1 take_bit_eq_mod)
    finally show ?thesis .
  qed
  then show ?thesis by (simp add: two)
qed

text \<open>\<open>in_cksum\<close> is the complement of the ones' complement sum of the words, computed without loss in its
  32-bit accumulator, for every buffer of at most 131072 bytes.\<close>

lemma in_cksum_sum:
  assumes "length bs \<le> 131072"
  shows "unat (in_cksum bs) = 65535 - ones_sum (word_sum bs)"
proof -
  have "65535 * ((length bs + 1) div 2) \<le> 65535 * 65536" using assms by (intro mult_le_mono2) simp
  then have "unat (0 :: u32) + word_sum bs < 2 ^ 32" using word_sum_bound[of bs] by simp
  from in_cksum_loop_sum[OF this] show ?thesis
    by (simp add: in_cksum_def fold_carries Let_def split: prod.splits)
qed

lemma word_sum_append: "even (length xs) \<Longrightarrow> word_sum (xs @ ys) = word_sum xs + word_sum ys"
  by (induction xs rule: word_sum.induct) simp_all

lemma word_sum_put16:
  assumes "even k" and "k + 2 \<le> length bs" and "get16 k bs = 0"
  shows "word_sum (put16 k c bs) = word_sum bs + unat c"
proof -
  obtain a b where ab: "drop k bs = a # b # drop (k + 2) bs"
    using that[of "bs ! k" "bs ! Suc k"] assms(2) Cons_nth_drop_Suc[of k bs] Cons_nth_drop_Suc[of "Suc k" bs] by simp
  have "unat a + 256 * unat b < 65536" using byte_bound[of a] byte_bound[of b] by simp
  moreover have "take 2 (drop k bs) = [a, b]" by (subst ab) (simp add: numeral_2_eq_2)
  ultimately have "unat (get16 k bs) = unat a + 256 * unat b"
    by (simp add: get16_def unat_of_nat del: of_nat_add of_nat_mult)
  then have zero: "unat a + 256 * unat b = 0" using assms(3) by simp
  have "word_sum bs = word_sum (take k bs @ a # b # drop (k + 2) bs)" by (simp only: append_take_drop_id flip: ab)
  also have "\<dots> = word_sum (take k bs) + word_sum (drop (k + 2) bs)"
    using assms(1,2) zero by (subst word_sum_append) simp_all
  finally have old: "word_sum bs = \<dots>" .
  have "word_sum (le_bytes 2 (unat c) @ drop (k + 2) bs) = unat c + word_sum (drop (k + 2) bs)"
    using u16_bound[of c] by (simp add: numeral_2_eq_2 unat_of_nat unsigned_ucast_eq take_bit_eq_mod)
  with old assms(1,2) show ?thesis by (simp add: put16_def put_bytes_def word_sum_append)
qed

lemma ones_sum_range: "ones_sum n \<le> 65535" "ones_sum n = 0 \<longleftrightarrow> n = 0"
  using mod_less_divisor[of 65535 "n - 1"] by (auto simp: ones_sum_def simp del: mod_less_divisor)

lemma ones_sum_full: "ones_sum n = 65535 \<longleftrightarrow> 0 < n \<and> n mod 65535 = 0"
proof (cases n)
  case (Suc m)
  then show ?thesis by (auto simp: ones_sum_def mod_Suc)
qed (simp add: ones_sum_def)

lemma ones_sum_mod: "ones_sum n mod 65535 = n mod 65535"
  by (cases n) (auto simp: ones_sum_def mod_Suc)

lemma in_cksum_filled:
  assumes "length bs \<le> 131072" and "even k" and "k + 2 \<le> length bs" and "get16 k bs = 0"
  shows "in_cksum (put16 k (in_cksum bs) bs) = 0"
proof -
  let ?W = "word_sum bs"
  have "(?W + (65535 - ones_sum ?W)) mod 65535 = (ones_sum ?W + (65535 - ones_sum ?W)) mod 65535"
    by (metis mod_add_left_eq ones_sum_mod)
  then have "ones_sum (?W + (65535 - ones_sum ?W)) = 65535"
    using ones_sum_range[of ?W] by (auto simp: ones_sum_full)
  moreover have "length (put16 k (in_cksum bs) bs) \<le> 131072" using assms by (simp add: put16_def)
  ultimately have "unat (in_cksum (put16 k (in_cksum bs) bs)) = 0"
    using in_cksum_sum word_sum_put16[OF assms(2-4)] in_cksum_sum[OF assms(1)] by simp
  then show ?thesis by (simp add: unat_eq_zero)
qed

text \<open>
  C32. The checksum detects and verifies: filled into a field that was zero when it was computed (at an
  even offset of a packet of at most 131072 bytes), it makes the checksum of the whole packet 0, and no
  other value of the field does, except all ones where the checksum is zero.
\<close>

theorem in_cksum_verifies:
  assumes "length bs \<le> 131072" and "even k" and "k + 2 \<le> length bs" and "get16 k bs = 0"
  shows "in_cksum (put16 k c bs) = 0 \<longleftrightarrow> c = in_cksum bs \<or> in_cksum bs = 0 \<and> c = 0xFFFF"
proof -
  let ?W = "word_sum bs" and ?c = "unat c" and ?d = "unat (in_cksum bs)"
  have len: "length (put16 k c bs) \<le> 131072" using assms by (simp add: put16_def)
  have c: "?c \<le> 65535" using u16_bound[of c] by simp
  have d: "?d = 65535 - ones_sum ?W" by (rule in_cksum_sum[OF assms(1)])
  have "in_cksum (put16 k c bs) = 0 \<longleftrightarrow> unat (in_cksum (put16 k c bs)) = 0" by (simp add: unat_eq_zero)
  also have "\<dots> \<longleftrightarrow> ones_sum (?W + ?c) = 65535"
    using in_cksum_sum[OF len] ones_sum_range(1)[of "?W + ?c"] by (auto simp: word_sum_put16[OF assms(2-4)])
  also have "\<dots> \<longleftrightarrow> 0 < ?W + ?c \<and> (ones_sum ?W + ?c) mod 65535 = 0"
    by (simp add: ones_sum_full) (metis mod_add_left_eq ones_sum_mod)
  also have "\<dots> \<longleftrightarrow> ?c = ?d \<or> ?d = 0 \<and> ?c = 65535"
  proof -
    consider "ones_sum ?W + ?c = 0" | "0 < ones_sum ?W + ?c" "ones_sum ?W + ?c < 65535" | "ones_sum ?W + ?c = 65535"
      | "65535 < ones_sum ?W + ?c" "ones_sum ?W + ?c < 131070" | "ones_sum ?W + ?c = 131070"
      using c ones_sum_range(1)[of ?W] by linarith
    then show ?thesis
      using c d ones_sum_range[of ?W] by cases (auto simp: mod_if)
  qed
  also have "\<dots> \<longleftrightarrow> c = in_cksum bs \<or> in_cksum bs = 0 \<and> c = 0xFFFF"
    using word_unat_eq_iff[of c "in_cksum bs"] word_unat_eq_iff[of c "0xFFFF"] by (simp add: unat_eq_zero)
  finally show ?thesis .
qed

theorem in_cksum_verifies_witness:
  "in_cksum (put16 2 (in_cksum [8, 0, 0, 0, 1, 2, 3]) [8, 0, 0, 0, 1, 2, 3]) = 0"
  using in_cksum_verifies[of "[8, 0, 0, 0, 1, 2, 3]" 2 "in_cksum [8, 0, 0, 0, 1, 2, 3]"] by (simp add: get16_def)

end
