(* ===== verification/Ping.thy ===== *)
theory Ping
  imports Echo Packet
begin

text \<open>
  The ping program of ping/: \<open>main\<close>, \<open>readloop\<close>, \<open>sig_alrm\<close>, the senders \<open>send_v4\<close> and \<open>send_v6\<close>, the
  receivers \<open>proc_v4\<close> and \<open>proc_v6\<close>, and \<open>init_v6\<close>. The globals of ping.h extend the state of the process.
  Packets are byte lists laid out as on the little-endian 64-bit host, where a \<open>struct timeval\<close> has 16
  bytes. A receive buffer keeps the bytes of earlier packets behind those just received. In the arguments
  of \<open>printf\<close> a time stands for the floating-point number of milliseconds computed from it. The alarm
  handler runs between the steps of the receive loop (\<open>ping_step\<close>).
\<close>

section \<open>State\<close>

text \<open>The members \<open>fproc\<close>, \<open>fsend\<close> and \<open>finit\<close> of \<open>struct proto\<close> are those of \<open>proto_v4\<close> or of \<open>proto_v6\<close>.\<close>

datatype proto_fns = Proto_v4 | Proto_v6

record proto =
  fns :: proto_fns
  sasend :: sockaddr
  sarecv :: sockaddr
  salen :: nat
  icmpproto :: int

record ping = proc +
  sendbuf :: "byte list"
  datalen :: nat
  nsent :: u32
  pid :: int
  sockfd :: int
  verbose :: int
  pr :: proto

abbreviation (input) SO_RCVBUF :: int where "SO_RCVBUF \<equiv> 8"
abbreviation (input) IPV6_RECVHOPLIMIT :: int where "IPV6_RECVHOPLIMIT \<equiv> 51"
abbreviation (input) IPV6_HOPLIMIT :: int where "IPV6_HOPLIMIT \<equiv> 52"

definition BUFSIZE :: nat where "BUFSIZE = 1500"

section \<open>Sending\<close>

definition send_v4 :: "os \<Rightarrow> ('z ping_scheme, unit) cprog" where
  "send_v4 os =
     cbind (cupd (\<lambda>s. s\<lparr>sendbuf := (sendbuf s)[0 := 8, 1 := 0]\<rparr>)) (\<lambda>_.
     cbind (cupd (\<lambda>s. s\<lparr>sendbuf := put16 4 (word_of_int (pid s)) (sendbuf s)\<rparr>)) (\<lambda>_.
     cbind (cupd (\<lambda>s. s\<lparr>sendbuf := put16 6 (ucast (nsent s)) (sendbuf s), nsent := nsent s + 1\<rparr>)) (\<lambda>_.
     cbind (cupd (\<lambda>s. s\<lparr>sendbuf := put_bytes 8 (replicate (datalen s) 0xA5) (sendbuf s)\<rparr>)) (\<lambda>_.
     cbind (Gettimeofday os) (\<lambda>tv.
     cbind (cupd (\<lambda>s. s\<lparr>sendbuf := put_time 8 tv (sendbuf s)\<rparr>)) (\<lambda>_.
     cbind (cget (\<lambda>s. 8 + datalen s)) (\<lambda>len.
     cbind (cupd (\<lambda>s. s\<lparr>sendbuf := put16 2 0 (sendbuf s)\<rparr>)) (\<lambda>_.
     cbind (cupd (\<lambda>s. s\<lparr>sendbuf := put16 2 (in_cksum (take len (sendbuf s))) (sendbuf s)\<rparr>)) (\<lambda>_.
     cbind (cget (\<lambda>s. s)) (\<lambda>s.
     Sendto os (sockfd s) (take len (sendbuf s)) 0 (sasend (pr s)) (salen (pr s))))))))))))"

definition send_v6 :: "os \<Rightarrow> ('z ping_scheme, unit) cprog" where
  "send_v6 os =
     cbind (cupd (\<lambda>s. s\<lparr>sendbuf := (sendbuf s)[0 := 128, 1 := 0]\<rparr>)) (\<lambda>_.
     cbind (cupd (\<lambda>s. s\<lparr>sendbuf := put16 4 (word_of_int (pid s)) (sendbuf s)\<rparr>)) (\<lambda>_.
     cbind (cupd (\<lambda>s. s\<lparr>sendbuf := put16 6 (ucast (nsent s)) (sendbuf s), nsent := nsent s + 1\<rparr>)) (\<lambda>_.
     cbind (cupd (\<lambda>s. s\<lparr>sendbuf := put_bytes 8 (replicate (datalen s) 0xA5) (sendbuf s)\<rparr>)) (\<lambda>_.
     cbind (Gettimeofday os) (\<lambda>tv.
     cbind (cupd (\<lambda>s. s\<lparr>sendbuf := put_time 8 tv (sendbuf s)\<rparr>)) (\<lambda>_.
     cbind (cget (\<lambda>s. 8 + datalen s)) (\<lambda>len.
     cbind (cget (\<lambda>s. s)) (\<lambda>s.
     Sendto os (sockfd s) (take len (sendbuf s)) 0 (sasend (pr s)) (salen (pr s))))))))))"

definition fsend :: "os \<Rightarrow> ('z ping_scheme, unit) cprog" where
  "fsend os = cbind (cget (\<lambda>s. fns (pr s))) (\<lambda>f. case f of Proto_v4 \<Rightarrow> send_v4 os | Proto_v6 \<Rightarrow> send_v6 os)"

definition sig_alrm :: "os \<Rightarrow> ('z ping_scheme, unit) cprog" where
  "sig_alrm os = cbind (fsend os) (\<lambda>_. cbind (call os (C_lib ''alarm'' [V_int 1])) (\<lambda>_. creturn ()))"

section \<open>Receiving\<close>

text \<open>\<open>ptr\<close> is the whole receive buffer and \<open>len\<close> the number of bytes received into it.\<close>

definition proc_v4 :: "os \<Rightarrow> byte list \<Rightarrow> int \<Rightarrow> int \<times> int \<Rightarrow> ('z ping_scheme, unit) cprog" where
  "proc_v4 os ptr len tvrecv =
     cbind (cget (\<lambda>s. s)) (\<lambda>s.
     let hlen1 = get8 0 ptr mod 16 * 4; icmp = drop hlen1 ptr; icmplen = len - int hlen1 in
     if int (get8 9 ptr) \<noteq> IPPROTO_ICMP then creturn ()
     else if icmplen < 8 then creturn ()
     else if get8 0 icmp = 0 then
       if uint (get16 4 icmp) \<noteq> pid s then creturn ()
       else if icmplen < 16 then creturn ()
       else let rtt = tv_sub tvrecv (get_time 8 icmp) in
            cbind (Sock_ntop_host os (sarecv (pr s)) (salen (pr s))) (\<lambda>h.
            cbind (call os (C_lib ''printf'' [V_str (''%d bytes from %s: seq=%u, ttl=%d, rtt=%.3f ms'' @ [CHR 0x0A]),
              V_int icmplen, V_str h, V_int (uint (get16 6 icmp)), V_int (int (get8 8 ptr)), V_time (fst rtt) (snd rtt)])) (\<lambda>_.
            creturn ()))
     else if verbose s \<noteq> 0 then
       cbind (Sock_ntop_host os (sarecv (pr s)) (salen (pr s))) (\<lambda>h.
       cbind (call os (C_lib ''printf'' [V_str (''  %d bytes from %s: type = %d, code = %d'' @ [CHR 0x0A]),
         V_int icmplen, V_str h, V_int (int (get8 0 icmp)), V_int (int (get8 1 icmp))])) (\<lambda>_.
       creturn ()))
     else creturn ())"

text \<open>Control messages are triples of level, type and the number they carry.\<close>

definition hop_limit :: "(int \<times> int \<times> int) list \<Rightarrow> int" where
  "hop_limit cmsgs = (case find (\<lambda>(level, ty, v). level = IPPROTO_IPV6 \<and> ty = IPV6_HOPLIMIT) cmsgs of
     Some (_, _, v) \<Rightarrow> v | None \<Rightarrow> - 1)"

definition proc_v6 ::
    "os \<Rightarrow> byte list \<Rightarrow> int \<Rightarrow> (int \<times> int \<times> int) list \<Rightarrow> int \<times> int \<Rightarrow> ('z ping_scheme, unit) cprog" where
  "proc_v6 os ptr len cmsgs tvrecv =
     cbind (cget (\<lambda>s. s)) (\<lambda>s.
     if len < 8 then creturn ()
     else if get8 0 ptr = 129 then
       if uint (get16 4 ptr) \<noteq> pid s then creturn ()
       else if len < 16 then creturn ()
       else let rtt = tv_sub tvrecv (get_time 8 ptr); hlim = hop_limit cmsgs in
            cbind (Sock_ntop_host os (sarecv (pr s)) (salen (pr s))) (\<lambda>h.
            cbind (call os (C_lib ''printf'' [V_str ''%d bytes from %s: seq=%u, hlim='', V_int len, V_str h,
              V_int (uint (get16 6 ptr))])) (\<lambda>_.
            cbind (if hlim = - 1 then call os (C_lib ''printf'' [V_str ''???''])
                   else call os (C_lib ''printf'' [V_str ''%d'', V_int hlim])) (\<lambda>_.
            cbind (call os (C_lib ''printf'' [V_str ('', rtt=%.3f ms'' @ [CHR 0x0A]), V_time (fst rtt) (snd rtt)])) (\<lambda>_.
            creturn ()))))
     else if verbose s \<noteq> 0 then
       cbind (Sock_ntop_host os (sarecv (pr s)) (salen (pr s))) (\<lambda>h.
       cbind (call os (C_lib ''printf'' [V_str (''  %d bytes from %s: type = %d, code = %d'' @ [CHR 0x0A]),
         V_int len, V_str h, V_int (int (get8 0 ptr)), V_int (int (get8 1 ptr))])) (\<lambda>_.
       creturn ()))
     else creturn ())"

definition init_v6 :: "os \<Rightarrow> ('z ping_scheme, unit) cprog" where
  "init_v6 os =
     cbind (cget (\<lambda>s. s)) (\<lambda>s.
     cbind (if verbose s = 0 then call os (C_setsockopt (sockfd s) IPPROTO_IPV6 ICMP6_FILTER (filter_passing [129]))
            else creturn (ok 0)) (\<lambda>_.
     cbind (call os (C_setsockopt (sockfd s) IPPROTO_IPV6 IPV6_RECVHOPLIMIT (le_bytes 4 1))) (\<lambda>_. creturn ())))"

text \<open>What \<open>recvmsg\<close> stores: the data, the address of the sender and the control messages.\<close>

definition out_cmsgs :: "sysret \<Rightarrow> (int \<times> int \<times> int) list" where
  "out_cmsgs r = concat (map (\<lambda>v. case v of V_ints [level, ty, val] \<Rightarrow> [(level, ty, val)] | _ \<Rightarrow> []) (drop 2 (outs r)))"

definition out_sender :: "sysret \<Rightarrow> sockaddr option" where
  "out_sender r = (case outs r of _ # V_addr a # _ \<Rightarrow> Some a | _ \<Rightarrow> None)"

definition readloop_body :: "os \<Rightarrow> byte list \<Rightarrow> ('z ping_scheme, byte list) cprog" where
  "readloop_body os recvbuf =
     cbind (cget (\<lambda>s. s)) (\<lambda>s.
     cbind (call os (C_lib ''recvmsg'' [V_int (sockfd s), V_int 0, V_int (int BUFSIZE), V_int (int (salen (pr s))), V_int (int BUFSIZE)])) (\<lambda>r.
     if rv r < 0 then
       cbind (cget errno) (\<lambda>e. if e = EINTR then creturn recvbuf else err_sys os ''recvmsg error'')
     else
       let recvbuf = put_bytes 0 (take (nat (rv r)) (out_bytes r)) recvbuf in
       cbind (cupd (\<lambda>s. s\<lparr>pr := pr s\<lparr>sarecv := (case out_sender r of Some a \<Rightarrow> a | None \<Rightarrow> sarecv (pr s))\<rparr>\<rparr>)) (\<lambda>_.
       cbind (Gettimeofday os) (\<lambda>tval.
       cbind (case fns (pr s) of
                Proto_v4 \<Rightarrow> proc_v4 os recvbuf (rv r) tval
              | Proto_v6 \<Rightarrow> proc_v6 os recvbuf (rv r) (out_cmsgs r) tval) (\<lambda>_.
       creturn recvbuf)))))"

partial_function (option) readloop_for :: "os \<Rightarrow> byte list \<Rightarrow> 'z ping_scheme \<Rightarrow> (unit outcome \<times> 'z ping_scheme) option" where
  "readloop_for os recvbuf s = cbind (readloop_body os recvbuf) (\<lambda>recvbuf. readloop_for os recvbuf) s"

text \<open>\<open>readloop\<close> up to its loop; \<open>junk\<close> is what the automatic array \<open>recvbuf\<close> holds at the start.\<close>

definition readloop_start :: "os \<Rightarrow> ('z ping_scheme, unit) cprog" where
  "readloop_start os =
     cbind (cget pr) (\<lambda>p.
     cbind (Socket os (sa_family (sasend p)) SOCK_RAW (icmpproto p)) (\<lambda>fd.
     cbind (cupd (\<lambda>s. s\<lparr>sockfd := fd\<rparr>)) (\<lambda>_.
     cbind (call os (C_lib ''getuid'' [])) (\<lambda>u.
     cbind (call os (C_lib ''setuid'' [V_int (rv u)])) (\<lambda>_.
     cbind (case fns p of Proto_v4 \<Rightarrow> creturn () | Proto_v6 \<Rightarrow> init_v6 os) (\<lambda>_.
     cbind (call os (C_setsockopt fd SOL_SOCKET SO_RCVBUF (le_bytes 4 (60 * 1024)))) (\<lambda>_.
     sig_alrm os)))))))"

definition readloop :: "os \<Rightarrow> byte list \<Rightarrow> ('z ping_scheme, unit) cprog" where
  "readloop os junk = cbind (readloop_start os) (\<lambda>_. readloop_for os junk)"

section \<open>The program\<close>

text \<open>\<open>getopt\<close> returns the next option character, and \<open>optind\<close> with it; the loop ends at -1.\<close>

partial_function (option) main_options :: "os \<Rightarrow> 'z ping_scheme \<Rightarrow> (int outcome \<times> 'z ping_scheme) option" where
  "main_options os s =
     cbind (call os (C_lib ''getopt'' [V_str ''v''])) (\<lambda>r.
     if rv r = - 1 then creturn (out_int r)
     else if rv r = of_char CHR ''v'' then cbind (cupd (\<lambda>s. s\<lparr>verbose := verbose s + 1\<rparr>)) (\<lambda>_. main_options os)
     else if rv r = of_char CHR ''?'' then err_quit os (''unrecognized option: '' @ ''?'')
     else main_options os) s"

text \<open>\<open>handler\<close> is the address of \<open>sig_alrm\<close>; \<open>calloc\<close> gives memory of zero bytes.\<close>

definition ping_main :: "os \<Rightarrow> int \<Rightarrow> string list \<Rightarrow> byte list \<Rightarrow> ('z ping_scheme, unit) cprog" where
  "ping_main os handler argv junk =
     cbind (main_options os) (\<lambda>optind.
     if optind \<noteq> int (length argv) - 1 then err_quit os ''usage: ping [ -v ] <hostname>''
     else
     let host = argv ! nat optind in
     cbind (call os (C_lib ''getpid'' [])) (\<lambda>p.
     cbind (cupd (\<lambda>s. s\<lparr>pid := rv p AND 0xFFFF\<rparr>)) (\<lambda>_.
     cbind (Signal os SIGALRM handler) (\<lambda>_.
     cbind (Host_serv os (Some host) None 0 0) (\<lambda>ais.
     let ai = hd ais in
     cbind (Sock_ntop_host os (ai_addr ai) (ai_addrlen ai)) (\<lambda>h.
     cbind (cget datalen) (\<lambda>n.
     cbind (call os (C_lib ''printf'' [V_str (''PING %s (%s): %d data bytes'' @ [CHR 0x0A]),
       V_str (case ai_canonname ai of Some c \<Rightarrow> c | None \<Rightarrow> h), V_str h, V_int (int n)])) (\<lambda>_.
     cbind (if ai_family ai = AF_INET then creturn (Proto_v4, IPPROTO_ICMP)
            else if ai_family ai = AF_INET6 then
              if v4mapped (ai_addr ai) then err_quit os ''cannot ping IPv4-mapped IPv6 address''
              else creturn (Proto_v6, IPPROTO_ICMPV6)
            else err_quit os (''unknown address family '' @ print_int (ai_family ai))) (\<lambda>(f, proto).
     cbind (Calloc os 1 (ai_addrlen ai)) (\<lambda>_.
     cbind (cupd (\<lambda>s. s\<lparr>pr := \<lparr>fns = f, sasend = ai_addr ai, sarecv = Sockaddr_other 0 (replicate (ai_addrlen ai - 2) 0), salen = ai_addrlen ai, icmpproto = proto\<rparr>\<rparr>)) (\<lambda>_.
     cbind (readloop os junk) (\<lambda>_.
     cexit 0))))))))))))"

section \<open>What is sent\<close>

lemma ping_after [simp]:
  "sendbuf (after os c s) = sendbuf s" "datalen (after os c s) = datalen s" "nsent (after os c s) = nsent s"
  "pid (after os c s) = pid s" "sockfd (after os c s) = sockfd s" "verbose (after os c s) = verbose s" "pr (after os c s) = pr s"
  by (simp_all add: after_def)

definition request_ok :: "int \<Rightarrow> nat \<Rightarrow> byte list \<Rightarrow> bool" where
  "request_ok p k bs \<longleftrightarrow> length bs = 64 \<and> get8 0 bs = 8 \<and> get8 1 bs = 0 \<and> get16 4 bs = word_of_int p \<and>
     get16 6 bs = of_nat k \<and> in_cksum bs = 0"

text \<open>The buffer that is sent at time \<open>tv\<close>.\<close>

definition request :: "'z ping_scheme \<Rightarrow> int \<times> int \<Rightarrow> byte list" where
  "request s tv =
     (let buf = put16 2 0 (put_time 8 tv (put_bytes 8 (replicate (datalen s) 0xA5) (put16 6 (ucast (nsent s))
        (put16 4 (word_of_int (pid s)) ((sendbuf s)[0 := 8, 1 := 0])))))
      in put16 2 (in_cksum (take (8 + datalen s) buf)) buf)"

lemma send_v4_run:
  "send_v4 os s =
     (let r = os (calls s) C_gettimeofday; s1 = s\<lparr>nsent := nsent s + 1, sendbuf := put_bytes 8 (replicate (datalen s) 0xA5)
        (put16 6 (ucast (nsent s)) (put16 4 (word_of_int (pid s)) ((sendbuf s)[0 := 8, 1 := 0])))\<rparr> in
      if rv r = - 1 then err_sys os ''gettimeofday error'' (after os C_gettimeofday s1)
      else Sendto os (sockfd s) (take (8 + datalen s) (request s (out_time r))) 0 (sasend (pr s)) (salen (pr s))
        ((after os C_gettimeofday s1)\<lparr>sendbuf := request s (out_time r)\<rparr>))"
  by (simp add: send_v4_def Gettimeofday_def request_def Let_def)

lemma request_ok_request:
  assumes "length (sendbuf s) = BUFSIZE" and "datalen s = 56"
  shows "request_ok (pid s) (unat (nsent s)) (take 64 (request s tv))" and "length (request s tv) = BUFSIZE"
proof -
  define buf where "buf = put16 2 0 (put_time 8 tv (put_bytes 8 (replicate (datalen s) 0xA5) (put16 6 (ucast (nsent s))
        (put16 4 (word_of_int (pid s)) ((sendbuf s)[0 := 8, 1 := 0])))))"
  have r: "request s tv = put16 2 (in_cksum (take 64 buf)) buf" using assms(2) by (simp add: request_def buf_def Let_def)
  have len: "length buf = BUFSIZE" "get16 2 buf = 0"
    using assms by (simp_all add: buf_def BUFSIZE_def put_time_def packet_simps)
  have f: "get8 0 buf = 8" "get8 1 buf = 0" "get16 4 buf = word_of_int (pid s)" "get16 6 buf = ucast (nsent s)"
    using assms by (simp_all add: buf_def BUFSIZE_def put_time_def packet_simps)
  have "take 64 (request s tv) = put16 2 (in_cksum (take 64 buf)) (take 64 buf)"
    using len by (simp add: r put16_def BUFSIZE_def take_put)
  moreover have "in_cksum (put16 2 (in_cksum (take 64 buf)) (take 64 buf)) = 0"
    using len by (intro in_cksum_filled) (simp_all add: BUFSIZE_def get16_def slice_take)
  ultimately show "request_ok (pid s) (unat (nsent s)) (take 64 (request s tv))"
    using f len by (simp add: request_ok_def BUFSIZE_def packet_simps)
  show "length (request s tv) = BUFSIZE" using len by (simp add: r put16_def BUFSIZE_def)
qed

lemma request_time:
  assumes "length (sendbuf s) = BUFSIZE" and "datalen s = 56"
    and "- (2 ^ 63) \<le> fst tv" "fst tv < 2 ^ 63" "- (2 ^ 63) \<le> snd tv" "snd tv < 2 ^ 63"
  shows "get_time 8 (request s tv) = tv"
proof -
  define buf where "buf = put_bytes 8 (replicate (datalen s) 0xA5) (put16 6 (ucast (nsent s))
        (put16 4 (word_of_int (pid s)) ((sendbuf s)[0 := 8, 1 := 0])))"
  have len: "length buf = BUFSIZE" "length (put_time 8 tv buf) = BUFSIZE"
    using assms(1,2) by (simp_all add: buf_def put_time_def packet_simps BUFSIZE_def)
  have "get_time 8 (request s tv) = get_time 8 (put_time 8 tv buf)"
    using len unfolding request_def Let_def buf_def[symmetric]
    by (simp add: get_time_def packet_simps BUFSIZE_def)
  also have "\<dots> = tv" by (rule get_put_time) (use len assms in \<open>simp_all add: BUFSIZE_def\<close>)
  finally show ?thesis .
qed

text \<open>The datagrams handed to \<open>sendto\<close> and accepted.\<close>

definition requests :: "hist \<Rightarrow> byte list list" where
  "requests h = concat (map (\<lambda>(c, r). case c of C_sendto _ bs _ _ _ \<Rightarrow> if rv r = int (length bs) then [bs] else [] | _ \<Rightarrow> []) h)"

lemma requests_append [simp]: "requests (h @ k) = requests h @ requests k"
  by (simp add: requests_def)

lemma requests_other [simp]: "(\<forall>fd bs fl sa n. c \<noteq> C_sendto fd bs fl sa n) \<Longrightarrow> requests [(c, r)] = []"
  by (cases c) (simp_all add: requests_def)

definition pinging :: "int \<Rightarrow> 'z ping_scheme \<Rightarrow> bool" where
  "pinging p s \<longleftrightarrow> length (sendbuf s) = BUFSIZE \<and> datalen s = 56 \<and> fns (pr s) = Proto_v4 \<and> pid s = p \<and>
     nsent s = of_nat (length (requests (calls s))) \<and>
     (\<forall>k < length (requests (calls s)). request_ok p k (requests (calls s) ! k))"

lemma pinging_after: "pinging p s \<Longrightarrow> (\<forall>fd bs fl sa n. c \<noteq> C_sendto fd bs fl sa n) \<Longrightarrow> pinging p (after os c s)"
  by (simp add: pinging_def)

lemma request_ok_of_nat: "request_ok p (unat (of_nat k :: u32)) bs \<Longrightarrow> request_ok p k bs"
proof -
  have "(ucast (of_nat k :: u32) :: u16) = of_nat k" by (simp add: word_unat_eq_iff unsigned_ucast_eq unsigned_of_nat)
  then show "request_ok p (unat (of_nat k :: u32)) bs \<Longrightarrow> request_ok p k bs" by (simp add: request_ok_def)
qed

lemma pinging_send_v4: "keeps (pinging p) (send_v4 os)"
proof (rule keepsI)
  fix s :: "'z ping_scheme"
  assume J: "pinging p s"
  let ?r = "os (calls s) C_gettimeofday"
  let ?p = "take 64 (request s (out_time ?r))"
  have ok: "request_ok p (length (requests (calls s))) ?p" "length (request s (out_time ?r)) = BUFSIZE"
    using request_ok_request[of s "out_time ?r"] J by (auto simp: pinging_def intro: request_ok_of_nat)
  then have "length ?p = 64" by (simp add: request_ok_def)
  with J ok show "wp (send_v4 os) (\<lambda>r t. case r of Ret _ \<Rightarrow> pinging p t | Exit n \<Rightarrow> n = 1 | Abort \<Rightarrow> False) s"
    by (auto simp: wp_def send_v4_run Let_def Sendto_def pinging_def requests_def nth_append less_Suc_eq)
qed

lemma keeps_Sock_ntop_host: "(\<And>s e. J s \<Longrightarrow> J (s\<lparr>errno := e\<rparr>)) \<Longrightarrow> keeps J (Sock_ntop_host os sa n)"
  unfolding Sock_ntop_host_def set_errno_def by (auto split: sum.split)

lemma keeps_Gettimeofday: "(\<And>s. J s \<Longrightarrow> J (after os C_gettimeofday s)) \<Longrightarrow> keeps J (Gettimeofday os)"
  unfolding Gettimeofday_def by auto

lemma pinging_errno: "pinging p s \<Longrightarrow> pinging p (s\<lparr>errno := e\<rparr>)"
  by (simp add: pinging_def)

lemma pinging_proc: "keeps (pinging p) (proc_v4 os ptr len tv)" "keeps (pinging p) (proc_v6 os ptr len cmsgs tv)"
  unfolding proc_v4_def proc_v6_def
  by (auto simp: Let_def intro!: keeps_bind keeps_if keeps_call keeps_Sock_ntop_host pinging_after pinging_errno)

lemma pinging_readloop_body: "keeps (pinging p) (readloop_body os b)"
  unfolding readloop_body_def Let_def
  by (auto intro!: keeps_bind keeps_if keeps_call keeps_upd keeps_Gettimeofday pinging_after pinging_proc
      simp: pinging_def split: proto_fns.split)

lemma pinging_fsend: "keeps (pinging p) (fsend os)"
proof (rule keepsI)
  fix s :: "'z ping_scheme"
  assume J: "pinging p s"
  then have "fns (pr s) = Proto_v4" by (simp add: pinging_def)
  with keepsD[OF pinging_send_v4 J] show "wp (fsend os) (\<lambda>r t. case r of Ret _ \<Rightarrow> pinging p t | Exit n \<Rightarrow> n = 1 | Abort \<Rightarrow> False) s"
    by (simp add: fsend_def wp_bind wp_cget)
qed

lemma pinging_sig_alrm: "keeps (pinging p) (sig_alrm os)"
  unfolding sig_alrm_def by (intro keeps_bind pinging_fsend keeps_call keeps_return pinging_after) simp_all

lemma pinging_readloop_start: "keeps (pinging p) (readloop_start os)"
  unfolding readloop_start_def init_v6_def Socket_def
  by (auto intro!: keeps_bind keeps_call keeps_upd keeps_if pinging_sig_alrm pinging_after split: proto_fns.split)
    (simp add: pinging_def)

section \<open>The receive loop and the alarm\<close>

text \<open>One pass of the receive loop, or one run of the alarm handler. The handler writes \<open>sendbuf\<close> and
  \<open>nsent\<close>, which the loop does not use, and the loop reads \<open>errno\<close> only right after its call.\<close>

inductive ping_step :: "os \<Rightarrow> byte list \<times> 'z ping_scheme \<Rightarrow> byte list \<times> 'z ping_scheme \<Rightarrow> bool" for os where
  receive: "readloop_body os b s = Some (Ret b', t) \<Longrightarrow> ping_step os (b, s) (b', t)"
| alarm: "sig_alrm os s = Some (Ret (), t) \<Longrightarrow> ping_step os (b, s) (b, t)"

lemma keeps_run: "keeps J m \<Longrightarrow> J s \<Longrightarrow> m s = Some (Ret a, t) \<Longrightarrow> J t"
  by (drule (1) keepsD) (auto simp: wp_def)

lemma pinging_step: "ping_step os x y \<Longrightarrow> pinging p (snd x) \<Longrightarrow> pinging p (snd y)"
  by (induction rule: ping_step.induct)
    (auto intro: keeps_run[OF pinging_readloop_body] keeps_run[OF pinging_sig_alrm])

lemma pinging_steps: "(ping_step os)\<^sup>*\<^sup>* x y \<Longrightarrow> pinging p (snd x) \<Longrightarrow> pinging p (snd y)"
  by (induction rule: rtranclp_induct) (auto intro: pinging_step)

text \<open>
  C31. Every packet ping sends over IPv4, first or later and however receiving and the alarm interleave,
  is an echo request of 64 bytes with the identifier of the process and a checksum that verifies, and the
  sequence numbers count from 0 without gap or repetition (modulo 65536).
\<close>

theorem ping_requests_ok:
  assumes "length (sendbuf s) = BUFSIZE" "datalen s = 56" "fns (pr s) = Proto_v4" "nsent s = 0" "calls s = []"
    and "readloop_start os s = Some (Ret (), s0)" and "(ping_step os)\<^sup>*\<^sup>* (junk, s0) (b, t)"
    and "k < length (requests (calls t))"
  shows "request_ok (pid s) k (requests (calls t) ! k)"
proof -
  have "pinging (pid s) s" using assms(1-5) by (simp add: pinging_def requests_def)
  then have "pinging (pid s) s0" by (rule keeps_run[OF pinging_readloop_start _ assms(6)])
  with pinging_steps[OF assms(7)] have "pinging (pid s) t" by simp
  with assms(8) show ?thesis by (simp add: pinging_def)
qed

section \<open>What is reported\<close>

text \<open>An answer as the network delivers it: an IP header of 20 bytes, the request with the type changed to
  echo reply and the checksum adjusted, and what the buffer held behind it.\<close>

definition echo_reply :: "byte list \<Rightarrow> byte list \<Rightarrow> byte list \<Rightarrow> byte list" where
  "echo_reply iphdr req old = iphdr @ (put16 2 (in_cksum (put16 2 0 (req[0 := 0]))) (req[0 := 0])) @ old"

text \<open>
  C30. A reply to one of its requests is reported with the request's sequence number and the time from
  sending to receiving: \<open>proc_v4\<close> prints exactly one line, with the length of the ICMP message, the
  sender, the sequence number, the time to live of the packet and the difference of the two times.
\<close>

theorem ping_reply_reported:
  fixes s :: "'z ping_scheme" and u :: "'y ping_scheme"
  assumes "length (sendbuf s) = BUFSIZE" "datalen s = 56"
    and "- (2 ^ 63) \<le> fst tv" "fst tv < 2 ^ 63" "- (2 ^ 63) \<le> snd tv" "snd tv < 2 ^ 63"
    and "pid s = pid u" "0 \<le> pid u" "pid u < 65536"
    and "length iphdr = 20" "iphdr ! 0 = 0x45" "iphdr ! 9 = 1"
    and "sock_ntop_host (sarecv (pr u)) (salen (pr u)) = Inr h"
  shows "proc_v4 os (echo_reply iphdr (take 64 (request s tv)) old) 84 tvrecv u =
    Some (Ret (), after os (C_lib ''printf'' [V_str (''%d bytes from %s: seq=%u, ttl=%d, rtt=%.3f ms'' @ [CHR 0x0A]),
      V_int 64, V_str h, V_int (uint (ucast (nsent s) :: u16)), V_int (int (get8 8 iphdr)),
      V_time (fst (tv_sub tvrecv tv)) (snd (tv_sub tvrecv tv))]) u)"
proof -
  let ?req = "take 64 (request s tv)"
  define rep where "rep = put16 2 (in_cksum (put16 2 0 (?req[0 := 0]))) (?req[0 := 0])"
  have req: "request_ok (pid s) (unat (nsent s)) ?req" "length (request s tv) = BUFSIZE"
    by (rule request_ok_request[OF assms(1,2)])+
  then have len: "length ?req = 64" "length rep = 64" by (simp_all add: rep_def packet_simps BUFSIZE_def)
  have rep: "get8 0 (rep @ old) = 0" "get16 4 (rep @ old) = get16 4 ?req" "get16 6 (rep @ old) = get16 6 ?req"
    "get_time 8 (rep @ old) = get_time 8 (request s tv)"
    using len req(2) by (simp_all add: rep_def get_time_def packet_simps nth_append slice_append)
  have time: "get_time 8 (rep @ old) = tv" using rep(4) request_time[OF assms(1-6)] by simp
  have pid: "uint (get16 4 (rep @ old)) = pid u" and seq: "get16 6 (rep @ old) = ucast (nsent s)"
    using req(1) assms(7-9) by (simp_all add: rep request_ok_def uint_word_of_int_eq take_bit_eq_mod)
  have ip: "get8 0 (iphdr @ rep @ old) = 0x45" "get8 9 (iphdr @ rep @ old) = 1" "get8 8 (iphdr @ rep @ old) = get8 8 iphdr"
    "drop 20 (iphdr @ rep @ old) = rep @ old"
    using assms(10-12) by (simp_all add: get8_def nth_append)
  show ?thesis
    unfolding echo_reply_def rep_def[symmetric]
    by (simp add: proc_v4_def Let_def ip rep(1) pid seq time Sock_ntop_host_def assms(10,13))
qed

text \<open>A concrete process and kernel.\<close>

definition ping0 :: ping where
  "ping0 = \<lparr>errno = 0, daemon_proc = 0, calls = [], sendbuf = replicate 1500 0, datalen = 56, nsent = 0, pid = 77, sockfd = 0,
     verbose = 0, pr = \<lparr>fns = Proto_v4, sasend = Sockaddr_in 0 [10, 0, 0, 1], sarecv = Sockaddr_un [], salen = 16, icmpproto = 1\<rparr>\<rparr>"

definition ping_os :: os where
  "ping_os h c = (case c of C_sendto _ bs _ _ _ \<Rightarrow> ok (int (length bs))
     | C_gettimeofday \<Rightarrow> \<lparr>rv = 0, err = None, outs = [V_time 1 2]\<rparr> | _ \<Rightarrow> ok 3)"

theorem ping_requests_ok_witness:
  "\<exists>t. readloop_start ping_os ping0 = Some (Ret (), t) \<and> length (requests (calls t)) = 1 \<and> request_ok 77 0 (requests (calls t) ! 0)"
proof -
  have "\<exists>t. readloop_start ping_os ping0 = Some (Ret (), t) \<and> length (requests (calls t)) = 1"
    by (simp add: readloop_start_def Socket_def sig_alrm_def fsend_def send_v4_run Sendto_def ping_os_def ping0_def
        requests_def ok_def Let_def)
  then obtain t where t: "readloop_start ping_os ping0 = Some (Ret (), t)" "length (requests (calls t)) = 1" by blast
  from ping_requests_ok[OF _ _ _ _ _ t(1) rtranclp.rtrancl_refl, of 0] t show ?thesis by (simp add: ping0_def BUFSIZE_def)
qed

theorem ping_reply_reported_witness:
  "proc_v4 ping_os (echo_reply [0x45, 0, 0, 0, 0, 0, 0, 0, 64, 1, 0, 0, 0, 0, 0, 0, 0, 0, 0, 0] (take 64 (request ping0 (5, 999000))) []) 84 (6, 1000) ping0
    = Some (Ret (), after ping_os (C_lib ''printf'' [V_str (''%d bytes from %s: seq=%u, ttl=%d, rtt=%.3f ms'' @ [CHR 0x0A]),
      V_int 64, V_str ''(no pathname bound)'', V_int 0, V_int 64, V_time 0 2000]) ping0)"
  using ping_reply_reported[of ping0 "(5, 999000)" ping0 "[0x45, 0, 0, 0, 0, 0, 0, 0, 64, 1, 0, 0, 0, 0, 0, 0, 0, 0, 0, 0]" "''(no pathname bound)''" ping_os "[]" "(6, 1000)"]
  by (simp add: ping0_def BUFSIZE_def get8_def)

text \<open>
  The length check of \<open>proc_v4\<close> is for a \<open>struct timeval\<close> of 8 bytes: a reply with 8 bytes of data
  is reported with microseconds taken from the 8 bytes of the buffer behind the received packet, whatever
  an earlier packet left there.
\<close>

theorem ping_rtt_stale:
  fixes u :: "'z ping_scheme" and tvrecv :: "int \<times> int"
  assumes "44 \<le> length buf" "get8 0 buf = 0x45" "get8 9 buf = 1" "get8 20 buf = 0" "uint (get16 24 buf) = pid u"
    and "sock_ntop_host (sarecv (pr u)) (salen (pr u)) = Inr h"
  defines "stale \<equiv> \<lambda>w. put64 36 w buf" and "rtt \<equiv> \<lambda>w. tv_sub tvrecv (sint (get64 28 buf), sint w)"
  shows "take 36 (stale w) = take 36 buf \<and>
    proc_v4 os (stale w) 36 tvrecv u = Some (Ret (), after os
      (C_lib ''printf'' [V_str (''%d bytes from %s: seq=%u, ttl=%d, rtt=%.3f ms'' @ [CHR 0x0A]),
        V_int 16, V_str h, V_int (uint (get16 26 buf)), V_int (int (get8 8 buf)), V_time (fst (rtt w)) (snd (rtt w))]) u)"
proof
  have f: "get8 k (put64 36 w buf) = get8 k buf" if "k < 36" for k
    using assms(1) that by (simp add: packet_simps)
  have g: "get8 0 (drop 20 (put64 36 w buf)) = get8 20 buf" "get16 4 (drop 20 (put64 36 w buf)) = get16 24 buf"
    "get16 6 (drop 20 (put64 36 w buf)) = get16 26 buf" "get_time 8 (drop 20 (put64 36 w buf)) = (sint (get64 28 buf), sint w)"
    using assms(1) by (simp_all add: packet_simps get_time_def)
  show "take 36 (stale w) = take 36 buf" using assms(1) by (simp add: stale_def put64_def take_put_bytes)
  show "proc_v4 os (stale w) 36 tvrecv u = Some (Ret (), after os
      (C_lib ''printf'' [V_str (''%d bytes from %s: seq=%u, ttl=%d, rtt=%.3f ms'' @ [CHR 0x0A]),
        V_int 16, V_str h, V_int (uint (get16 26 buf)), V_int (int (get8 8 buf)), V_time (fst (rtt w)) (snd (rtt w))]) u)"
    using assms(2-6) by (simp add: proc_v4_def Let_def f g stale_def rtt_def Sock_ntop_host_def)
qed

definition short_reply :: "byte list" where
  "short_reply = [0x45, 0, 0, 0, 0, 0, 0, 0, 64, 1] @ replicate 14 0 @ [77] @ replicate 19 0"

theorem ping_rtt_stale_witness:
  "proc_v4 ping_os (put64 36 5 short_reply) 36 (1, 9) ping0 = Some (Ret (), after ping_os
      (C_lib ''printf'' [V_str (''%d bytes from %s: seq=%u, ttl=%d, rtt=%.3f ms'' @ [CHR 0x0A]),
        V_int 16, V_str ''(no pathname bound)'', V_int 0, V_int 64, V_time 1 4]) ping0)"
proof -
  have "slice 28 8 short_reply = [0, 0, 0, 0, 0, 0, 0, 0]" "slice 24 2 short_reply = [77, 0]" "slice 26 2 short_reply = [0, 0]"
    by (simp_all add: short_reply_def numeral_eq_Suc)
  then have f: "get64 28 short_reply = 0" "get16 24 short_reply = 77" "get16 26 short_reply = 0" "get8 8 short_reply = 64"
    "get8 0 short_reply = 0x45" "get8 9 short_reply = 1" "get8 20 short_reply = 0" "length short_reply = 44"
    by (simp_all add: get64_def get16_def get8_def short_reply_def nth_append)
  show ?thesis
    using ping_rtt_stale[of short_reply ping0 "''(no pathname bound)''" 5 ping_os "(1, 9)"] by (simp add: f ping0_def)
qed

end
