(* ===== verification/Trace.thy ===== *)
theory Trace
  imports Echo Packet
begin

text \<open>
  The traceroute program of traceroute/: \<open>main\<close>, \<open>traceloop\<close>, the receivers \<open>recv_v4\<close> and \<open>recv_v6\<close>, the
  texts of ICMP codes and the alarm handler. The globals of trace.h extend the state of the process. The
  handler runs when the alarm interrupts \<open>recvfrom\<close>, which then fails with \<open>EINTR\<close>; no other signal has a
  handler. What a receiver does with one packet is \<open>examine_v4\<close> or \<open>examine_v6\<close>. In the arguments of
  \<open>printf\<close> a time stands for the floating-point number of milliseconds computed from it.
\<close>

section \<open>State\<close>

datatype trace_fns = Trace_v4 | Trace_v6

record trace_proto =
  tfns :: trace_fns
  tsasend :: sockaddr
  tsarecv :: sockaddr
  tsalast :: sockaddr
  tsabind :: sockaddr
  tsalen :: nat
  ticmpproto :: int
  ttllevel :: int
  ttloptname :: int

record trace = proc +
  recvbuf :: "byte list"
  probebuf :: "byte list"
  sport :: u16
  dport :: u16
  max_ttl :: int
  nprobes :: nat
  sendfd :: int
  recvfd :: int
  trace_verbose :: int
  gotalarm :: int
  tpr :: trace_proto

abbreviation (input) IP_TTL :: int where "IP_TTL \<equiv> 2"
abbreviation (input) IPV6_UNICAST_HOPS :: int where "IPV6_UNICAST_HOPS \<equiv> 16"

definition TBUFSIZE :: nat where "TBUFSIZE = 1500"

text \<open>\<open>sizeof(struct rec)\<close>: two 16-bit numbers, padding and a \<open>struct timeval\<close>.\<close>

definition rec_size :: nat where "rec_size = 24"

definition trace_alrm :: "('z trace_scheme, unit) cprog" where
  "trace_alrm = cupd (\<lambda>s. s\<lparr>gotalarm := 1\<rparr>)"

section \<open>ICMP codes\<close>

definition icmpcode_v4 :: "int \<Rightarrow> string" where
  "icmpcode_v4 code =
     (if code = 0 then ''network unreachable''
      else if code = 1 then ''host unreachable''
      else if code = 2 then ''protocol unreachable''
      else if code = 3 then ''port unreachable''
      else if code = 4 then ''fragmentation required but DF bit set''
      else if code = 5 then ''source route failed''
      else if code = 6 then ''destination network unknown''
      else if code = 7 then ''destination host unknown''
      else if code = 8 then ''source host isolated (obsolete)''
      else if code = 9 then ''destination network administratively prohibited''
      else if code = 10 then ''destination host administratively prohibited''
      else if code = 11 then ''network unreachable for TOS''
      else if code = 12 then ''host unreachable for TOS''
      else if code = 13 then ''communication administratively prohibited by filtering''
      else if code = 14 then ''host recedence violation''
      else if code = 15 then ''precedence cutoff in effect''
      else ''[unknown code '' @ print_int code @ '']'')"

definition icmpcode_v6 :: "int \<Rightarrow> string" where
  "icmpcode_v6 code =
     (if code = 0 then ''no route to host''
      else if code = 1 then ''administratively prohibited''
      else if code = 2 then ''not a neighbor''
      else if code = 3 then ''address unreachable''
      else if code = 4 then ''port unreachable''
      else ''[unknown code '' @ print_int code @ '']'')"

section \<open>One received packet\<close>

text \<open>\<open>Skip\<close>: not enough data, receive again. \<open>Other\<close>: some other message, printed when verbose. \<open>Stop ret\<close>:
  the loop ends, \<open>None\<close> when the variable \<open>ret\<close> was not assigned.\<close>

datatype verdict = Skip | Other | Stop "int option"

text \<open>\<open>hport\<close> is \<open>dport + seq\<close>.\<close>

definition examine_v4 :: "u16 \<Rightarrow> u16 \<Rightarrow> byte list \<Rightarrow> int \<Rightarrow> verdict" where
  "examine_v4 sp hport buf n =
     (let hlen1 = get8 0 buf mod 16 * 4; icmp = drop hlen1 buf; icmplen = n - int hlen1 in
      if icmplen < 8 then Skip
      else if get8 0 icmp = 11 \<and> get8 1 icmp = 0 then
        if icmplen < 8 + 20 then Skip
        else let hip = drop 8 icmp; hlen2 = get8 0 hip mod 16 * 4 in
             if icmplen < 8 + int hlen2 + 4 then Skip
             else let udp = drop hlen2 hip in
                  if get8 9 hip = 17 \<and> get16 0 udp = ntohs sp \<and> get16 2 udp = ntohs hport then Stop (Some (- 2))
                  else Other
      else if get8 0 icmp = 3 then
        if icmplen < 8 + 20 then Skip
        else let hip = drop 8 icmp; hlen2 = get8 0 hip mod 16 * 4 in
             if icmplen < 8 + int hlen2 + 4 then Skip
             else let udp = drop hlen2 hip in
                  if get8 9 hip = 17 \<and> get16 0 udp = ntohs sp \<and> get16 2 udp = ntohs hport then
                    if get8 1 icmp = 3 then Stop (Some (- 1)) else Stop (Some (int (get8 1 icmp)))
                  else Other
      else Other)"

definition examine_v6 :: "u16 \<Rightarrow> u16 \<Rightarrow> byte list \<Rightarrow> int \<Rightarrow> verdict" where
  "examine_v6 sp hport buf n =
     (if n < 8 then Skip
      else if get8 0 buf = 3 \<and> get8 1 buf = 0 then
        if n < 8 + 40 + 4 then Skip
        else let hip6 = drop 8 buf; udp = drop 40 hip6 in
             if get8 6 hip6 = 17 \<and> get16 0 udp = ntohs sp \<and> get16 2 udp = ntohs hport then Stop (Some (- 2))
             else Stop None
      else if get8 0 buf = 1 then
        if n < 8 + 40 + 4 then Skip
        else let hip6 = drop 8 buf; udp = drop 40 hip6 in
             if get8 6 hip6 = 17 \<and> get16 0 udp = ntohs sp \<and> get16 2 udp = ntohs hport then
               if get8 1 buf = 4 then Stop (Some (- 1)) else Stop (Some (int (get8 1 buf)))
             else Skip
      else Other)"

definition examine :: "trace_fns \<Rightarrow> u16 \<Rightarrow> u16 \<Rightarrow> byte list \<Rightarrow> int \<Rightarrow> verdict" where
  "examine f = (case f of Trace_v4 \<Rightarrow> examine_v4 | Trace_v6 \<Rightarrow> examine_v6)"

text \<open>Where the ICMP header is.\<close>

definition icmp_start :: "trace_fns \<Rightarrow> byte list \<Rightarrow> nat" where
  "icmp_start f buf = (case f of Trace_v4 \<Rightarrow> get8 0 buf mod 16 * 4 | Trace_v6 \<Rightarrow> 0)"

definition print_other :: "os \<Rightarrow> trace_fns \<Rightarrow> ('z trace_scheme, unit) cprog" where
  "print_other os f =
     cbind (cget (\<lambda>s. s)) (\<lambda>s.
     if trace_verbose s \<noteq> 0 then
       let icmp = drop (icmp_start f (recvbuf s)) (recvbuf s) in
       cbind (Sock_ntop_host os (tsarecv (tpr s)) (tsalen (tpr s))) (\<lambda>h.
       cbind (call os (C_lib ''printf'' [V_str ('' (from %s: type = %d, code = %d)'' @ [CHR 0x0A]), V_str h,
         V_int (int (get8 0 icmp)), V_int (int (get8 1 icmp))])) (\<lambda>_. creturn ()))
     else creturn ())"

section \<open>Receiving\<close>

text \<open>\<open>recvfrom\<close> into \<open>recvbuf\<close> and \<open>pr->sarecv\<close>.\<close>

definition store_packet :: "sysret \<Rightarrow> 'z trace_scheme \<Rightarrow> 'z trace_scheme" where
  "store_packet r s = s\<lparr>recvbuf := put_bytes 0 (take (nat (rv r)) (out_bytes r)) (recvbuf s),
     tpr := (tpr s)\<lparr>tsarecv := (case out_from r of Some (a, _) \<Rightarrow> a | None \<Rightarrow> tsarecv (tpr s))\<rparr>\<rparr>"

text \<open>The loop; -3 when the alarm expired, else what \<open>ret\<close> holds.\<close>

partial_function (option) recv_loop ::
    "os \<Rightarrow> trace_fns \<Rightarrow> int \<Rightarrow> 'z trace_scheme \<Rightarrow> (int option outcome \<times> 'z trace_scheme) option" where
  "recv_loop os f seq s =
     cbind (cget (\<lambda>s. s)) (\<lambda>s0.
     if gotalarm s0 \<noteq> 0 then creturn (Some (- 3))
     else cbind (call os (C_recvfrom (recvfd s0) TBUFSIZE 0)) (\<lambda>r.
     if rv r < 0 then
       cbind (cget errno) (\<lambda>e.
       if e = EINTR then cbind trace_alrm (\<lambda>_. recv_loop os f seq) else err_sys os ''recvfrom error'')
     else
       cbind (cupd (store_packet r)) (\<lambda>_.
       cbind (cget (\<lambda>s. examine f (sport s) (dport s + word_of_int seq) (recvbuf s) (rv r))) (\<lambda>v.
       if v = Skip then recv_loop os f seq
       else if v = Other then cbind (print_other os f) (\<lambda>_. recv_loop os f seq)
       else creturn (case v of Stop ret \<Rightarrow> ret | _ \<Rightarrow> None))))) s"

text \<open>\<open>uninit\<close> is what the automatic variable \<open>ret\<close> holds before it is assigned. The second component of the
  result is \<open>*tv\<close>, when it is stored.\<close>

definition recv_common :: "os \<Rightarrow> trace_fns \<Rightarrow> int \<Rightarrow> int \<Rightarrow> ('z trace_scheme, int \<times> (int \<times> int) option) cprog" where
  "recv_common os f uninit seq =
     cbind (cupd (\<lambda>s. s\<lparr>gotalarm := 0\<rparr>)) (\<lambda>_.
     cbind (call os (C_lib ''alarm'' [V_int 3])) (\<lambda>_.
     cbind (recv_loop os f seq) (\<lambda>ret.
     if ret = Some (- 3) then creturn (- 3, None)
     else cbind (call os (C_lib ''alarm'' [V_int 0])) (\<lambda>_.
          cbind (Gettimeofday os) (\<lambda>tv.
          creturn (case ret of Some c \<Rightarrow> c | None \<Rightarrow> uninit, Some tv))))))"

definition recv_v4 :: "os \<Rightarrow> int \<Rightarrow> int \<Rightarrow> ('z trace_scheme, int \<times> (int \<times> int) option) cprog" where
  "recv_v4 os uninit seq = recv_common os Trace_v4 uninit seq"

definition recv_v6 :: "os \<Rightarrow> int \<Rightarrow> int \<Rightarrow> ('z trace_scheme, int \<times> (int \<times> int) option) cprog" where
  "recv_v6 os uninit seq = recv_common os Trace_v6 uninit seq"

section \<open>Probes\<close>

definition icmpcode :: "trace_fns \<Rightarrow> int \<Rightarrow> string" where
  "icmpcode f = (case f of Trace_v4 \<Rightarrow> icmpcode_v4 | Trace_v6 \<Rightarrow> icmpcode_v6)"

text \<open>The structure \<open>rec\<close> at the start of \<open>sendbuf\<close>, and the port of the probe.\<close>

definition send_probe :: "os \<Rightarrow> int \<Rightarrow> int \<Rightarrow> ('z trace_scheme, int \<times> int) cprog" where
  "send_probe os ttl seq =
     cbind (cupd (\<lambda>s. s\<lparr>probebuf := put16 2 (word_of_int ttl) (put16 0 (word_of_int seq) (probebuf s))\<rparr>)) (\<lambda>_.
     cbind (Gettimeofday os) (\<lambda>tv.
     cbind (cupd (\<lambda>s. s\<lparr>probebuf := put_time 8 tv (probebuf s)\<rparr>)) (\<lambda>_.
     cbind (cupd (\<lambda>s. s\<lparr>tpr := (tpr s)\<lparr>tsasend :=
       sock_set_port (tsasend (tpr s)) (tsalen (tpr s)) (uint (ntohs (dport s + word_of_int seq)))\<rparr>\<rparr>)) (\<lambda>_.
     cbind (cget (\<lambda>s. s)) (\<lambda>s.
     cbind (Sendto os (sendfd s) (take rec_size (probebuf s)) 0 (tsasend (tpr s)) (tsalen (tpr s))) (\<lambda>_.
     creturn tv))))))"

text \<open>The host, printed when it is not the one of the probe before.\<close>

definition print_host :: "os \<Rightarrow> ('z trace_scheme, unit) cprog" where
  "print_host os =
     cbind (cget tpr) (\<lambda>p.
     if sock_cmp_addr (tsarecv p) (tsalast p) (tsalen p) \<noteq> 0 then
       cbind (call os (C_lib ''getnameinfo'' [V_addr (tsarecv p), V_int (int (tsalen p))])) (\<lambda>g.
       cbind (Sock_ntop_host os (tsarecv p) (tsalen p)) (\<lambda>h.
       cbind (if rv g = 0 then call os (C_lib ''printf'' [V_str '' %s (%s)'', V_str (out_str g), V_str h])
              else call os (C_lib ''printf'' [V_str '' %s'', V_str h])) (\<lambda>_.
       cupd (\<lambda>s. s\<lparr>tpr := (tpr s)\<lparr>tsalast := tsarecv (tpr s)\<rparr>\<rparr>))))
     else creturn ())"

text \<open>What is printed about an answer; the result is \<open>done\<close>.\<close>

definition report_answer :: "os \<Rightarrow> trace_fns \<Rightarrow> int \<times> int \<Rightarrow> int \<Rightarrow> int \<Rightarrow> ('z trace_scheme, int) cprog" where
  "report_answer os f rtt code dn =
     cbind (call os (C_lib ''printf'' [V_str ''  %.3f ms'', V_time (fst rtt) (snd rtt)])) (\<lambda>_.
     if code = - 1 then creturn (dn + 1)
     else if code \<ge> 0 then
       cbind (call os (C_lib ''printf'' [V_str '' (ICMP %s)'', V_str (icmpcode f code)])) (\<lambda>_. creturn dn)
     else creturn dn)"

text \<open>One pass of the inner loop; the result is \<open>done\<close>.\<close>

definition probe_once :: "os \<Rightarrow> int \<Rightarrow> int \<Rightarrow> int \<Rightarrow> int \<Rightarrow> ('z trace_scheme, int) cprog" where
  "probe_once os uninit ttl seq dn =
     cbind (send_probe os ttl seq) (\<lambda>sent.
     cbind (cget (\<lambda>s. tfns (tpr s))) (\<lambda>f.
     cbind (recv_common os f uninit seq) (\<lambda>(code, tv).
     cbind (if code = - 3 then cbind (call os (C_lib ''printf'' [V_str '' *''])) (\<lambda>_. creturn dn)
            else
              cbind (print_host os) (\<lambda>_.
              report_answer os f (tv_sub (the tv) sent) code dn)) (\<lambda>dn.
     cbind (call os (C_fflush STDOUT)) (\<lambda>_. creturn dn)))))"

text \<open>The inner loop with \<open>k\<close> probes left; it gives \<open>seq\<close> and \<open>done\<close> back.\<close>

fun probe_loop :: "os \<Rightarrow> int \<Rightarrow> int \<Rightarrow> nat \<Rightarrow> int \<Rightarrow> int \<Rightarrow> ('z trace_scheme, int \<times> int) cprog" where
  "probe_loop os uninit ttl 0 seq dn = creturn (seq, dn)"
| "probe_loop os uninit ttl (Suc k) seq dn =
     cbind (probe_once os uninit ttl (seq + 1) dn) (\<lambda>dn. probe_loop os uninit ttl k (seq + 1) dn)"

text \<open>One value of \<open>ttl\<close>.\<close>

definition ttl_round :: "os \<Rightarrow> int \<Rightarrow> int \<Rightarrow> int \<Rightarrow> int \<Rightarrow> ('z trace_scheme, int \<times> int) cprog" where
  "ttl_round os uninit ttl seq dn =
     cbind (cget (\<lambda>s. s)) (\<lambda>s.
     cbind (Setsockopt os (sendfd s) (ttllevel (tpr s)) (ttloptname (tpr s)) (le_bytes 4 (nat ttl))) (\<lambda>_.
     cbind (cupd (\<lambda>s. s\<lparr>tpr := (tpr s)\<lparr>tsalast := Sockaddr_other 0 (replicate (tsalen (tpr s) - 2) 0)\<rparr>\<rparr>)) (\<lambda>_.
     cbind (call os (C_lib ''printf'' [V_str ''%2d '', V_int ttl])) (\<lambda>_.
     cbind (call os (C_fflush STDOUT)) (\<lambda>_.
     cbind (probe_loop os uninit ttl (nprobes s) seq dn) (\<lambda>p.
     cbind (call os (C_lib ''printf'' [V_str [CHR 0x0A]])) (\<lambda>_.
     creturn p)))))))"

text \<open>The outer loop from \<open>ttl\<close> on, with \<open>k\<close> values left up to \<open>max_ttl\<close>.\<close>

fun ttl_loop :: "os \<Rightarrow> int \<Rightarrow> nat \<Rightarrow> int \<Rightarrow> int \<Rightarrow> int \<Rightarrow> ('z trace_scheme, int) cprog" where
  "ttl_loop os uninit 0 ttl seq dn = creturn dn"
| "ttl_loop os uninit (Suc k) ttl seq dn =
     (if dn = 0 then cbind (ttl_round os uninit ttl seq dn) (\<lambda>(seq, dn). ttl_loop os uninit k (ttl + 1) seq dn)
      else creturn dn)"

text \<open>\<open>pr->sabind\<close> is zero bytes until its family is set.\<close>

fun wild_like :: "sockaddr \<Rightarrow> sockaddr" where
  "wild_like (Sockaddr_in port addr) = Sockaddr_in 0 (replicate 4 0)"
| "wild_like (Sockaddr_in6 port addr) = Sockaddr_in6 0 (replicate 16 0)"
| "wild_like (Sockaddr_un path) = Sockaddr_un []"
| "wild_like (Sockaddr_other family data) = Sockaddr_other family (map (\<lambda>_. 0) data)"

definition trace_start :: "os \<Rightarrow> ('z trace_scheme, unit) cprog" where
  "trace_start os =
     cbind (cget tpr) (\<lambda>p.
     cbind (Socket os (sa_family (tsasend p)) SOCK_RAW (ticmpproto p)) (\<lambda>fd.
     cbind (cupd (\<lambda>s. s\<lparr>recvfd := fd\<rparr>)) (\<lambda>_.
     cbind (call os (C_lib ''getuid'' [])) (\<lambda>u.
     cbind (call os (C_lib ''setuid'' [V_int (rv u)])) (\<lambda>_.
     cbind (cget trace_verbose) (\<lambda>v.
     cbind (if sa_family (tsasend p) = AF_INET6 \<and> v = 0
            then call os (C_setsockopt fd IPPROTO_IPV6 ICMP6_FILTER (filter_passing [3, 1])) else creturn (ok 0)) (\<lambda>_.
     cbind (Socket os (sa_family (tsasend p)) SOCK_DGRAM 0) (\<lambda>sfd.
     cbind (cupd (\<lambda>s. s\<lparr>sendfd := sfd\<rparr>)) (\<lambda>_.
     cbind (call os (C_lib ''getpid'' [])) (\<lambda>pid.
     cbind (cupd (\<lambda>s. s\<lparr>sport := word_of_int (rv pid AND 0xFFFF OR 0x8000)\<rparr>)) (\<lambda>_.
     cbind (cupd (\<lambda>s. s\<lparr>tpr := (tpr s)\<lparr>tsabind := sock_set_port (wild_like (tsasend (tpr s))) (tsalen (tpr s)) (uint (ntohs (sport s)))\<rparr>\<rparr>)) (\<lambda>_.
     cbind (cget tpr) (\<lambda>p.
     cbind (Bind os sfd (tsabind p) (tsalen p)) (\<lambda>_.
     trace_alrm))))))))))))))"

definition traceloop :: "os \<Rightarrow> int \<Rightarrow> ('z trace_scheme, unit) cprog" where
  "traceloop os uninit =
     cbind (trace_start os) (\<lambda>_.
     cbind (cget max_ttl) (\<lambda>m.
     cbind (ttl_loop os uninit (nat m) 1 0 0) (\<lambda>_. creturn ())))"

section \<open>The program\<close>

text \<open>\<open>getopt\<close> returns the next option character, with \<open>optind\<close> and the text of \<open>optarg\<close>.\<close>

definition out_optarg :: "sysret \<Rightarrow> string" where
  "out_optarg r = (case outs r of _ # V_str x # _ \<Rightarrow> x | _ \<Rightarrow> [])"

partial_function (option) trace_options :: "os \<Rightarrow> 'z trace_scheme \<Rightarrow> (int outcome \<times> 'z trace_scheme) option" where
  "trace_options os s =
     cbind (call os (C_lib ''getopt'' [V_str ''m:v''])) (\<lambda>r.
     if rv r = - 1 then creturn (out_int r)
     else if rv r = of_char CHR ''m'' then
       cbind (cupd (\<lambda>s. s\<lparr>max_ttl := atoi (out_optarg r)\<rparr>)) (\<lambda>_.
       if atoi (out_optarg r) \<le> 1 then err_quit os ''invalid -m value'' else trace_options os)
     else if rv r = of_char CHR ''v'' then
       cbind (cupd (\<lambda>s. s\<lparr>trace_verbose := trace_verbose s + 1\<rparr>)) (\<lambda>_. trace_options os)
     else if rv r = of_char CHR ''?'' then err_quit os (''unrecognized option: '' @ ''?'')
     else trace_options os) s"

definition trace_main :: "os \<Rightarrow> int \<Rightarrow> int \<Rightarrow> string list \<Rightarrow> ('z trace_scheme, unit) cprog" where
  "trace_main os handler uninit argv =
     cbind (trace_options os) (\<lambda>optind.
     if optind \<noteq> int (length argv) - 1 then err_quit os ''usage: traceroute [ -m <maxttl> -v ] <hostname>''
     else
     let host = argv ! nat optind in
     cbind (call os (C_lib ''getpid'' [])) (\<lambda>_.
     cbind (Signal os SIGALRM handler) (\<lambda>_.
     cbind (Host_serv os (Some host) None 0 0) (\<lambda>ais.
     let ai = hd ais; zero = Sockaddr_other 0 (replicate (ai_addrlen ai - 2) 0) in
     cbind (Sock_ntop_host os (ai_addr ai) (ai_addrlen ai)) (\<lambda>h.
     cbind (cget max_ttl) (\<lambda>m.
     cbind (call os (C_lib ''printf'' [V_str (''traceroute to %s (%s): %d hops max, %d data bytes'' @ [CHR 0x0A]),
       V_str (case ai_canonname ai of Some c \<Rightarrow> c | None \<Rightarrow> h), V_str h, V_int m, V_int (int rec_size)])) (\<lambda>_.
     cbind (if ai_family ai = AF_INET then creturn (Trace_v4, IPPROTO_ICMP, IPPROTO_IP, IP_TTL)
            else if ai_family ai = AF_INET6 then
              if v4mapped (ai_addr ai) then err_quit os ''cannot traceroute IPv4-mapped IPv6 address''
              else creturn (Trace_v6, IPPROTO_ICMPV6, IPPROTO_IPV6, IPV6_UNICAST_HOPS)
            else err_quit os (''unknown address family '' @ print_int (ai_family ai))) (\<lambda>(f, proto, level, name).
     cbind (Calloc os 1 (ai_addrlen ai)) (\<lambda>_.
     cbind (Calloc os 1 (ai_addrlen ai)) (\<lambda>_.
     cbind (Calloc os 1 (ai_addrlen ai)) (\<lambda>_.
     cbind (cupd (\<lambda>s. s\<lparr>tpr := \<lparr>tfns = f, tsasend = ai_addr ai, tsarecv = zero, tsalast = zero, tsabind = zero,
       tsalen = ai_addrlen ai, ticmpproto = proto, ttllevel = level, ttloptname = name\<rparr>\<rparr>)) (\<lambda>_.
     cbind (traceloop os uninit) (\<lambda>_.
     cexit 0)))))))))))))"

section \<open>Receiving reads what was received\<close>

lemma get8_take: "take m a = take m b \<Longrightarrow> k < m \<Longrightarrow> k < length a \<Longrightarrow> k < length b \<Longrightarrow> get8 k a = get8 k b"
  unfolding get8_def by (metis nth_take)

lemma get16_take: "take m a = take m b \<Longrightarrow> k + 2 \<le> m \<Longrightarrow> get16 k a = get16 k b"
  unfolding get16_def by (metis add.commute slice_take)

lemma take_drop_eq: "take m a = take m b \<Longrightarrow> take (m - k) (drop k a) = take (m - k) (drop k b)"
  by (metis drop_take)

lemma examine_v4_received:
  assumes eq: "take (nat n) a = take (nat n) b" and len: "nat n \<le> length a" "nat n \<le> length b"
  shows "examine_v4 sp hport a n = examine_v4 sp hport b n"
proof (cases "n < 8")
  case False
  define h where "h = get8 0 a mod 16 * 4"
  have h': "get8 0 b = get8 0 a" by (rule get8_take[OF eq, symmetric]) (use len False in linarith)+
  show ?thesis
  proof (cases "n - int h < 8")
    case True
    then show ?thesis by (simp add: examine_v4_def Let_def h_def h')
  next
    case large: False
    have e1: "take (nat n - h) (drop h a) = take (nat n - h) (drop h b)" by (rule take_drop_eq[OF eq])
    have i: "get8 0 (drop h b) = get8 0 (drop h a)" "get8 1 (drop h b) = get8 1 (drop h a)"
      using get8_take[OF e1, of 0] get8_take[OF e1, of 1] len large by auto
    show ?thesis
    proof (cases "n - int h < 28")
      case True
      then show ?thesis using large i by (simp add: examine_v4_def Let_def h' flip: h_def)
    next
      case inner: False
      define k where "k = get8 0 (drop (8 + h) a) mod 16 * 4"
      have e2: "take (nat n - h - 8) (drop (8 + h) a) = take (nat n - h - 8) (drop (8 + h) b)"
        using take_drop_eq[OF e1, of 8] by (simp add: add.commute)
      have j: "get8 0 (drop (8 + h) b) = get8 0 (drop (8 + h) a)" "get8 9 (drop (8 + h) b) = get8 9 (drop (8 + h) a)"
        using get8_take[OF e2, of 0] get8_take[OF e2, of 9] len inner by auto
      have u: "get16 0 (drop (k + (8 + h)) b) = get16 0 (drop (k + (8 + h)) a)" "get16 2 (drop (k + (8 + h)) b) = get16 2 (drop (k + (8 + h)) a)"
        if "\<not> n - int h < 8 + int k + 4"
      proof -
        have e3: "take (nat n - h - 8 - k) (drop (k + (8 + h)) a) = take (nat n - h - 8 - k) (drop (k + (8 + h)) b)"
          using take_drop_eq[OF e2, of k] by simp
        have "4 \<le> nat n - h - 8 - k" using that by linarith
        then show "get16 0 (drop (k + (8 + h)) b) = get16 0 (drop (k + (8 + h)) a)" "get16 2 (drop (k + (8 + h)) b) = get16 2 (drop (k + (8 + h)) a)"
          using get16_take[OF e3, of 0] get16_take[OF e3, of 2] by simp_all
      qed
      have ik: "int (get8 0 (drop (8 + h) a) mod 16) * 4 = int k" by (simp add: k_def)
      show ?thesis
        using large inner i u by (cases "n - int h < 8 + int k + 4") (simp_all add: examine_v4_def Let_def h' j ik flip: h_def k_def)
    qed
  qed
qed (simp add: examine_v4_def Let_def)

lemma examine_v6_received:
  assumes eq: "take (nat n) a = take (nat n) b" and len: "nat n \<le> length a" "nat n \<le> length b"
  shows "examine_v6 sp hport a n = examine_v6 sp hport b n"
proof (cases "n < 8")
  case False
  have i: "get8 0 b = get8 0 a" "get8 1 b = get8 1 a"
    by (rule get8_take[OF eq, symmetric]; use len False in linarith)+
  show ?thesis
  proof (cases "n < 52")
    case True
    then show ?thesis using False i by (simp add: examine_v6_def Let_def)
  next
    case inner: False
    have e: "take (nat n - j) (drop j a) = take (nat n - j) (drop j b)" for j by (rule take_drop_eq[OF eq])
    have "get8 6 (drop 8 b) = get8 6 (drop 8 a)" "get16 0 (drop 48 b) = get16 0 (drop 48 a)" "get16 2 (drop 48 b) = get16 2 (drop 48 a)"
      using get8_take[OF e, of 6 8] get16_take[OF e, of 0 48] get16_take[OF e, of 2 48] len inner by auto
    with i show ?thesis by (simp add: examine_v6_def Let_def)
  qed
qed (simp add: examine_v6_def Let_def)

text \<open>
  C27. \<open>recv_v4\<close> and \<open>recv_v6\<close> decide about a packet by the bytes that were received alone: what older
  packets left in the buffer behind them does not matter, whatever header lengths the packet claims.
\<close>

theorem examine_received_only:
  assumes "take (nat n) buf = take (nat n) buf'" and "nat n \<le> length buf" "nat n \<le> length buf'"
  shows "examine f sp hport buf n = examine f sp hport buf' n"
  using examine_v4_received[OF assms] examine_v6_received[OF assms] by (simp add: examine_def split: trace_fns.split)

theorem examine_received_only_witness:
  "examine Trace_v4 1 2 [0x40, 1, 2, 3] 3 = examine Trace_v4 1 2 [0x40, 1, 2, 9] 3"
  by (rule examine_received_only) simp_all

section \<open>What an answer is\<close>

text \<open>
  The meaning of an IPv4 packet to traceroute, from the formats of IP, ICMP and UDP: behind the IP header (whose length
  in words is the low half of its first byte) stands the ICMP header of 8 bytes, and behind it the IP header of the
  datagram the message is about; its protocol is the byte 9, and behind it the two ports of UDP follow, in network byte
  order.
\<close>

definition be16 :: "u16 \<Rightarrow> byte list" where
  "be16 w = [word_of_nat (unat w div 256), word_of_nat (unat w mod 256)]"

definition ip_words :: "byte list \<Rightarrow> nat" where
  "ip_words ip = unat (ip ! 0) mod 16"

definition quotes_udp :: "u16 \<Rightarrow> u16 \<Rightarrow> byte list \<Rightarrow> bool" where
  "quotes_udp sp dp icmp \<longleftrightarrow> (let ip = drop 8 icmp in
     20 \<le> length ip \<and> ip ! 9 = 17 \<and> take 4 (drop (4 * ip_words ip) ip) = be16 sp @ be16 dp)"

text \<open>The result that stands for a message: -2 for time exceeded in transit, -1 for port unreachable, the code for another
  destination unreachable.\<close>

definition icmp_result :: "byte list \<Rightarrow> int option" where
  "icmp_result icmp = (if take 2 icmp = [11, 0] then Some (- 2)
     else if take 2 icmp = [3, 3] then Some (- 1)
     else if take 1 icmp = [3] then Some (uint (icmp ! 1)) else None)"

definition answer :: "u16 \<Rightarrow> u16 \<Rightarrow> byte list \<Rightarrow> int option" where
  "answer sp dp packet = (let icmp = drop (4 * ip_words packet) packet in
     if quotes_udp sp dp icmp then icmp_result icmp else None)"

lemma digits_eq:
  fixes x y p q :: nat
  assumes "x < 256" and "p < 256"
  shows "x + 256 * y = p + q * 256 \<longleftrightarrow> x = p \<and> y = q"
proof
  assume e: "x + 256 * y = p + q * 256"
  from arg_cong[OF e, of "\<lambda>n. n mod 256"] assms have "x = p" by simp
  with e show "x = p \<and> y = q" by simp
qed simp

lemma get16_ntohs:
  assumes "2 \<le> length bs"
  shows "get16 0 bs = ntohs w \<longleftrightarrow> take 2 bs = be16 w"
proof -
  obtain a b cs where bs: "bs = a # b # cs" using assms by (metis One_nat_def Suc_le_length_iff numeral_2_eq_2)
  have ab: "unat a < 256" "unat b < 256" using unsigned_less[of a, where ?'a = nat] unsigned_less[of b, where ?'a = nat] by simp_all
  have w: "unat w < 65536" using unsigned_less[of w, where ?'a = nat] by simp
  have "le_val (slice 0 2 bs) = unat a + 256 * unat b" by (simp add: bs numeral_2_eq_2)
  then have "unat (get16 0 bs) = unat a + 256 * unat b" using ab unfolding get16_def by (simp only: unat_of_nat) simp
  then have "get16 0 bs = ntohs w \<longleftrightarrow> unat a + 256 * unat b = unat w div 256 + (unat w mod 256) * 256"
    by (metis unat_ntohs unsigned_word_eqI)
  also have "\<dots> \<longleftrightarrow> unat a = unat w div 256 \<and> unat b = unat w mod 256" by (rule digits_eq) (use ab w in simp_all)
  also have "\<dots> \<longleftrightarrow> take 2 bs = be16 w"
  proof -
    have "unat a = unat w div 256 \<longleftrightarrow> a = word_of_nat (unat w div 256)" using ab w by (auto simp: word_unat_eq_iff unat_of_nat)
    moreover have "unat b = unat w mod 256 \<longleftrightarrow> b = word_of_nat (unat w mod 256)" using ab by (auto simp: word_unat_eq_iff unat_of_nat)
    ultimately show ?thesis by (simp add: bs be16_def numeral_2_eq_2)
  qed
  finally show ?thesis .
qed

lemma ports_quoted:
  assumes "4 \<le> length udp"
  shows "get16 0 udp = ntohs sp \<and> get16 2 udp = ntohs dp \<longleftrightarrow> take 4 udp = be16 sp @ be16 dp"
proof -
  have "get16 2 udp = get16 0 (drop 2 udp)" by (simp add: get16_def)
  moreover have "take 4 udp = take 2 udp @ take 2 (drop 2 udp)" by (simp flip: take_add)
  moreover have "length (take 2 udp) = length (be16 sp)" using assms by (simp add: be16_def)
  ultimately show ?thesis using assms get16_ntohs[of udp sp] get16_ntohs[of "drop 2 udp" dp] by simp
qed

lemma take_bytes: "2 \<le> length bs \<Longrightarrow> take 2 bs = [bs ! 0, bs ! 1]" "1 \<le> length bs \<Longrightarrow> take 1 bs = [bs ! 0]"
  by (cases bs; cases "tl bs"; simp)+

lemma byte_eq: "unat (b :: byte) = n \<longleftrightarrow> n < 256 \<and> b = word_of_nat n"
  using unsigned_less[of b, where ?'a = nat] by (auto simp: word_unat_eq_iff unat_of_nat)

lemma icmp_result_bytes:
  assumes "2 \<le> length icmp"
  shows "icmp_result icmp = (if get8 0 icmp = 11 \<and> get8 1 icmp = 0 then Some (- 2)
     else if get8 0 icmp = 3 \<and> get8 1 icmp = 3 then Some (- 1)
     else if get8 0 icmp = 3 then Some (int (get8 1 icmp)) else None)"
proof -
  have "take 1 icmp = [icmp ! 0]" by (rule take_bytes) (use assms in simp)
  moreover have "uint (icmp ! 1) = int (unat (icmp ! 1))" by simp
  ultimately show ?thesis unfolding icmp_result_def take_bytes(1)[OF assms] get8_def byte_eq by simp
qed

text \<open>\<open>recv_v4\<close> takes a packet for an answer exactly when it is one.\<close>

lemma examine_v4_answer:
  "examine_v4 sp dp packet (int (length packet)) = Stop ret \<longleftrightarrow> answer sp dp packet \<noteq> None \<and> ret = answer sp dp packet"
proof -
  define icmp where "icmp = drop (4 * ip_words packet) packet"
  define ip where "ip = drop 8 icmp"
  define udp where "udp = drop (4 * ip_words ip) ip"
  have short: "answer sp dp packet = None" if "length icmp < 28 \<or> length ip < 4 * ip_words ip + 4"
  proof -
    have "\<not> quotes_udp sp dp icmp"
    proof
      assume q: "quotes_udp sp dp icmp"
      then have "length (take 4 udp) = 4" by (simp add: quotes_udp_def Let_def be16_def flip: ip_def udp_def)
      then show False using q that by (auto simp: quotes_udp_def Let_def ip_def udp_def)
    qed
    then show ?thesis by (simp add: answer_def Let_def flip: icmp_def)
  qed
  have h: "get8 0 packet mod 16 * 4 = 4 * ip_words packet" "get8 0 ip mod 16 * 4 = 4 * ip_words ip" "int (get8 0 ip mod 16) * 4 = 4 * int (ip_words ip)"
    by (simp_all add: get8_def ip_words_def)
  have l: "int (length packet) - int (4 * ip_words packet) < 8 + int n \<longleftrightarrow> length icmp < 8 + n" for n by (auto simp: icmp_def)
  have l': "length icmp < 8 + (4 * ip_words ip + 4) \<longleftrightarrow> length icmp < 8 \<or> length ip < 4 * ip_words ip + 4" by (auto simp: ip_def)
  have ex: "examine_v4 sp dp packet (int (length packet)) =
     (if length icmp < 8 then Skip
      else if get8 0 icmp = 11 \<and> get8 1 icmp = 0 then
        if length icmp < 28 \<or> length ip < 4 * ip_words ip + 4 then Skip
        else if get8 9 ip = 17 \<and> get16 0 udp = ntohs sp \<and> get16 2 udp = ntohs dp then Stop (Some (- 2)) else Other
      else if get8 0 icmp = 3 then
        if length icmp < 28 \<or> length ip < 4 * ip_words ip + 4 then Skip
        else if get8 9 ip = 17 \<and> get16 0 udp = ntohs sp \<and> get16 2 udp = ntohs dp then
          if get8 1 icmp = 3 then Stop (Some (- 1)) else Stop (Some (int (get8 1 icmp)))
        else Other
      else Other)"
    using l[of 0] l[of 20] l[of "4 * ip_words ip + 4"] l'
    by (simp add: examine_v4_def Let_def h flip: icmp_def ip_def udp_def)
  show ?thesis
  proof (cases "length icmp < 28 \<or> length ip < 4 * ip_words ip + 4")
    case True
    then show ?thesis unfolding short[OF True] ex by simp
  next
    case False
    then have "4 \<le> length udp" by (auto simp: udp_def)
    then have q: "quotes_udp sp dp icmp \<longleftrightarrow> get8 9 ip = 17 \<and> get16 0 udp = ntohs sp \<and> get16 2 udp = ntohs dp"
      using False by (auto simp: quotes_udp_def Let_def ports_quoted get8_def byte_eq ip_def udp_def)
    have two: "2 \<le> length icmp" "\<not> length icmp < 8" using False by auto
    show ?thesis unfolding ex answer_def Let_def icmp_def[symmetric] icmp_result_bytes[OF two(1)] q using False two(2) by auto
  qed
qed

section \<open>The receive loop ends\<close>

text \<open>The number of packets received on a descriptor, and a network that delivers a bounded number of them
  (after which only the alarm ends the call).\<close>

definition packets :: "int \<Rightarrow> hist \<Rightarrow> nat" where
  "packets fd h = length (filter (\<lambda>(c, r). case c of C_recvfrom d _ _ \<Rightarrow> d = fd \<and> 0 \<le> rv r | _ \<Rightarrow> False) h)"

definition bounded_packets :: "os \<Rightarrow> int \<Rightarrow> nat \<Rightarrow> bool" where
  "bounded_packets os fd N \<longleftrightarrow> (\<forall>h n fl. 0 \<le> rv (os h (C_recvfrom fd n fl)) \<longrightarrow> packets fd h < N)"

lemma packets_append [simp]: "packets fd (h @ k) = packets fd h + packets fd k"
  by (simp add: packets_def)

text \<open>The packets received on a descriptor.\<close>

definition arrived :: "int \<Rightarrow> hist \<Rightarrow> byte list list" where
  "arrived fd h = concat (map (\<lambda>(c, r). case c of
     C_recvfrom d _ _ \<Rightarrow> if d = fd \<and> 0 \<le> rv r then [take (nat (rv r)) (out_bytes r)] else [] | _ \<Rightarrow> []) h)"

lemma arrived_append [simp]: "arrived fd (h @ k) = arrived fd h @ arrived fd k" "arrived fd [] = []"
  by (simp_all add: arrived_def)

lemma arrived_call:
  "(\<forall>d n fl. c \<noteq> C_recvfrom d n fl) \<Longrightarrow> arrived fd [(c, r)] = []" "rv r < 0 \<Longrightarrow> arrived fd [(c, r)] = []"
  "0 \<le> rv r \<Longrightarrow> arrived fd [(C_recvfrom fd n fl, r)] = [take (nat (rv r)) (out_bytes r)]"
  by (auto simp: arrived_def split: ccall.split)

text \<open>\<open>same s t\<close>: from \<open>s\<close> to \<open>t\<close> nothing was sent and the variables that sending uses did not change.\<close>

definition same :: "'z trace_scheme \<Rightarrow> 'z trace_scheme \<Rightarrow> bool" where
  "same s t \<longleftrightarrow> recvfd t = recvfd s \<and> sendfd t = sendfd s \<and> sport t = sport s \<and> dport t = dport s \<and> max_ttl t = max_ttl s \<and>
     nprobes t = nprobes s \<and> tfns (tpr t) = tfns (tpr s) \<and> tsasend (tpr t) = tsasend (tpr s) \<and> tsalen (tpr t) = tsalen (tpr s) \<and>
     probebuf t = probebuf s \<and> echoed_dgs (calls t) = echoed_dgs (calls s) \<and> (\<exists>k. calls t = calls s @ k)"

lemma same_refl [simp]: "same s s"
  by (simp add: same_def)

lemma same_trans: "same s t \<Longrightarrow> same t u \<Longrightarrow> same s u"
  by (auto simp: same_def)

lemma trace_after [simp]:
  "recvbuf (after os c s) = recvbuf s" "probebuf (after os c s) = probebuf s" "sport (after os c s) = sport s"
  "dport (after os c s) = dport s" "max_ttl (after os c s) = max_ttl s" "nprobes (after os c s) = nprobes s"
  "sendfd (after os c s) = sendfd s" "recvfd (after os c s) = recvfd s" "trace_verbose (after os c s) = trace_verbose s"
  "gotalarm (after os c s) = gotalarm s" "tpr (after os c s) = tpr s"
  by (simp_all add: after_def)

lemma echoed_dgs_other [simp]: "(\<forall>fd bs fl sa n. c \<noteq> C_sendto fd bs fl sa n) \<Longrightarrow> echoed_dgs [(c, r)] = []"
  by (cases c) (simp_all add: echoed_dgs_def)

lemma same_after: "(\<forall>fd bs fl sa n. c \<noteq> C_sendto fd bs fl sa n) \<Longrightarrow> same s (after os c s)"
  by (auto simp: same_def)

text \<open>What a receiver found among the packets \<open>ps\<close> it received: nothing, or an answer in the last of them.\<close>

definition found :: "trace_fns \<Rightarrow> u16 \<Rightarrow> u16 \<Rightarrow> int option \<Rightarrow> byte list list \<Rightarrow> bool" where
  "found f sp hport ret ps \<longleftrightarrow> (let stops = \<lambda>p ret. examine f sp hport p (int (length p)) = Stop ret in
     ret = Some (- 3) \<and> (\<forall>p \<in> set ps. \<forall>x. \<not> stops p x) \<or>
     (\<exists>qs p. ps = qs @ [p] \<and> stops p ret \<and> (\<forall>q \<in> set qs. \<forall>x. \<not> stops q x)))"

lemma found_more:
  assumes "found f sp hport ret ps" and "\<forall>p \<in> set qs. \<forall>x. examine f sp hport p (int (length p)) \<noteq> Stop x"
  shows "found f sp hport ret (qs @ ps)"
proof (cases "ret = Some (- 3) \<and> (\<forall>p \<in> set ps. \<forall>x. examine f sp hport p (int (length p)) \<noteq> Stop x)")
  case True
  then show ?thesis using assms(2) by (auto simp: found_def)
next
  case False
  then obtain rs p where "ps = rs @ [p]" "examine f sp hport p (int (length p)) = Stop ret" "\<forall>q \<in> set rs. \<forall>x. examine f sp hport q (int (length q)) \<noteq> Stop x"
    using assms(1) unfolding found_def Let_def by blast
  then show ?thesis unfolding found_def Let_def using assms(2) by (intro disjI2 exI[of _ "qs @ rs"] exI[of _ p]) auto
qed

lemma examine_packet:
  assumes "length bs = nat n" and "0 \<le> n"
  shows "examine f sp hport (put_bytes 0 (take (nat n) bs) old) n = examine f sp hport bs (int (length bs))"
proof -
  have "take (nat n) (put_bytes 0 (take (nat n) bs) old) = take (nat n) bs" "nat n \<le> length (put_bytes 0 (take (nat n) bs) old)" "nat n \<le> length bs"
    using assms by (simp_all add: put_bytes_def)
  from examine_v4_received[OF this] examine_v6_received[OF this] show ?thesis using assms by (simp add: examine_def split: trace_fns.split)
qed

lemma same_store: "same s (store_packet r s)" "gotalarm (store_packet r s) = gotalarm s" "calls (store_packet r s) = calls s"
  "recvbuf (store_packet r s) = put_bytes 0 (take (nat (rv r)) (out_bytes r)) (recvbuf s)"
  by (simp_all add: same_def store_packet_def)

lemma print_other_wp:
  "wp (print_other os f) (\<lambda>r t. case r of Ret _ \<Rightarrow> same s t \<and> gotalarm t = gotalarm s \<and> packets fd (calls t) = packets fd (calls s) \<and>
       arrived fd (calls t) = arrived fd (calls s)
     | Exit n \<Rightarrow> n = 1 | Abort \<Rightarrow> False) s"
  unfolding print_other_def Sock_ntop_host_def Let_def
  by (auto simp: wp_simps packets_def same_after arrived_call split: sum.split)

definition recv_post :: "trace_fns \<Rightarrow> int \<Rightarrow> 'z trace_scheme \<Rightarrow> int option outcome \<Rightarrow> 'z trace_scheme \<Rightarrow> bool" where
  "recv_post f seq s r t \<longleftrightarrow> (case r of
       Ret ret \<Rightarrow> same s t \<and> (\<exists>ps. arrived (recvfd s) (calls t) = arrived (recvfd s) (calls s) @ ps \<and>
         found f (sport s) (dport s + word_of_int seq) ret ps)
     | Exit n \<Rightarrow> n = 1 | Abort \<Rightarrow> False)"

lemma recv_post_same:
  assumes "recv_post f seq t r u" and "same s t" and "arrived (recvfd s) (calls t) = arrived (recvfd s) (calls s) @ qs"
    and "\<forall>p \<in> set qs. \<forall>x. examine f (sport s) (dport s + word_of_int seq) p (int (length p)) \<noteq> Stop x"
  shows "recv_post f seq s r u"
proof (cases r)
  case (Ret ret)
  have fd: "recvfd t = recvfd s" "sport t = sport s" "dport t = dport s" using assms(2) by (simp_all add: same_def)
  from assms(1) Ret obtain ps where "arrived (recvfd s) (calls u) = arrived (recvfd s) (calls t) @ ps" "same t u"
    "found f (sport s) (dport s + word_of_int seq) ret ps" by (auto simp: recv_post_def fd)
  moreover from this have "found f (sport s) (dport s + word_of_int seq) ret (qs @ ps)" using assms(4) by (intro found_more)
  ultimately show ?thesis using Ret assms(2,3) same_trans[OF assms(2)] by (auto simp: recv_post_def)
qed (use assms(1) in \<open>simp_all add: recv_post_def\<close>)

lemma recv_loop_wp:
  assumes "bounded_packets os (recvfd s) N" and rok: "recvfrom_ok os"
  shows "wp (recv_loop os f seq) (recv_post f seq s) s"
  using assms(1)
proof (induction "2 * (N - packets (recvfd s) (calls s)) + (if gotalarm s = 0 then 1 else 0)" arbitrary: s rule: less_induct)
  case less
  let ?c = "C_recvfrom (recvfd s) TBUFSIZE 0"
  let ?r = "os (calls s) ?c" and ?t = "after os ?c s"
  let ?ex = "examine f (sport s) (dport s + word_of_int seq)"
  have IH: "wp (recv_loop os f seq) (recv_post f seq s) t"
    if "same s t" "2 * (N - packets (recvfd s) (calls t)) + (if gotalarm t = 0 then 1 else 0)
      < 2 * (N - packets (recvfd s) (calls s)) + (if gotalarm s = 0 then 1 else (0 :: nat))"
      "arrived (recvfd s) (calls t) = arrived (recvfd s) (calls s) @ qs" "\<forall>p \<in> set qs. \<forall>x. ?ex p (int (length p)) \<noteq> Stop x" for t qs
  proof -
    have fd: "recvfd t = recvfd s" using that(1) by (simp add: same_def)
    then have "wp (recv_loop os f seq) (recv_post f seq t) t" using less(1)[of t] less(2) that(2) by simp
    then show ?thesis by (rule wp_mono) (rule recv_post_same[OF _ that(1,3,4)])
  qed
  show ?case
  proof (cases "gotalarm s = 0")
    case False
    have "found f (sport s) (dport s + word_of_int seq) (Some (- 3)) []" by (simp add: found_def)
    then show ?thesis using False by (subst wp_def, subst recv_loop.simps) (simp add: recv_post_def)
  next
    case True
    show ?thesis
    proof (cases "rv ?r < 0")
      case neg: True
      have "packets (recvfd s) (calls (?t\<lparr>gotalarm := 1\<rparr>)) = packets (recvfd s) (calls s)" using neg by (simp add: packets_def)
      then have "wp (recv_loop os f seq) (recv_post f seq s) (?t\<lparr>gotalarm := 1\<rparr>)"
        using True neg by (intro IH[of _ "[]"]) (simp_all add: same_def arrived_call)
      then show ?thesis using True neg
        by (subst wp_def, subst recv_loop.simps) (simp add: trace_alrm_def recv_post_def wp_def)
    next
      case pos: False
      let ?u = "store_packet ?r ?t" and ?p = "out_bytes ?r"
      have len: "length ?p = nat (rv ?r)" using rok pos by (simp add: recvfrom_ok_def Let_def)
      have bnd: "packets (recvfd s) (calls s) < N" using less(2) pos by (force simp: bounded_packets_def not_less)
      have "same s ?u" by (rule same_trans[OF same_after same_store(1)]) simp
      then have u: "same s ?u" "gotalarm ?u = 0" "packets (recvfd s) (calls ?u) = Suc (packets (recvfd s) (calls s))"
          "arrived (recvfd s) (calls ?u) = arrived (recvfd s) (calls s) @ [?p]"
        using True pos by (auto simp: same_store packets_def arrived_call len)
      let ?v = "?ex (recvbuf ?u) (rv ?r)"
      have v: "?v = ?ex ?p (int (length ?p))" using examine_packet[OF len] pos by (simp add: same_store)
      have again: "wp (recv_loop os f seq) (recv_post f seq s) v"
        if "same s v" "gotalarm v = 0" "packets (recvfd s) (calls v) = Suc (packets (recvfd s) (calls s))"
          "arrived (recvfd s) (calls v) = arrived (recvfd s) (calls s) @ [?p]" "\<forall>x. ?v \<noteq> Stop x" for v
        by (rule IH[of _ "[?p]"]) (use that True bnd v in auto)
      have eq: "recv_loop os f seq s = (if ?v = Skip then recv_loop os f seq ?u
          else if ?v = Other then cbind (print_other os f) (\<lambda>_. recv_loop os f seq) ?u
          else Some (Ret (case ?v of Stop ret \<Rightarrow> ret | _ \<Rightarrow> None), ?u))"
        using True pos by (subst recv_loop.simps) (simp add: store_packet_def)
      show ?thesis
      proof (cases ?v)
        case Skip
        then show ?thesis using again[OF u] eq by (simp add: wp_def)
      next
        case Other
        have "wp (cbind (print_other os f) (\<lambda>_. recv_loop os f seq)) (recv_post f seq s) ?u"
          by (rule wp_bindI[OF print_other_wp[of os f ?u "recvfd s"]])
            (use u Other in \<open>auto intro!: again intro: same_trans simp: recv_post_def\<close>)
        then show ?thesis using Other eq by (simp add: wp_def)
      next
        case (Stop ret)
        then have "found f (sport s) (dport s + word_of_int seq) ret [?p]" unfolding v by (simp add: found_def)
        then show ?thesis using Stop eq u by (simp add: wp_def recv_post_def)
      qed
    qed
  qed
qed

definition common_post :: "trace_fns \<Rightarrow> int \<Rightarrow> int \<Rightarrow> 'z trace_scheme \<Rightarrow> (int \<times> (int \<times> int) option) outcome \<Rightarrow> 'z trace_scheme \<Rightarrow> bool" where
  "common_post f uninit seq s r t \<longleftrightarrow> (case r of
       Ret (code, tv) \<Rightarrow> same s t \<and> (\<exists>ps ret. arrived (recvfd s) (calls t) = arrived (recvfd s) (calls s) @ ps \<and>
         found f (sport s) (dport s + word_of_int seq) ret ps \<and> code = (case ret of Some c \<Rightarrow> c | None \<Rightarrow> uninit))
     | Exit n \<Rightarrow> n = 1 | Abort \<Rightarrow> False)"

lemma recv_finish_wp:
  assumes "same s t" and "arrived (recvfd s) (calls t) = arrived (recvfd s) (calls s) @ ps" and "found f (sport s) (dport s + word_of_int seq) ret ps"
  shows "wp (cbind (call os (C_lib ''alarm'' [V_int 0])) (\<lambda>_. cbind (Gettimeofday os) (\<lambda>tv.
      creturn (case ret of Some c \<Rightarrow> c | None \<Rightarrow> uninit, Some tv)))) (common_post f uninit seq s) t"
proof -
  let ?u = "after os C_gettimeofday (after os (C_lib ''alarm'' [V_int 0]) t)"
  have "same s ?u" using same_trans[OF assms(1) same_trans[OF same_after same_after]] by simp
  moreover have "arrived (recvfd s) (calls ?u) = arrived (recvfd s) (calls s) @ ps"
    using assms(2) arrived_append(1)[of _ _ "[_]"] by (simp add: arrived_def)
  ultimately show ?thesis using assms(3) by (auto simp: wp_simps Gettimeofday_def common_post_def)
qed

lemma recv_common_wp:
  assumes "bounded_packets os (recvfd s) N" and "recvfrom_ok os"
  shows "wp (recv_common os f uninit seq) (common_post f uninit seq s) s"
proof -
  let ?t = "after os (C_lib ''alarm'' [V_int 3]) (s\<lparr>gotalarm := 0\<rparr>)"
  have st: "same s ?t" by (auto simp: same_def)
  have "wp (recv_loop os f seq) (recv_post f seq ?t) ?t" by (rule recv_loop_wp) (use assms in simp_all)
  then have loop: "wp (recv_loop os f seq) (recv_post f seq s) ?t"
    by (rule wp_mono) (rule recv_post_same[OF _ st, of _ _ _ _ "[]"], simp_all add: arrived_call)
  have "wp (cbind (recv_loop os f seq) (\<lambda>ret. if ret = Some (- 3) then creturn (- 3, None)
     else cbind (call os (C_lib ''alarm'' [V_int 0])) (\<lambda>_. cbind (Gettimeofday os) (\<lambda>tv.
          creturn (case ret of Some c \<Rightarrow> c | None \<Rightarrow> uninit, Some tv))))) (common_post f uninit seq s) ?t"
    by (rule wp_bindI[OF loop]) (auto simp: recv_post_def wp_basic common_post_def intro!: recv_finish_wp exI[of _ "Some (- 3)"])
  then show ?thesis by (simp add: recv_common_def wp_def)
qed

text \<open>For IPv4, what is found is an answer.\<close>

definition answered :: "u16 \<Rightarrow> u16 \<Rightarrow> int \<Rightarrow> byte list list \<Rightarrow> bool" where
  "answered sp dp code ps \<longleftrightarrow> code = - 3 \<and> (\<forall>p \<in> set ps. answer sp dp p = None) \<or>
     (\<exists>qs p. ps = qs @ [p] \<and> answer sp dp p = Some code \<and> (\<forall>q \<in> set qs. answer sp dp q = None))"

lemma found_answered:
  assumes "found Trace_v4 sp dp ret ps"
  shows "answered sp dp (case ret of Some c \<Rightarrow> c | None \<Rightarrow> uninit) ps"
proof -
  have none: "(\<forall>x. examine Trace_v4 sp dp p (int (length p)) \<noteq> Stop x) \<longleftrightarrow> answer sp dp p = None" for p
    by (simp add: examine_def examine_v4_answer)
  show ?thesis using assms unfolding found_def Let_def none by (auto simp: answered_def examine_def examine_v4_answer)
qed

lemma common_answered:
  assumes "common_post Trace_v4 uninit seq s (Ret (code, tv)) t"
  shows "\<exists>ps. arrived (recvfd s) (calls t) = arrived (recvfd s) (calls s) @ ps \<and> answered (sport s) (dport s + word_of_int seq) code ps"
  using assms found_answered unfolding common_post_def by fastforce

text \<open>A concrete process, and a network from which only time-exceeded messages about other datagrams come.\<close>

definition trace0 :: trace where
  "trace0 = \<lparr>errno = 0, daemon_proc = 0, calls = [], recvbuf = replicate 1500 0, probebuf = replicate 1500 0, sport = 0, dport = 33434,
     max_ttl = 2, nprobes = 1, sendfd = 4, recvfd = 3, trace_verbose = 0, gotalarm = 0,
     tpr = \<lparr>tfns = Trace_v4, tsasend = Sockaddr_in 0 [10, 0, 0, 1], tsarecv = Sockaddr_un [], tsalast = Sockaddr_un [],
       tsabind = Sockaddr_un [], tsalen = 16, ticmpproto = 1, ttllevel = 0, ttloptname = 2\<rparr>\<rparr>"

definition foreign_os :: os where
  "foreign_os h c = (case c of C_recvfrom _ _ _ \<Rightarrow> ok_bytes (3 # replicate 51 0) | _ \<Rightarrow> ok 0)"

text \<open>A network that brings a port-unreachable message about the first probe (from port 0x8000 to port 33435) and then only
  the alarm.\<close>

definition unreachable_message :: "byte list" where
  "unreachable_message = [0x45] @ replicate 19 0 @ [3, 3] @ replicate 6 0 @ [0x45] @ replicate 8 0 @ [17] @ replicate 10 0 @ [0x80, 0, 0x82, 0x9B]"

definition reached_os :: os where
  "reached_os h c = (case c of C_recvfrom _ _ _ \<Rightarrow>
      if \<exists>(c, r) \<in> set h. case c of C_recvfrom _ _ _ \<Rightarrow> 0 \<le> rv r | _ \<Rightarrow> False then fails EINTR
      else \<lparr>rv = 52, err = None, outs = [V_bytes unreachable_message, V_addr (Sockaddr_in 0 [10, 0, 0, 1]), V_int 16]\<rparr>
    | C_sendto _ bs _ _ _ \<Rightarrow> ok (int (length bs)) | _ \<Rightarrow> ok 0)"

lemma reached_os_bounded: "bounded_packets reached_os fd 1"
proof -
  have "packets fd h = 0" if "\<not> (\<exists>(c, r) \<in> set h. case c of C_recvfrom _ _ _ \<Rightarrow> 0 \<le> rv r | _ \<Rightarrow> False)" for h
    using that by (auto simp: packets_def filter_empty_conv split: ccall.splits)
  then show ?thesis by (auto simp: bounded_packets_def reached_os_def fails_def split: if_splits)
qed

lemma reached_os_recv: "recvfrom_ok reached_os"
  by (simp add: recvfrom_ok_def reached_os_def fails_def Let_def unreachable_message_def out_bytes_def out_from_def)

text \<open>
  C28. \<open>recv_v4\<close> (IPv4) ends when only finitely many packets arrive. Let \<open>ps\<close> be the packets it received. It returns the
  code of the first of them that is an ICMP time-exceeded or destination-unreachable message quoting a UDP datagram
  from our port to the port of this probe, and received none after it; or -3, and then none of them is such a message.
  Nothing the sender relies on has changed. An error of \<open>recvfrom\<close> ends the process.
\<close>

theorem recv_v4_answer:
  fixes s :: "'z trace_scheme"
  assumes "bounded_packets os (recvfd s) N" and "recvfrom_ok os"
  shows "wp (recv_v4 os uninit seq) (\<lambda>r t. case r of
      Ret (code, tv) \<Rightarrow> same s t \<and> (\<exists>ps. arrived (recvfd s) (calls t) = arrived (recvfd s) (calls s) @ ps \<and>
        (code = - 3 \<and> (\<forall>p \<in> set ps. answer (sport s) (dport s + word_of_int seq) p = None) \<or>
         (\<exists>qs p. ps = qs @ [p] \<and> answer (sport s) (dport s + word_of_int seq) p = Some code \<and>
           (\<forall>q \<in> set qs. answer (sport s) (dport s + word_of_int seq) q = None))))
    | Exit n \<Rightarrow> n = 1 | Abort \<Rightarrow> False) s"
  unfolding recv_v4_def answered_def[symmetric]
proof (rule wp_mono[OF recv_common_wp[OF assms]], goal_cases)
  case (1 r t)
  then show ?case using common_answered[of uninit seq s _ _ t] by (cases r) (auto simp: common_post_def)
qed

theorem recv_v4_answer_witness:
  "answer 0x8000 33435 unreachable_message = Some (- 1) \<and>
   wp (recv_v4 reached_os 0 1) (\<lambda>r t. case r of
      Ret (code, tv) \<Rightarrow> same trace0 t \<and> (\<exists>ps. arrived (recvfd trace0) (calls t) = arrived (recvfd trace0) (calls trace0) @ ps \<and>
        (code = - 3 \<and> (\<forall>p \<in> set ps. answer (sport trace0) (dport trace0 + word_of_int 1) p = None) \<or>
         (\<exists>qs p. ps = qs @ [p] \<and> answer (sport trace0) (dport trace0 + word_of_int 1) p = Some code \<and>
           (\<forall>q \<in> set qs. answer (sport trace0) (dport trace0 + word_of_int 1) q = None))))
    | Exit n \<Rightarrow> n = 1 | Abort \<Rightarrow> False) trace0"
proof
  show "answer 0x8000 33435 unreachable_message = Some (- 1)" by (simp add: answer_def unreachable_message_def ip_words_def quotes_udp_def icmp_result_def be16_def Let_def nth_append)
qed (rule recv_v4_answer[OF reached_os_bounded reached_os_recv])

text \<open>
  C29. \<open>recv_v6\<close> stops at every ICMPv6 time-exceeded message with room for the quoted headers, also one that
  quotes a datagram of somebody else, and then returns a variable it never assigned: whatever \<open>uninit\<close> is,
  that is the code it returns.
\<close>

theorem recv_v6_uninitialised:
  fixes s :: "'z trace_scheme"
  assumes "os (calls s @ [(C_lib ''alarm'' [V_int 3], os (calls s) (C_lib ''alarm'' [V_int 3]))]) (C_recvfrom (recvfd s) TBUFSIZE 0) = r"
    and "52 \<le> rv r" "length (out_bytes r) = nat (rv r)" "out_bytes r ! 0 = 3" "out_bytes r ! 1 = 0"
    and "get8 6 (drop 8 (out_bytes r)) \<noteq> 17 \<or> get16 48 (out_bytes r) \<noteq> ntohs (sport s)"
    and "\<And>h. rv (os h C_gettimeofday) = 0"
  shows "\<exists>tv t. recv_v6 os uninit seq s = Some (Ret (uninit, Some tv), t)"
proof -
  let ?al = "C_lib ''alarm'' [V_int 3]"
  let ?s1 = "after os ?al (s\<lparr>gotalarm := 0\<rparr>)"
  define buf where "buf = put_bytes 0 (take (nat (rv r)) (out_bytes r)) (recvbuf s)"
  have pre: "take (nat (rv r)) buf = out_bytes r" "nat (rv r) \<le> length buf"
    using assms(3) by (simp_all add: buf_def put_bytes_def)
  have "examine_v6 sp hp buf (rv r) = examine_v6 sp hp (out_bytes r) (rv r)" for sp hp
    by (rule examine_v6_received) (use pre assms(3) in simp_all)
  also have "examine_v6 (sport s) hp (out_bytes r) (rv r) = Stop None" for hp
    using assms(2,4-6) by (auto simp: examine_v6_def get8_def get16_def Let_def)
  finally have stop: "examine_v6 (sport s) hp buf (rv r) = Stop None" for hp .
  have "recv_loop os Trace_v6 seq ?s1 = Some (Ret None, store_packet r (after os (C_recvfrom (recvfd s) TBUFSIZE 0) ?s1))"
    using assms(1,2) stop[of "dport s + word_of_int seq"]
    by (subst recv_loop.simps) (simp add: examine_def store_packet_def flip: buf_def)
  then show ?thesis
    using assms(7) by (simp add: recv_v6_def recv_common_def Gettimeofday_def)
qed

theorem recv_v6_uninitialised_witness: "\<exists>tv t. recv_v6 foreign_os 42 1 trace0 = Some (Ret (42, Some tv), t)"
proof (rule recv_v6_uninitialised)
  let ?r = "ok_bytes (3 # replicate 51 0)"
  show "foreign_os (calls trace0 @ [(C_lib ''alarm'' [V_int 3], foreign_os (calls trace0) (C_lib ''alarm'' [V_int 3]))])
      (C_recvfrom (recvfd trace0) TBUFSIZE 0) = ?r" by (simp add: foreign_os_def)
  show "get8 6 (drop 8 (out_bytes ?r)) \<noteq> 17 \<or> get16 48 (out_bytes ?r) \<noteq> ntohs (sport trace0)"
    by (simp add: get8_def sysret_defs)
qed (simp_all add: sysret_defs foreign_os_def)

section \<open>The probes\<close>

text \<open>The \<open>j\<close>-th probe (from 0) with \<open>np\<close> probes for each time to live.\<close>

definition probe_ok :: "nat \<Rightarrow> u16 \<Rightarrow> byte list \<Rightarrow> nat \<Rightarrow> byte list \<times> sockaddr \<Rightarrow> bool" where
  "probe_ok np dp dst j p \<longleftrightarrow> length (fst p) = rec_size \<and> get16 0 (fst p) = of_nat (j + 1) \<and>
     get16 2 (fst p) = of_nat (j div np + 1) \<and> sa_addr (snd p) = dst \<and> port_field (snd p) = ntohs (dp + of_nat (j + 1))"

definition probes_ok :: "nat \<Rightarrow> u16 \<Rightarrow> byte list \<Rightarrow> (byte list \<times> sockaddr) list \<Rightarrow> bool" where
  "probes_ok np dp dst ps \<longleftrightarrow> (\<forall>j < length ps. probe_ok np dp dst j (ps ! j))"

lemma probes_ok_snoc: "probes_ok np dp dst (ps @ [p]) \<longleftrightarrow> probes_ok np dp dst ps \<and> probe_ok np dp dst (length ps) p"
  by (auto simp: probes_ok_def nth_append less_Suc_eq)

lemma echoed_dgs_sendto: "echoed_dgs [(C_sendto fd bs fl sa n, r)] = (if rv r = int (length bs) then [(bs, sa)] else [])"
  by (simp add: echoed_dgs_def)

lemma echoed_dgs_time: "echoed_dgs ((C_gettimeofday, r) # h) = echoed_dgs h"
  by (simp add: echoed_dgs_def)

text \<open>After \<open>k\<close> probes.\<close>

definition tracing :: "os \<Rightarrow> nat \<Rightarrow> nat \<Rightarrow> u16 \<Rightarrow> u16 \<Rightarrow> byte list \<Rightarrow> nat \<Rightarrow> 'z trace_scheme \<Rightarrow> bool" where
  "tracing os N np sp dp dst k s \<longleftrightarrow> bounded_packets os (recvfd s) N \<and> recvfrom_ok os \<and> nprobes s = np \<and> sport s = sp \<and> dport s = dp \<and>
     tfns (tpr s) = Trace_v4 \<and> length (probebuf s) = TBUFSIZE \<and> inet_sa (sa_family (tsasend (tpr s))) (tsasend (tpr s)) \<and>
     sa_addr (tsasend (tpr s)) = dst \<and> length (echoed_dgs (calls s)) = k \<and>
     probes_ok np dp dst (echoed_dgs (calls s))"

lemma tracing_same: "same s t \<Longrightarrow> tracing os N np sp dp dst k s \<Longrightarrow> tracing os N np sp dp dst k t"
  by (simp add: tracing_def same_def)

lemma set_port_inet:
  assumes "inet_sa (sa_family sa) sa"
  shows "inet_sa (sa_family (sock_set_port sa n q)) (sock_set_port sa n q)" "sa_addr (sock_set_port sa n q) = sa_addr sa"
    "port_field (sock_set_port sa n q) = word_of_int q"
  using assms by (cases sa; auto simp: inet_sa_def)+

lemma probe_packet:
  fixes k m :: nat and tv :: "int \<times> int"
  assumes "length buf = TBUFSIZE"
  defines "b \<equiv> put_time 8 tv (put16 2 (word_of_int (int m + 1)) (put16 0 (word_of_int (int k + 1)) buf))"
  shows "get16 0 (take rec_size b) = of_nat (Suc k)" "get16 2 (take rec_size b) = of_nat (Suc m)"
    "length (take rec_size b) = rec_size" "length b = TBUFSIZE"
proof -
  have w: "(word_of_int (int i + 1) :: u16) = of_nat (Suc i)" for i
    by (metis add.commute of_int_of_nat_eq of_nat_Suc of_int_add of_int_1 of_nat_1)
  show "length (take rec_size b) = rec_size" "length b = TBUFSIZE"
    using assms(1) by (simp_all add: b_def TBUFSIZE_def rec_size_def put_time_def packet_simps)
  show "get16 0 (take rec_size b) = of_nat (Suc k)" "get16 2 (take rec_size b) = of_nat (Suc m)"
    unfolding b_def w using assms(1)
    by (simp_all add: TBUFSIZE_def rec_size_def put_time_def packet_simps take_put_bytes take_put_0 del: of_nat_Suc)
qed

lemma send_probe_wp:
  assumes J: "tracing os N np sp dp dst k s" and ttl: "ttl = int (k div np) + 1"
  shows "wp (send_probe os ttl (int k + 1)) (\<lambda>r t. case r of Ret _ \<Rightarrow> tracing os N np sp dp dst (Suc k) t \<and> recvfd t = recvfd s \<and> set (calls s) \<subseteq> set (calls t)
     | Exit n \<Rightarrow> n = 1 | Abort \<Rightarrow> False) s"
proof -
  have buf: "length (probebuf s) = TBUFSIZE" and sa: "inet_sa (sa_family (tsasend (tpr s))) (tsasend (tpr s))"
    using J by (simp_all add: tracing_def)
  let ?tv = "out_time (os (calls s) C_gettimeofday)"
  let ?b = "put_time 8 ?tv (put16 2 (word_of_int (int (k div np) + 1)) (put16 0 (word_of_int (int k + 1)) (probebuf s)))"
  let ?sa = "sock_set_port (tsasend (tpr s)) (tsalen (tpr s)) (uint (ntohs (dp + word_of_int (int k + 1))))"
  have "probe_ok np dp dst k (take rec_size ?b, ?sa)"
    using J probe_packet[OF buf, of ?tv "k div np" k] set_port_inet[OF sa] by (simp add: probe_ok_def tracing_def ac_simps)
  then show ?thesis
    using J probe_packet(3,4)[OF buf, of ?tv "k div np" k] set_port_inet[OF sa]
    unfolding send_probe_def ttl Gettimeofday_def Sendto_def
    by (simp add: wp_simps tracing_def echoed_dgs_sendto echoed_dgs_time probes_ok_snoc subset_insertI2 del: of_int_add of_int_1)
qed

text \<open>A port-unreachable message quoting one of the first \<open>n\<close> probes was received.\<close>

definition reached :: "int \<Rightarrow> u16 \<Rightarrow> u16 \<Rightarrow> nat \<Rightarrow> hist \<Rightarrow> bool" where
  "reached fd sp dp n h \<longleftrightarrow> (\<exists>j p. 1 \<le> j \<and> j \<le> n \<and> p \<in> set (arrived fd h) \<and> answer sp (dp + of_nat j) p = Some (- 1))"

lemma reached_mono:
  assumes "reached fd sp dp n h" and "set h \<subseteq> set h'" and "n \<le> n'"
  shows "reached fd sp dp n' h'"
proof -
  have "set (arrived fd h) \<subseteq> set (arrived fd h')" using assms(2) by (auto simp: arrived_def)
  then show ?thesis using assms(1,3) unfolding reached_def by (meson order_trans subsetD)
qed

text \<open>After \<open>k\<close> probes, \<open>done\<close> is still 0 unless the destination was reached.\<close>

definition probed :: "os \<Rightarrow> nat \<Rightarrow> nat \<Rightarrow> u16 \<Rightarrow> u16 \<Rightarrow> byte list \<Rightarrow> nat \<Rightarrow> int \<Rightarrow> 'z trace_scheme \<Rightarrow> bool" where
  "probed os N np sp dp dst k dn s \<longleftrightarrow> tracing os N np sp dp dst k s \<and> (dn \<noteq> 0 \<longrightarrow> reached (recvfd s) sp dp k (calls s))"

lemma same_calls: "same s t \<Longrightarrow> set (calls s) \<subseteq> set (calls t)"
  by (auto simp: same_def)

lemma reached_same: "reached (recvfd s) sp dp k (calls s) \<Longrightarrow> same s t \<Longrightarrow> reached (recvfd t) sp dp k (calls t)"
proof -
  assume "reached (recvfd s) sp dp k (calls s)" and st: "same s t"
  then have "reached (recvfd s) sp dp k (calls t)" using reached_mono same_calls by blast
  with st show ?thesis by (simp add: same_def)
qed

lemma probed_same: "probed os N np sp dp dst k dn s \<Longrightarrow> same s t \<Longrightarrow> probed os N np sp dp dst k dn t"
  using tracing_same reached_same by (auto simp: probed_def)

lemma print_host_wp: "wp (print_host os) (\<lambda>r t. case r of Ret _ \<Rightarrow> same s t | Exit n \<Rightarrow> n = 1 | Abort \<Rightarrow> False) s"
  unfolding print_host_def Sock_ntop_host_def
  by (auto simp: wp_simps same_def split: sum.split)

lemma report_answer_wp:
  assumes "probed os N np sp dp dst k dn s" and "code = - 1 \<Longrightarrow> reached (recvfd s) sp dp k (calls s)"
  shows "wp (report_answer os f rtt code dn) (ret_or_exit (probed os N np sp dp dst k)) s"
proof -
  have P: "probed os N np sp dp dst k d t" if "same s t" "d = dn \<or> code = - 1" for d t
    using that assms tracing_same[OF that(1)] reached_same[OF _ that(1)] by (auto simp: probed_def)
  show ?thesis
    unfolding report_answer_def by (simp add: wp_simps) (auto intro!: P intro: same_after same_trans[OF same_after same_after])
qed

lemma common_reached:
  assumes "common_post Trace_v4 uninit (int k + 1) s (Ret (code, tv)) t" and "code = - 1"
  shows "reached (recvfd s) (sport s) (dport s) (Suc k) (calls t)"
proof -
  have w: "(word_of_int (int k + 1) :: u16) = of_nat (Suc k)" by (metis add.commute of_int_of_nat_eq of_nat_Suc of_int_add of_int_1 of_nat_1)
  from common_answered[OF assms(1)] obtain ps where "arrived (recvfd s) (calls t) = arrived (recvfd s) (calls s) @ ps"
    "answered (sport s) (dport s + of_nat (Suc k)) code ps" unfolding w by blast
  then show ?thesis using assms(2) unfolding reached_def answered_def by (intro exI[of _ "Suc k"]) auto
qed

lemma probe_once_wp:
  assumes J: "probed os N np sp dp dst k dn s" and ttl: "ttl = int (k div np) + 1"
  shows "wp (probe_once os uninit ttl (int k + 1) dn) (ret_or_exit (probed os N np sp dp dst (Suc k))) s"
proof -
  have T: "tracing os N np sp dp dst k s" and D: "dn \<noteq> 0 \<Longrightarrow> reached (recvfd s) sp dp k (calls s)" using J by (simp_all add: probed_def)
  show ?thesis
    unfolding probe_once_def
  proof (rule wp_bind_ret[OF send_probe_wp[OF T ttl]], elim conjE)
    fix sent and t :: "'a trace_scheme"
    assume t: "tracing os N np sp dp dst (Suc k) t" "recvfd t = recvfd s" "set (calls s) \<subseteq> set (calls t)"
    have pt: "probed os N np sp dp dst (Suc k) dn t" using t(1,2) reached_mono[OF D t(3)] by (auto simp: probed_def)
    have f: "tfns (tpr t) = Trace_v4" "bounded_packets os (recvfd t) N" "recvfrom_ok os" "sport t = sp" "dport t = dp"
      using t(1) by (simp_all add: tracing_def)
    let ?rest = "\<lambda>(code, tv). cbind (if code = - 3 then cbind (call os (C_lib ''printf'' [V_str '' *''])) (\<lambda>_. creturn dn)
            else cbind (print_host os) (\<lambda>_. report_answer os Trace_v4 (tv_sub (the tv) sent) code dn)) (\<lambda>dn.
        cbind (call os (C_fflush STDOUT)) (\<lambda>_. creturn dn))"
    have rest: "wp (?rest (code, tv)) (ret_or_exit (probed os N np sp dp dst (Suc k))) u"
      if u: "common_post Trace_v4 uninit (int k + 1) t (Ret (code, tv)) u" for code tv and u :: "'a trace_scheme"
    proof -
      have su: "same t u" using u by (simp add: common_post_def)
      have pu: "probed os N np sp dp dst (Suc k) dn u" by (rule probed_same[OF pt su])
      have one: "wp (if code = - 3 then cbind (call os (C_lib ''printf'' [V_str '' *''])) (\<lambda>_. creturn dn)
            else cbind (print_host os) (\<lambda>_. report_answer os Trace_v4 (tv_sub (the tv) sent) code dn))
          (ret_or_exit (probed os N np sp dp dst (Suc k))) u"
      proof (cases "code = - 3")
        case True
        then show ?thesis using probed_same[OF pu same_after] by (simp add: wp_simps)
      next
        case False
        have "wp (cbind (print_host os) (\<lambda>_. report_answer os Trace_v4 (tv_sub (the tv) sent) code dn))
          (ret_or_exit (probed os N np sp dp dst (Suc k))) u"
        proof (rule wp_bind_ret[OF print_host_wp])
          fix v :: "'a trace_scheme"
          assume v: "same u v"
          show "wp (report_answer os Trace_v4 (tv_sub (the tv) sent) code dn) (ret_or_exit (probed os N np sp dp dst (Suc k))) v"
            by (rule report_answer_wp[OF probed_same[OF pu v]])
              (use common_reached[OF u] reached_same[OF _ v] su f in \<open>simp add: same_def\<close>)
        qed
        with False show ?thesis by simp
      qed
      show ?thesis
        unfolding prod.case by (rule wp_bind_ret[OF one]) (simp add: wp_simps probed_same[OF _ same_after])
    qed
    have "wp (cbind (recv_common os Trace_v4 uninit (int k + 1)) ?rest) (ret_or_exit (probed os N np sp dp dst (Suc k))) t"
    proof (rule wp_bindI[OF recv_common_wp[OF f(2,3)]], goal_cases)
      case (1 a u)
      then show ?case using rest[of "fst a" "snd a" u] by simp
    qed (simp_all add: common_post_def)
    then show "wp (cbind (cget (\<lambda>s. tfns (tpr s))) (\<lambda>f. cbind (recv_common os f uninit (int k + 1)) (\<lambda>(code, tv).
       cbind (if code = - 3 then cbind (call os (C_lib ''printf'' [V_str '' *''])) (\<lambda>_. creturn dn)
            else cbind (print_host os) (\<lambda>_. report_answer os f (tv_sub (the tv) sent) code dn)) (\<lambda>dn.
       cbind (call os (C_fflush STDOUT)) (\<lambda>_. creturn dn))))) (ret_or_exit (probed os N np sp dp dst (Suc k))) t"
      by (simp add: wp_bind[of "cget _"] wp_cget f(1))
  qed
qed

lemma probe_loop_wp:
  assumes "probed os N np sp dp dst k dn s" and "0 < np" and "k div np = m" and "k + j \<le> np * Suc m"
  shows "wp (probe_loop os uninit (int m + 1) j (int k) dn)
    (ret_or_exit (\<lambda>(seq, dn) t. seq = int (k + j) \<and> probed os N np sp dp dst (k + j) dn t)) s"
  using assms
proof (induction j arbitrary: k dn s)
  case 0
  then show ?case by (simp only: probe_loop.simps wp_basic) simp
next
  case (Suc j)
  have "wp (probe_once os uninit (int m + 1) (int k + 1) dn) (ret_or_exit (probed os N np sp dp dst (Suc k))) s"
    by (rule probe_once_wp) (use Suc.prems in simp_all)
  then show ?case
    unfolding probe_loop.simps
  proof (rule wp_bind_ret)
    fix dn' and t :: "'a trace_scheme"
    assume t: "probed os N np sp dp dst (Suc k) dn' t"
    show "wp (probe_loop os uninit (int m + 1) j (int k + 1) dn')
        (ret_or_exit (\<lambda>(seq, dn) t. seq = int (k + Suc j) \<and> probed os N np sp dp dst (k + Suc j) dn t)) t"
    proof (cases j)
      case 0
      then show ?thesis using t by (simp only: probe_loop.simps wp_basic) (simp add: 0)
    next
      case (Suc i)
      then have "Suc k < np * Suc m" using Suc.prems(4) by simp
      then have "Suc k div np = m"
        using Suc.prems(2,3) by (metis div_le_mono le_Suc_eq less_mult_imp_div_less lessI less_Suc_eq_le mult.commute order_antisym le_refl)
      moreover have e: "k + Suc j = Suc k + j" "int k + 1 = int (Suc k)" by simp_all
      ultimately show ?thesis unfolding e using Suc.IH[OF t] Suc.prems by simp
    qed
  qed
qed

lemma ttl_round_wp:
  assumes "probed os N np sp dp dst (m * np) dn s" and "0 < np"
  shows "wp (ttl_round os uninit (int m + 1) (int (m * np)) dn)
    (ret_or_exit (\<lambda>(seq, dn) t. seq = int (Suc m * np) \<and> probed os N np sp dp dst (Suc m * np) dn t)) s"
proof -
  let ?c = "C_setsockopt (sendfd s) (ttllevel (tpr s)) (ttloptname (tpr s)) (le_bytes 4 (nat (int m + 1)))"
  let ?s1 = "(after os ?c s)\<lparr>tpr := (tpr s)\<lparr>tsalast := Sockaddr_other 0 (replicate (tsalen (tpr s) - 2) 0)\<rparr>\<rparr>"
  let ?s2 = "after os (C_fflush STDOUT) (after os (C_lib ''printf'' [V_str ''%2d '', V_int (int m + 1)]) ?s1)"
  have s1: "same s ?s1" by (auto simp: same_def)
  have "same s ?s2" by (rule same_trans[OF s1 same_trans[OF same_after same_after]]) simp_all
  then have P: "probed os N np sp dp dst (m * np) dn ?s2" by (rule probed_same[OF assms(1)])
  have np: "nprobes s = np" using assms(1) by (simp add: probed_def tracing_def)
  have "wp (probe_loop os uninit (int m + 1) np (int (m * np)) dn)
    (ret_or_exit (\<lambda>(seq, dn) t. seq = int (m * np + np) \<and> probed os N np sp dp dst (m * np + np) dn t)) ?s2"
    by (rule probe_loop_wp[OF P assms(2)]) (use assms(2) in \<open>simp_all add: mult.commute\<close>)
  then have "wp (cbind (probe_loop os uninit (int m + 1) np (int (m * np)) dn) (\<lambda>p.
      cbind (call os (C_lib ''printf'' [V_str [CHR 0x0A]])) (\<lambda>_. creturn p)))
    (ret_or_exit (\<lambda>(seq, dn) t. seq = int (Suc m * np) \<and> probed os N np sp dp dst (Suc m * np) dn t)) ?s2"
    by (rule wp_bind_ret) (auto simp: wp_simps add.commute intro: probed_same[OF _ same_after])
  then show ?thesis
    unfolding ttl_round_def Setsockopt_def
    by (simp only: wp_bind wp_cget wp_call wp_if wp_basic wp_cupd wp_err outcome.case np) (simp add: np wp_bind wp_basic)
qed

lemma ttl_loop_wp:
  assumes "probed os N np sp dp dst (m * np) dn s" and "0 < np"
  shows "wp (ttl_loop os uninit k (int m + 1) (int (m * np)) dn)
    (ret_or_exit (\<lambda>dn t. \<exists>m'. m' \<le> m + k \<and> probed os N np sp dp dst (m' * np) dn t \<and> (m' = m + k \<or> dn \<noteq> 0))) s"
  using assms
proof (induction k arbitrary: m dn s)
  case 0
  then show ?case by (simp only: ttl_loop.simps wp_basic) auto
next
  case (Suc k)
  show ?case
  proof (cases "dn = 0")
    case False
    then show ?thesis using Suc.prems by (simp only: ttl_loop.simps if_False wp_basic) (auto intro!: exI[of _ m])
  next
    case True
    have "wp (cbind (ttl_round os uninit (int m + 1) (int (m * np)) dn) (\<lambda>(seq, dn). ttl_loop os uninit k (int m + 1 + 1) seq dn))
      (ret_or_exit (\<lambda>dn t. \<exists>m'. m' \<le> m + Suc k \<and> probed os N np sp dp dst (m' * np) dn t \<and> (m' = m + Suc k \<or> dn \<noteq> 0))) s"
    proof (rule wp_bind_ret[OF ttl_round_wp[OF Suc.prems]], clarify)
      fix dn' and t :: "'a trace_scheme"
      assume "probed os N np sp dp dst (Suc m * np) dn' t"
      from Suc.IH[OF this Suc.prems(2)]
      show "wp (ttl_loop os uninit k (int m + 1 + 1) (int (Suc m * np)) dn')
        (ret_or_exit (\<lambda>dn t. \<exists>m'. m' \<le> m + Suc k \<and> probed os N np sp dp dst (m' * np) dn t \<and> (m' = m + Suc k \<or> dn \<noteq> 0))) t"
        unfolding add_Suc_shift[symmetric] by (simp add: add.commute add.left_commute)
    qed
    with True show ?thesis by simp
  qed
qed

definition set_up :: "'z trace_scheme \<Rightarrow> 'z trace_scheme \<Rightarrow> bool" where
  "set_up s t \<longleftrightarrow> nprobes t = nprobes s \<and> dport t = dport s \<and> max_ttl t = max_ttl s \<and> tfns (tpr t) = tfns (tpr s) \<and>
     probebuf t = probebuf s \<and> tsasend (tpr t) = tsasend (tpr s) \<and> echoed_dgs (calls t) = echoed_dgs (calls s)"

lemma set_up_after: "set_up s t \<Longrightarrow> (\<forall>fd bs fl sa n. c \<noteq> C_sendto fd bs fl sa n) \<Longrightarrow> set_up s (after os c t)"
  by (simp add: set_up_def)

lemma trace_start_keeps: "keeps (set_up s) (trace_start os)"
  unfolding trace_start_def Socket_def Bind_def trace_alrm_def
  by (auto intro!: keeps_bind keeps_call keeps_upd keeps_if set_up_after) (auto simp: set_up_def)

lemma trace_start_wp: "wp (trace_start os) (ret_or_exit (\<lambda>_. set_up s)) s"
  using keepsD[OF trace_start_keeps[of s os], of s] by (simp add: set_up_def)

text \<open>
  C10. What traceroute sends and when it stops, for an IPv4 destination: with only finitely many packets arriving,
  \<open>traceloop\<close> ends (or the process exits with status 1). It then sent \<open>nprobes\<close> probes for each time to live from 1 up
  to some number of hops of at most \<open>max_ttl\<close>; the \<open>j\<close>-th probe carries its number and time to live and goes to the
  destination at port \<open>dport + j\<close>; and it stopped before \<open>max_ttl\<close> only after it had received, on \<open>recvfd\<close>, an ICMP port-unreachable
  message quoting a UDP datagram from its own port to the port of one of the probes it sent.
\<close>

theorem traceloop_probes:
  fixes s :: "'z trace_scheme"
  assumes "\<And>fd. bounded_packets os fd N" and "recvfrom_ok os" and "0 < nprobes s" and "tfns (tpr s) = Trace_v4" and "length (probebuf s) = TBUFSIZE"
    and "inet_sa (sa_family (tsasend (tpr s))) (tsasend (tpr s))" and "echoed_dgs (calls s) = []"
  shows "wp (traceloop os uninit) (\<lambda>r t. case r of
      Ret _ \<Rightarrow> (\<exists>hops \<le> nat (max_ttl s). length (echoed_dgs (calls t)) = hops * nprobes s \<and>
        (\<forall>j < hops * nprobes s. probe_ok (nprobes s) (dport s) (sa_addr (tsasend (tpr s))) j (echoed_dgs (calls t) ! j)) \<and>
        (hops < nat (max_ttl s) \<longrightarrow> (\<exists>j p. 1 \<le> j \<and> j \<le> hops * nprobes s \<and> p \<in> set (arrived (recvfd t) (calls t)) \<and>
           answer (sport t) (dport s + of_nat j) p = Some (- 1))))
    | Exit n \<Rightarrow> n = 1 | Abort \<Rightarrow> False) s"
proof -
  let ?dst = "sa_addr (tsasend (tpr s))"
  have "wp (cbind (trace_start os) (\<lambda>_. cbind (cget max_ttl) (\<lambda>m. cbind (ttl_loop os uninit (nat m) 1 0 0) (\<lambda>_. creturn ()))))
    (ret_or_exit (\<lambda>_ t. \<exists>sp m dn. m \<le> nat (max_ttl s) \<and> probed os N (nprobes s) sp (dport s) ?dst (m * nprobes s) dn t \<and>
      (m = nat (max_ttl s) \<or> dn \<noteq> 0))) s"
  proof (rule wp_bind_ret[OF trace_start_wp])
    fix t :: "'z trace_scheme"
    assume t: "set_up s t"
    have "probed os N (nprobes s) (sport t) (dport s) ?dst (0 * nprobes s) 0 t"
      using assms t by (simp add: set_up_def probed_def tracing_def probes_ok_def)
    from ttl_loop_wp[OF this assms(3), of uninit "nat (max_ttl s)"]
    have "wp (ttl_loop os uninit (nat (max_ttl s)) 1 0 0) (ret_or_exit (\<lambda>dn u. \<exists>m \<le> nat (max_ttl s).
        probed os N (nprobes s) (sport t) (dport s) ?dst (m * nprobes s) dn u \<and> (m = nat (max_ttl s) \<or> dn \<noteq> 0))) t" unfolding add_0 by simp
    then have "wp (cbind (ttl_loop os uninit (nat (max_ttl s)) 1 0 0) (\<lambda>_. creturn ()))
      (ret_or_exit (\<lambda>_ t. \<exists>sp m dn. m \<le> nat (max_ttl s) \<and> probed os N (nprobes s) sp (dport s) ?dst (m * nprobes s) dn t \<and>
        (m = nat (max_ttl s) \<or> dn \<noteq> 0))) t"
      by (rule wp_bind_ret) (auto simp: wp_basic)
    with t show "wp (cbind (cget max_ttl) (\<lambda>m. cbind (ttl_loop os uninit (nat m) 1 0 0) (\<lambda>_. creturn ())))
      (ret_or_exit (\<lambda>_ t. \<exists>sp m dn. m \<le> nat (max_ttl s) \<and> probed os N (nprobes s) sp (dport s) ?dst (m * nprobes s) dn t \<and>
        (m = nat (max_ttl s) \<or> dn \<noteq> 0))) t"
      by (simp add: wp_bind[of "cget _"] wp_cget set_up_def)
  qed
  then show ?thesis
    unfolding traceloop_def
  proof (rule wp_mono)
    fix r and t :: "'z trace_scheme"
    assume Q: "ret_or_exit (\<lambda>_ t. \<exists>sp m dn. m \<le> nat (max_ttl s) \<and> probed os N (nprobes s) sp (dport s) ?dst (m * nprobes s) dn t \<and>
      (m = nat (max_ttl s) \<or> dn \<noteq> 0)) r t"
    then show "case r of Ret _ \<Rightarrow> (\<exists>hops \<le> nat (max_ttl s). length (echoed_dgs (calls t)) = hops * nprobes s \<and>
        (\<forall>j < hops * nprobes s. probe_ok (nprobes s) (dport s) ?dst j (echoed_dgs (calls t) ! j)) \<and>
        (hops < nat (max_ttl s) \<longrightarrow> (\<exists>j p. 1 \<le> j \<and> j \<le> hops * nprobes s \<and> p \<in> set (arrived (recvfd t) (calls t)) \<and>
           answer (sport t) (dport s + of_nat j) p = Some (- 1))))
      | Exit n \<Rightarrow> n = 1 | Abort \<Rightarrow> False"
    proof (cases r)
      case (Ret a)
      with Q obtain sp m dn where m: "m \<le> nat (max_ttl s)" "m = nat (max_ttl s) \<or> dn \<noteq> 0"
        and P: "probed os N (nprobes s) sp (dport s) ?dst (m * nprobes s) dn t" by auto
      from P have "sport t = sp" "length (echoed_dgs (calls t)) = m * nprobes s"
        "probes_ok (nprobes s) (dport s) ?dst (echoed_dgs (calls t))" "dn \<noteq> 0 \<longrightarrow> reached (recvfd t) sp (dport s) (m * nprobes s) (calls t)"
        by (simp_all add: probed_def tracing_def)
      with m Ret show ?thesis unfolding reached_def probes_ok_def by (simp only: outcome.case, intro exI[of _ m]) auto
    qed (use Q in simp_all)
  qed
qed

theorem traceloop_probes_witness:
  "wp (traceloop reached_os 0) (\<lambda>r t. case r of
      Ret _ \<Rightarrow> (\<exists>hops \<le> 2. length (echoed_dgs (calls t)) = hops * 1 \<and>
        (\<forall>j < hops * 1. probe_ok 1 33434 [10, 0, 0, 1] j (echoed_dgs (calls t) ! j)) \<and>
        (hops < 2 \<longrightarrow> (\<exists>j p. 1 \<le> j \<and> j \<le> hops * 1 \<and> p \<in> set (arrived (recvfd t) (calls t)) \<and>
           answer (sport t) (33434 + of_nat j) p = Some (- 1))))
    | Exit n \<Rightarrow> n = 1 | Abort \<Rightarrow> False) trace0"
proof -
  have f: "nat (max_ttl trace0) = 2" "nprobes trace0 = 1" "dport trace0 = 33434" "sa_addr (tsasend (tpr trace0)) = [10, 0, 0, 1]"
    by (simp_all add: trace0_def)
  show ?thesis
    by (rule traceloop_probes[of reached_os 1 trace0 0, OF reached_os_bounded reached_os_recv, unfolded f])
      (simp_all add: trace0_def TBUFSIZE_def inet_sa_def echoed_dgs_def)
qed

end
