(* ===== verification/Kernel_Lab.thy ===== *)
theory Kernel_Lab
  imports Inet4
begin

text \<open>
  The kernel module kernel_lab/kernel_lab.c: its static variables, the handlers of
  \<open>/proc/kernel_lab\<close> and the module's entry and exit functions. What the kernel supplies is a parameter: the clock,
  the reader's process and the conversion \<open>jiffies_to_msecs\<close> in \<open>kenv\<close>, and whether copying from
  or to user memory fails. The second part runs the handlers of several tasks in an arbitrary
  interleaving, one memory access at a time.
\<close>

abbreviation (input) ENOMEM :: int where "ENOMEM \<equiv> 12"
abbreviation (input) EFAULT :: int where "EFAULT \<equiv> 14"

section \<open>State\<close>

definition MESSAGE_BUFFER_SIZE :: nat where "MESSAGE_BUFFER_SIZE = 256"

text \<open>A character array is the C string it holds. \<open>kernel_lab_entry\<close> is whether the proc entry exists.\<close>

record klab =
  greeting :: string
  repeat :: int
  last_message :: string
  write_count :: u32
  load_jiffies :: "64 word"
  kernel_lab_entry :: bool

record kenv =
  jiffies :: "64 word"
  real_sec :: int
  reader_pid :: int
  reader_comm :: string
  to_msecs :: "64 word \<Rightarrow> 32 word"

section \<open>Functions of the kernel's string library\<close>

definition cstr :: "string \<Rightarrow> string" where
  "cstr bs = takeWhile (\<lambda>c. c \<noteq> CHR 0x00) bs"

definition kspace :: "char \<Rightarrow> bool" where
  "kspace c \<longleftrightarrow> c \<in> set [CHR 0x20, CHR 0x09, CHR 0x0A, CHR 0x0B, CHR 0x0C, CHR 0x0D, CHR 0xA0]"

text \<open>\<open>strim\<close> cuts trailing white space off the string in place and returns a pointer behind the
  leading white space; the module drops that pointer.\<close>

definition strim :: "string \<Rightarrow> string \<times> nat" where
  "strim str = (let cut = rev (dropWhile kspace (rev str)) in (cut, length (takeWhile kspace cut)))"

definition strscpy :: "nat \<Rightarrow> string \<Rightarrow> string" where
  "strscpy sz src = take (sz - 1) src"

definition scnprintf :: "nat \<Rightarrow> string \<Rightarrow> string" where
  "scnprintf sz str = take (sz - 1) str"

text \<open>\<open>simple_read_from_buffer(to, count, ppos, from, available)\<close>: the result, the bytes copied and the
  new position. \<open>left\<close> is what \<open>copy_to_user\<close> could not copy.\<close>

definition simple_read_from_buffer :: "nat \<Rightarrow> int \<Rightarrow> string \<Rightarrow> nat \<Rightarrow> int \<times> string \<times> int" where
  "simple_read_from_buffer count pos from left =
     (if pos < 0 then (- EINVAL, [], pos)
      else if pos \<ge> int (length from) \<or> count = 0 then (0, [], pos)
      else let n = min count (length from - nat pos) in
           if left = n then (- EFAULT, [], pos)
           else (int (n - left), take (n - left) (drop (nat pos) from), pos + int (n - left)))"

section \<open>Handlers\<close>

definition report :: "kenv \<Rightarrow> klab \<Rightarrow> string" where
  "report env st =
     ''module: kernel_lab'' @ [CHR 0x0A] @
     ''greeting: '' @ greeting st @ [CHR 0x0A] @
     ''repeat: '' @ print_int (repeat st) @ [CHR 0x0A] @
     ''writes: '' @ print_radix 10 (unat (write_count st)) @ [CHR 0x0A] @
     ''last_message: '' @ last_message st @ [CHR 0x0A] @
     ''uptime_ms: '' @ print_radix 10 (unat (to_msecs env (jiffies env - load_jiffies st))) @ [CHR 0x0A] @
     ''reader_pid: '' @ print_int (reader_pid env) @ [CHR 0x0A] @
     ''reader_comm: '' @ reader_comm env @ [CHR 0x0A] @
     ''real_time_sec: '' @ print_int (real_sec env) @ [CHR 0x0A]"

definition kernel_lab_read :: "kenv \<Rightarrow> klab \<Rightarrow> nat \<Rightarrow> int \<Rightarrow> nat \<Rightarrow> int \<times> string \<times> int" where
  "kernel_lab_read env st count position left =
     (let buffer = scnprintf 512 (report env st)
      in simple_read_from_buffer count position buffer left)"

definition kernel_lab_write :: "string \<Rightarrow> bool \<Rightarrow> klab \<Rightarrow> int \<times> klab" where
  "kernel_lab_write user_buffer fault st =
     (let count = length user_buffer;
          copy_length = min count (MESSAGE_BUFFER_SIZE - 1) in
      if fault then (- EFAULT, st)
      else let buffer = fst (strim (cstr (take copy_length user_buffer))) in
           (int count, st\<lparr>last_message := strscpy MESSAGE_BUFFER_SIZE buffer, write_count := write_count st + 1\<rparr>))"

definition kernel_lab_init :: "kenv \<Rightarrow> bool \<Rightarrow> klab \<Rightarrow> int \<times> klab" where
  "kernel_lab_init env created st =
     (let st1 = st\<lparr>load_jiffies := jiffies env, last_message := strscpy MESSAGE_BUFFER_SIZE (greeting st),
                   kernel_lab_entry := created\<rparr>
      in if \<not> created then (- ENOMEM, st1) else (0, st1))"

definition kernel_lab_exit :: "klab \<Rightarrow> klab" where
  "kernel_lab_exit st = st\<lparr>kernel_lab_entry := False\<rparr>"

text \<open>Static initialisers; \<open>greeting\<close> and \<open>repeat\<close> may be overridden by module parameters.\<close>

definition klab_static :: klab where
  "klab_static = \<lparr>greeting = ''hello from kernel_lab'', repeat = 1,
     last_message = ''write something to /proc/kernel_lab'', write_count = 0, load_jiffies = 0,
     kernel_lab_entry = False\<rparr>"

section \<open>Invariant\<close>

text \<open>Both arrays hold a C string that fits them, and \<open>repeat\<close> is an \<open>int\<close>.\<close>

definition fits_buffer :: "string \<Rightarrow> bool" where
  "fits_buffer str \<longleftrightarrow> length str < MESSAGE_BUFFER_SIZE \<and> CHR 0x00 \<notin> set str"

definition int_range :: "int \<Rightarrow> bool" where
  "int_range i \<longleftrightarrow> - (2 ^ 31) \<le> i \<and> i < 2 ^ 31"

definition klab_wf :: "klab \<Rightarrow> bool" where
  "klab_wf st \<longleftrightarrow> fits_buffer (greeting st) \<and> fits_buffer (last_message st) \<and> int_range (repeat st)"

lemma rev_dropWhile_subset: "set (rev (dropWhile P (rev xs))) \<subseteq> set xs"
  using set_dropWhileD by fastforce

lemma length_strim: "length (fst (strim str)) \<le> length str"
  using length_dropWhile_le[of kspace "rev str"] by (simp add: strim_def Let_def)

lemma cstr_no_nul: "CHR 0x00 \<notin> set (cstr bs)"
  by (auto simp: cstr_def dest: set_takeWhileD)

lemma length_cstr: "length (cstr bs) \<le> length bs"
  by (simp add: cstr_def length_takeWhile_le)

text \<open>What a write stores: the first 255 bytes up to a null byte, without trailing white space.\<close>

definition stored :: "string \<Rightarrow> string" where
  "stored user = fst (strim (cstr (take 255 user)))"

lemma stored_fits: "fits_buffer (stored user)"
proof -
  have "length (stored user) \<le> 255"
    using length_strim[of "cstr (take 255 user)"] length_cstr[of "take 255 user"] by (simp add: stored_def)
  moreover have "CHR 0x00 \<notin> set (stored user)"
    using cstr_no_nul[of "take 255 user"] rev_dropWhile_subset[of kspace "cstr (take 255 user)"]
    by (auto simp: stored_def strim_def Let_def)
  ultimately show ?thesis by (simp add: fits_buffer_def MESSAGE_BUFFER_SIZE_def)
qed

lemma take_min_length: "take (min (length xs) n) xs = take n xs"
  by (metis min.commute take_all_iff take_take nle_le)

lemma kernel_lab_write_eq:
  "kernel_lab_write user fault st =
   (if fault then (- EFAULT, st)
    else (int (length user), st\<lparr>last_message := stored user, write_count := write_count st + 1\<rparr>))"
proof -
  have "strscpy MESSAGE_BUFFER_SIZE (stored user) = stored user"
    using stored_fits[of user] by (simp add: strscpy_def fits_buffer_def MESSAGE_BUFFER_SIZE_def)
  then show ?thesis
    by (simp add: kernel_lab_write_def Let_def stored_def MESSAGE_BUFFER_SIZE_def take_min_length)
qed

text \<open>A sequence of operations on a loaded module. A new value of a parameter is refused when it
  does not fit.\<close>

datatype kop = Op_read nat int nat | Op_write string bool | Op_greeting string | Op_repeat int

fun kstep :: "kop \<Rightarrow> klab \<Rightarrow> klab" where
  "kstep (Op_read count pos left) st = st"
| "kstep (Op_write user fault) st = snd (kernel_lab_write user fault st)"
| "kstep (Op_greeting str) st =
     (if length (cstr str) + 1 > MESSAGE_BUFFER_SIZE then st else st\<lparr>greeting := cstr str\<rparr>)"
| "kstep (Op_repeat n) st = (if int_range n then st\<lparr>repeat := n\<rparr> else st)"

fun accepted :: "kop list \<Rightarrow> string list" where
  "accepted [] = []"
| "accepted (Op_write user False # ops) = user # accepted ops"
| "accepted (op # ops) = accepted ops"

lemma cstr_fits: "length (cstr str) + 1 \<le> MESSAGE_BUFFER_SIZE \<Longrightarrow> fits_buffer (cstr str)"
  using cstr_no_nul[of str] by (simp add: fits_buffer_def)

lemma strscpy_fits: "fits_buffer str \<Longrightarrow> strscpy MESSAGE_BUFFER_SIZE str = str"
  by (simp add: strscpy_def fits_buffer_def MESSAGE_BUFFER_SIZE_def)

lemma kstep_wf: "klab_wf st \<Longrightarrow> klab_wf (kstep op st)"
  by (cases op) (auto simp: klab_wf_def kernel_lab_write_eq stored_fits cstr_fits)

lemma run_wf: "klab_wf st \<Longrightarrow> klab_wf (fold kstep ops st)"
  by (induction ops arbitrary: st) (auto intro: kstep_wf)

lemma run_count: "write_count (fold kstep ops st) = write_count st + of_nat (length (accepted ops))"
  by (induction ops arbitrary: st rule: accepted.induct) (auto simp: kernel_lab_write_eq)

lemma run_message:
  "last_message (fold kstep ops st) = last (last_message st # map stored (accepted ops))"
  by (induction ops arbitrary: st rule: accepted.induct) (auto simp: kernel_lab_write_eq)

text \<open>
  C35. After loading the module and any sequence of reads, writes and parameter changes, both message
  buffers hold terminated strings within their 256 bytes, the counter is the number of accepted
  writes modulo 2 to the 32, and the message is the one stored by the last accepted write (the
  greeting before the first).
\<close>

theorem klab_history:
  assumes "fits_buffer (greeting st0)" and "int_range (repeat st0)" and "kernel_lab_init env True st0 = (rc, st1)"
  shows "rc = 0 \<and> klab_wf (fold kstep ops st1) \<and>
    write_count (fold kstep ops st1) = write_count st0 + of_nat (length (accepted ops)) \<and>
    last_message (fold kstep ops st1) = last (greeting st0 # map stored (accepted ops))"
proof -
  have st1: "rc = 0" "st1 = st0\<lparr>load_jiffies := jiffies env, last_message := greeting st0, kernel_lab_entry := True\<rparr>"
    using assms by (auto simp: kernel_lab_init_def Let_def strscpy_fits)
  then have "klab_wf st1" using assms(1,2) by (simp add: klab_wf_def)
  with run_wf have "klab_wf (fold kstep ops st1)" by blast
  with st1 show ?thesis by (simp add: run_count run_message)
qed

theorem klab_history_witness:
  "last_message (fold kstep [Op_write ''one'' False, Op_read 10 0 0, Op_write ''two'' True]
     (snd (kernel_lab_init \<lparr>jiffies = 7, real_sec = 0, reader_pid = 1, reader_comm = ''cat'', to_msecs = (\<lambda>_. 0)\<rparr> True klab_static)))
   = stored ''one''"
  using klab_history[of klab_static "\<lparr>jiffies = 7, real_sec = 0, reader_pid = 1, reader_comm = ''cat'', to_msecs = (\<lambda>_. 0)\<rparr>"
      0 _ "[Op_write ''one'' False, Op_read 10 0 0, Op_write ''two'' True]"]
  by (simp add: klab_static_def fits_buffer_def int_range_def MESSAGE_BUFFER_SIZE_def kernel_lab_init_def Let_def)

section \<open>What is stored\<close>

lemma stored_split:
  obtains ws where "cstr (take 255 user) = stored user @ ws" "\<forall>c\<in>set ws. kspace c"
    "stored user = [] \<or> \<not> kspace (last (stored user))"
proof -
  let ?s = "cstr (take 255 user)"
  let ?ws = "rev (takeWhile kspace (rev ?s))"
  have "rev ?s = takeWhile kspace (rev ?s) @ dropWhile kspace (rev ?s)" by simp
  then have 1: "?s = stored user @ ?ws"
    by (metis rev_append rev_rev_ident stored_def strim_def fst_conv)
  have 2: "\<forall>c\<in>set ?ws. kspace c" by (auto dest: set_takeWhileD)
  have 3: "stored user = [] \<or> \<not> kspace (last (stored user))"
    using hd_dropWhile[of kspace "rev ?s"] by (auto simp: stored_def strim_def Let_def last_rev)
  from that[OF 1 2 3] show thesis .
qed

text \<open>
  An accepted write returns the full count, and stores the longest prefix of the text (its first
  255 bytes, up to a null byte) that does not end in white space: only white space is cut off, and
  white space at the start of the message is kept, because the pointer that \<open>strim\<close> returns is
  not used.
\<close>

theorem kernel_lab_write_stores:
  "\<exists>ws st'. kernel_lab_write user False st = (int (length user), st') \<and>
     cstr (take 255 user) = last_message st' @ ws \<and> list_all kspace ws \<and>
     (last_message st' = [] \<or> \<not> kspace (last (last_message st')) \<and> hd (last_message st') = hd user) \<and>
     write_count st' = write_count st + 1 \<and> greeting st' = greeting st"
proof -
  obtain ws where ws: "cstr (take 255 user) = stored user @ ws" "\<forall>c\<in>set ws. kspace c"
    "stored user = [] \<or> \<not> kspace (last (stored user))" by (rule stored_split)
  have "stored user = [] \<or> hd (stored user) = hd user"
  proof (cases "cstr (take 255 user)")
    case Nil
    then show ?thesis using ws(1) by simp
  next
    case (Cons c cs)
    then have "c = hd user" by (cases user) (auto simp: cstr_def split: if_splits)
    moreover have "stored user = [] \<or> hd (stored user) = c" using Cons ws(1) by (cases "stored user") auto
    ultimately show ?thesis by auto
  qed
  with ws show ?thesis by (auto simp: kernel_lab_write_eq list_all_iff)
qed

section \<open>Reading\<close>

lemma simple_read_ok:
  assumes "0 \<le> pos"
  shows "simple_read_from_buffer count pos from 0 =
     (let str = take count (drop (nat pos) from) in (int (length str), str, pos + int (length str)))"
  using assms by (auto simp: simple_read_from_buffer_def Let_def min_def)

lemma kernel_lab_read_ok:
  assumes "0 \<le> pos"
  shows "kernel_lab_read env st count pos 0 =
     (let str = take count (drop (nat pos) (take 511 (report env st)))
      in (int (length str), str, pos + int (length str)))"
  using simple_read_ok[OF assms] by (simp add: kernel_lab_read_def scnprintf_def)

text \<open>Successive reads with the given counts, as a program that follows the position does.\<close>

fun read_chunks :: "kenv \<Rightarrow> klab \<Rightarrow> nat list \<Rightarrow> int \<Rightarrow> string" where
  "read_chunks env st [] pos = []"
| "read_chunks env st (n # ns) pos =
     (case kernel_lab_read env st n pos 0 of (rc, str, pos') \<Rightarrow> str @ read_chunks env st ns pos')"

lemma read_chunks_eq:
  "0 \<le> pos \<Longrightarrow> read_chunks env st ns pos = take (sum_list ns) (drop (nat pos) (take 511 (report env st)))"
proof (induction ns arbitrary: pos)
  case (Cons n ns)
  let ?d = "drop (nat pos) (take 511 (report env st))"
  have "drop (nat (pos + int (length (take n ?d)))) (take 511 (report env st)) = drop n ?d"
    using Cons.prems by (auto simp: nat_add_distrib min_def add.commute)
  then show ?case
    using Cons by (simp add: kernel_lab_read_ok Let_def take_add del: take_take take_drop drop_take length_take)
qed simp

text \<open>
  Reading in pieces loses and repeats nothing: while the module's state and the clock do not
  change, reads of any sizes from position 0 together give the first bytes of the report, all of
  it (at most 511 bytes) when the sizes add up to 511.
\<close>

theorem kernel_lab_read_chunks:
  "read_chunks env st ns 0 = take (sum_list ns) (take 511 (report env st))"
  by (simp add: read_chunks_eq del: take_take)

definition report_head :: "klab \<Rightarrow> string" where
  "report_head st =
     ''module: kernel_lab'' @ [CHR 0x0A] @ ''greeting: '' @ greeting st @ [CHR 0x0A] @
     ''repeat: '' @ print_int (repeat st) @ [CHR 0x0A] @
     ''writes: '' @ print_radix 10 (unat (write_count st)) @ [CHR 0x0A] @ ''last_message: ''"

lemma length_print_int: "int_range i \<Longrightarrow> 1 \<le> length (print_int i) \<and> length (print_int i) \<le> 11"
proof -
  assume r: "int_range i"
  have "length (print_radix 10 (nat (- i))) \<le> 10" "length (print_radix 10 (nat i)) \<le> 10"
    using r by (auto intro!: length_print_radix simp: int_range_def)
  moreover have "1 \<le> length (print_radix 10 n)" for n
    using print_radix_nonempty[of 10 n] by (cases "print_radix 10 n") auto
  ultimately show ?thesis by (auto simp: print_int_def)
qed

lemma length_print_u32: "1 \<le> length (print_radix 10 (unat (w :: u32))) \<and> length (print_radix 10 (unat w)) \<le> 10"
proof -
  have "unat w < 10 ^ 10" using unsigned_less[where 'a = nat, of w] by simp
  then have "length (print_radix 10 (unat w)) \<le> 10" by (intro length_print_radix) auto
  moreover have "1 \<le> length (print_radix 10 (unat w))"
    using print_radix_nonempty[of 10 "unat w"] by (cases "print_radix 10 (unat w)") auto
  ultimately show ?thesis by simp
qed

lemma length_report_head:
  assumes "klab_wf st"
  shows "64 + length (greeting st) \<le> length (report_head st)" and "length (report_head st) < 511"
  using assms length_print_int[of "repeat st"] length_print_u32[of "write_count st"]
  by (auto simp: klab_wf_def fits_buffer_def report_head_def MESSAGE_BUFFER_SIZE_def)

text \<open>
  The 512-byte buffer is too small for the report: when greeting and message together have more
  than 447 bytes (each may have 255), the text a reader gets ends inside the message, and the lines
  after it (uptime, reader and time) are missing.
\<close>

theorem report_truncated:
  assumes "klab_wf st" and "447 < length (greeting st) + length (last_message st)"
  shows "\<exists>k < length (last_message st).
    kernel_lab_read env st 4096 0 0 = (511, report_head st @ take k (last_message st), 511)"
proof -
  let ?h = "report_head st" and ?k = "511 - length (report_head st)"
  have k: "?k < length (last_message st)" using length_report_head[OF assms(1)] assms(2) by simp
  obtain tail where "report env st = ?h @ last_message st @ tail" by (simp add: report_def report_head_def)
  then have "take 511 (report env st) = ?h @ take ?k (last_message st)"
    using k length_report_head[OF assms(1)] by simp
  moreover have "length (?h @ take ?k (last_message st)) = 511" using k length_report_head[OF assms(1)] by simp
  ultimately have "kernel_lab_read env st 4096 0 0 = (511, ?h @ take ?k (last_message st), 511)"
    using kernel_lab_read_ok[of 0 env st 4096] length_report_head(2)[OF assms(1)] by (simp add: Let_def del: take_take)
  with k show ?thesis by blast
qed

definition sample_env :: kenv where
  "sample_env = \<lparr>jiffies = 7, real_sec = 0, reader_pid = 1, reader_comm = ''cat'', to_msecs = (\<lambda>_. 0)\<rparr>"

definition long_messages :: klab where
  "long_messages = klab_static\<lparr>greeting := replicate 255 CHR ''g'', last_message := replicate 255 CHR ''m''\<rparr>"

theorem report_truncated_witness:
  "\<exists>k < length (last_message long_messages).
    kernel_lab_read sample_env long_messages 4096 0 0 = (511, report_head long_messages @ take k (last_message long_messages), 511)"
  by (rule report_truncated)
    (simp_all add: long_messages_def klab_wf_def fits_buffer_def MESSAGE_BUFFER_SIZE_def int_range_def klab_static_def)

section \<open>Handlers running at the same time\<close>

text \<open>
  The handlers of several tasks run interleaved. Outside the lock a writer has its trimmed text
  in a local buffer; inside, it copies the text into \<open>last_message\<close> one byte at a time, ends it with a
  null byte, and counts. After the unlock it logs \<open>last_message\<close>, which it reads without the
  lock. A reader takes its copy of counter and message inside the lock. \<open>last_message\<close> is now the
  array of its 256 bytes. The list \<open>committed\<close> of the texts counted so far is an auxiliary variable.
\<close>

datatype pc =
    Idle
  | Write_lock string
  | Write_copy string nat
  | Write_count string
  | Write_unlock string
  | Write_log string
  | Read_lock
  | Read_format
  | Read_unlock u32 string
  | Read_done u32 string

record ksys =
  msg_buf :: string
  count :: u32
  lock :: "nat option"
  pcs :: "nat \<Rightarrow> pc"
  committed :: "string list"
  kernel_log :: "string list"

inductive kstep_par :: "ksys \<Rightarrow> ksys \<Rightarrow> bool" where
  write_call: "pcs s t = Idle \<Longrightarrow> kstep_par s (s\<lparr>pcs := (pcs s)(t := Write_lock (stored user))\<rparr>)"
| write_lock: "pcs s t = Write_lock m \<Longrightarrow> lock s = None \<Longrightarrow>
    kstep_par s (s\<lparr>pcs := (pcs s)(t := Write_copy m 0), lock := Some t\<rparr>)"
| write_byte: "pcs s t = Write_copy m i \<Longrightarrow> i < length m \<Longrightarrow>
    kstep_par s (s\<lparr>pcs := (pcs s)(t := Write_copy m (i + 1)), msg_buf := (msg_buf s)[i := m ! i]\<rparr>)"
| write_nul: "pcs s t = Write_copy m i \<Longrightarrow> i = length m \<Longrightarrow>
    kstep_par s (s\<lparr>pcs := (pcs s)(t := Write_count m), msg_buf := (msg_buf s)[i := CHR 0x00]\<rparr>)"
| write_count: "pcs s t = Write_count m \<Longrightarrow>
    kstep_par s (s\<lparr>pcs := (pcs s)(t := Write_unlock m), count := count s + 1, committed := committed s @ [m]\<rparr>)"
| write_unlock: "pcs s t = Write_unlock m \<Longrightarrow>
    kstep_par s (s\<lparr>pcs := (pcs s)(t := Write_log m), lock := None\<rparr>)"
| write_log: "pcs s t = Write_log m \<Longrightarrow>
    kstep_par s (s\<lparr>pcs := (pcs s)(t := Idle), kernel_log := kernel_log s @ [cstr (msg_buf s)]\<rparr>)"
| read_call: "pcs s t = Idle \<Longrightarrow> kstep_par s (s\<lparr>pcs := (pcs s)(t := Read_lock)\<rparr>)"
| read_lock: "pcs s t = Read_lock \<Longrightarrow> lock s = None \<Longrightarrow>
    kstep_par s (s\<lparr>pcs := (pcs s)(t := Read_format), lock := Some t\<rparr>)"
| read_format: "pcs s t = Read_format \<Longrightarrow>
    kstep_par s (s\<lparr>pcs := (pcs s)(t := Read_unlock (count s) (cstr (msg_buf s)))\<rparr>)"
| read_unlock: "pcs s t = Read_unlock n m \<Longrightarrow>
    kstep_par s (s\<lparr>pcs := (pcs s)(t := Read_done n m), lock := None\<rparr>)"
| read_return: "pcs s t = Read_done n m \<Longrightarrow> kstep_par s (s\<lparr>pcs := (pcs s)(t := Idle)\<rparr>)"

inductive kreach :: "string \<Rightarrow> ksys \<Rightarrow> bool" for init where
  start: "length buf = 256 \<Longrightarrow> cstr buf = init \<Longrightarrow>
    kreach init \<lparr>msg_buf = buf, count = 0, lock = None, pcs = (\<lambda>_. Idle), committed = [], kernel_log = []\<rparr>"
| step: "kreach init s \<Longrightarrow> kstep_par s s' \<Longrightarrow> kreach init s'"

fun in_lock :: "pc \<Rightarrow> bool" where
  "in_lock (Write_copy m i) = True"
| "in_lock (Write_count m) = True"
| "in_lock (Write_unlock m) = True"
| "in_lock Read_format = True"
| "in_lock (Read_unlock n m) = True"
| "in_lock p = False"

text \<open>The message after \<open>k\<close> writes.\<close>

definition version :: "string \<Rightarrow> string list \<Rightarrow> nat \<Rightarrow> string" where
  "version init done k = (init # done) ! k"

text \<open>What a task knows: of its own buffer, and of the shared message when it is inside the lock.\<close>

fun pc_ok :: "string \<Rightarrow> ksys \<Rightarrow> pc \<Rightarrow> bool" where
  "pc_ok init s (Write_lock m) = fits_buffer m"
| "pc_ok init s (Write_copy m i) = (fits_buffer m \<and> i \<le> length m \<and> take i (msg_buf s) = take i m)"
| "pc_ok init s (Write_count m) = (fits_buffer m \<and> cstr (msg_buf s) = m)"
| "pc_ok init s (Write_unlock m) = (cstr (msg_buf s) = last (init # committed s))"
| "pc_ok init s Read_format = (cstr (msg_buf s) = last (init # committed s))"
| "pc_ok init s (Read_unlock n m) = (cstr (msg_buf s) = last (init # committed s) \<and>
     (\<exists>k \<le> length (committed s). n = of_nat k \<and> m = version init (committed s) k))"
| "pc_ok init s (Read_done n m) = (\<exists>k \<le> length (committed s). n = of_nat k \<and> m = version init (committed s) k)"
| "pc_ok init s p = True"

definition kinv :: "string \<Rightarrow> ksys \<Rightarrow> bool" where
  "kinv init s \<longleftrightarrow> length (msg_buf s) = 256 \<and> count s = of_nat (length (committed s)) \<and>
     (\<forall>t. in_lock (pcs s t) \<longleftrightarrow> lock s = Some t) \<and>
     (lock s = None \<longrightarrow> cstr (msg_buf s) = last (init # committed s)) \<and>
     (\<forall>t. pc_ok init s (pcs s t))"

lemma version_append: "k \<le> length done \<Longrightarrow> version init (done @ xs) k = version init done k"
  by (simp add: version_def nth_append flip: append_Cons)

lemma version_last: "version init done (length done) = last (init # done)"
  by (simp add: version_def last_conv_nth)

lemma pc_ok_outside:
  assumes "pc_ok init s p" and "\<not> in_lock p" and "committed s' = committed s @ xs"
  shows "pc_ok init s' p"
proof (cases p)
  case (Read_done n m)
  then obtain k where "k \<le> length (committed s)" "n = of_nat k" "m = version init (committed s) k" using assms by auto
  then show ?thesis using Read_done assms(3) by (auto simp: version_append intro!: exI[of _ k])
qed (use assms in auto)

lemma pc_ok_unchanged:
  assumes "msg_buf s' = msg_buf s" and "committed s' = committed s"
  shows "pc_ok init s' p = pc_ok init s p"
  using assms by (cases p) auto

lemma kinv_after:
  assumes inv: "kinv init s" and pcs: "pcs s' = (pcs s)(t := p')" and cmt: "committed s' = committed s @ xs"
    and len: "length (msg_buf s') = 256" and cnt: "count s' = of_nat (length (committed s'))"
    and mem: "msg_buf s' = msg_buf s \<and> xs = [] \<or> lock s = Some t"
    and lck: "lock s' = lock s \<and> in_lock p' = in_lock (pcs s t) \<or> lock s = None \<and> lock s' = Some t \<and> in_lock p' \<or>
              lock s = Some t \<and> lock s' = None \<and> \<not> in_lock p'"
    and okp: "pc_ok init s' p'" and free: "lock s' = None \<Longrightarrow> cstr (msg_buf s') = last (init # committed s')"
  shows "kinv init s'"
proof -
  have lk: "in_lock (pcs s u) \<longleftrightarrow> lock s = Some u" and ok: "pc_ok init s (pcs s u)" for u
    using inv by (auto simp: kinv_def)
  have "in_lock (pcs s' u) \<longleftrightarrow> lock s' = Some u" for u
    using lck lk[of u] lk[of t] by (auto simp: pcs)
  moreover have "pc_ok init s' (pcs s' u)" for u
  proof (cases "u = t")
    case False
    then show ?thesis
      using mem ok[of u] lk[of u] pc_ok_outside[OF _ _ cmt] pc_ok_unchanged[of s' s] cmt by (auto simp: pcs)
  qed (simp add: pcs okp)
  ultimately show ?thesis using len cnt free by (simp add: kinv_def)
qed

lemma cstr_terminated: "CHR 0x00 \<notin> set m \<Longrightarrow> cstr (m @ CHR 0x00 # rest) = m"
  by (induction m) (auto simp: cstr_def)

lemma copy_byte:
  assumes "i < length m" and "length m < 256" and "length buf = 256" and "take i buf = take i m"
  shows "take (i + 1) (buf[i := m ! i]) = take (i + 1) m"
  using assms by (simp add: take_Suc_conv_app_nth)

lemma copy_end:
  assumes "fits_buffer m" and "length buf = 256" and "take (length m) buf = m"
  shows "cstr (buf[length m := CHR 0x00]) = m"
proof -
  have "buf[length m := CHR 0x00] = m @ CHR 0x00 # drop (Suc (length m)) buf"
    using assms by (simp add: upd_conv_take_nth_drop fits_buffer_def MESSAGE_BUFFER_SIZE_def)
  then show ?thesis using assms(1) by (simp add: cstr_terminated fits_buffer_def)
qed

lemma kinv_facts:
  assumes "kinv init s"
  shows "length (msg_buf s) = 256" "count s = of_nat (length (committed s))"
    "in_lock (pcs s t) \<longleftrightarrow> lock s = Some t" "lock s = None \<Longrightarrow> cstr (msg_buf s) = last (init # committed s)"
    "pc_ok init s (pcs s t)"
  using assms by (auto simp: kinv_def)

lemma kinv_step:
  assumes "kstep_par s s'" and inv: "kinv init s"
  shows "kinv init s'"
  using assms(1)
proof cases
  case (write_call t user)
  then show ?thesis using kinv_facts[OF inv] stored_fits by (intro kinv_after[OF inv, of _ t _ "[]"]) auto
next
  case (write_lock t m)
  then show ?thesis using kinv_facts[OF inv] kinv_facts(5)[OF inv, of t] by (intro kinv_after[OF inv, of _ t _ "[]"]) auto
next
  case (write_byte t m i)
  then show ?thesis
    using kinv_facts[OF inv] kinv_facts(3,5)[OF inv, of t] copy_byte[of i m "msg_buf s"]
    by (intro kinv_after[OF inv, of _ t _ "[]"]) (auto simp: fits_buffer_def MESSAGE_BUFFER_SIZE_def)
next
  case (write_nul t m i)
  then show ?thesis
    using kinv_facts[OF inv] kinv_facts(3,5)[OF inv, of t] copy_end[of m "msg_buf s"]
    by (intro kinv_after[OF inv, of _ t _ "[]"]) auto
next
  case (write_count t m)
  then show ?thesis
    using kinv_facts[OF inv] kinv_facts(3,5)[OF inv, of t] by (intro kinv_after[OF inv, of _ t _ "[m]"]) auto
next
  case (write_unlock t m)
  then show ?thesis
    using kinv_facts[OF inv] kinv_facts(3,5)[OF inv, of t] by (intro kinv_after[OF inv, of _ t _ "[]"]) auto
next
  case (write_log t m)
  then show ?thesis using kinv_facts[OF inv] by (intro kinv_after[OF inv, of _ t _ "[]"]) auto
next
  case (read_call t)
  then show ?thesis using kinv_facts[OF inv] by (intro kinv_after[OF inv, of _ t _ "[]"]) auto
next
  case (read_lock t)
  then show ?thesis using kinv_facts[OF inv] by (intro kinv_after[OF inv, of _ t _ "[]"]) auto
next
  case (read_format t)
  then show ?thesis
    using kinv_facts[OF inv] kinv_facts(3,5)[OF inv, of t] version_last[of init "committed s"]
    by (intro kinv_after[OF inv, of _ t _ "[]"]) (auto intro!: exI[of _ "length (committed s)"])
next
  case (read_unlock t n m)
  then show ?thesis
    using kinv_facts[OF inv] kinv_facts(3,5)[OF inv, of t] by (intro kinv_after[OF inv, of _ t _ "[]"]) auto
next
  case (read_return t n m)
  then show ?thesis using kinv_facts[OF inv] by (intro kinv_after[OF inv, of _ t _ "[]"]) auto
qed

lemma kreach_inv: "kreach init s \<Longrightarrow> kinv init s"
proof (induction rule: kreach.induct)
  case (start buf)
  then show ?case by (simp add: kinv_def)
next
  case (step s s')
  then show ?case using kinv_step by blast
qed

text \<open>
  C4. Under any interleaving of any number of reads and writes, at most one task is inside the lock,
  the counter is the number of finished updates (modulo 2 to the 32), and the pair of counter and message that
  a reader reports is the state after some finished update: never a mixture of two messages and never
  a counter that does not belong to the message.
\<close>

theorem klab_snapshot_atomic:
  assumes "kreach init s"
  shows "(in_lock (pcs s t) \<and> in_lock (pcs s u) \<longrightarrow> t = u) \<and> count s = of_nat (length (committed s)) \<and>
    (pcs s t = Read_done n m \<longrightarrow>
       (\<exists>k \<le> length (committed s). n = of_nat k \<and> m = (init # committed s) ! k))"
  using kinv_facts(2,3)[OF kreach_inv[OF assms]] kinv_facts(5)[OF kreach_inv[OF assms], of t]
  by (auto simp: version_def)

text \<open>Two tasks: a run of the step relation written as a chain of states.\<close>

definition two_tasks :: "string \<Rightarrow> u32 \<Rightarrow> nat option \<Rightarrow> pc \<Rightarrow> pc \<Rightarrow> string list \<Rightarrow> string list \<Rightarrow> ksys" where
  "two_tasks buf n l p0 p1 cs lg = \<lparr>msg_buf = buf, count = n, lock = l,
     pcs = (\<lambda>t. if t = 0 then p0 else if t = 1 then p1 else Idle), committed = cs, kernel_log = lg\<rparr>"

lemma two_tasks_start: "length buf = 256 \<Longrightarrow> kreach (cstr buf) (two_tasks buf 0 None Idle Idle [] [])"
proof -
  assume "length buf = 256"
  moreover have "(\<lambda>t. if t = 0 then Idle else if t = 1 then Idle else Idle) = (\<lambda>_ :: nat. Idle)" by auto
  ultimately show ?thesis using kreach.start[of buf "cstr buf"] by (simp only: two_tasks_def)
qed

lemma two_tasks_upd:
  "(\<lambda>t. if t = 0 then p0 else if t = 1 then p1 else Idle)(0 := p) = (\<lambda>t. if t = 0 then p else if t = 1 then p1 else Idle)"
  "(\<lambda>t. if t = 0 then p0 else if t = 1 then p1 else Idle)(Suc 0 := p) = (\<lambda>t. if t = 0 then p0 else if t = 1 then p else Idle)"
  for p :: pc
  by (auto simp: fun_eq_iff)

lemma reach_by: "kreach init s \<Longrightarrow> kstep_par s s'' \<Longrightarrow> s'' = s' \<Longrightarrow> kreach init s'"
  using kreach.step by metis

lemmas two_tasks_simps = two_tasks_def two_tasks_upd numeral_2_eq_2

lemma read_run:
  assumes "kreach init (two_tasks buf n None Idle p1 cs lg)"
  shows "kreach init (two_tasks buf n None (Read_done n (cstr buf)) p1 cs lg)"
proof -
  have "kreach init (two_tasks buf n None Read_lock p1 cs lg)"
    by (rule reach_by[OF assms kstep_par.read_call[where t = 0]]) (simp_all add: two_tasks_simps)
  then have "kreach init (two_tasks buf n (Some 0) Read_format p1 cs lg)"
    by (rule reach_by[OF _ kstep_par.read_lock[where t = 0]]) (simp_all add: two_tasks_simps)
  then have "kreach init (two_tasks buf n (Some 0) (Read_unlock n (cstr buf)) p1 cs lg)"
    by (rule reach_by[OF _ kstep_par.read_format[where t = 0]]) (simp_all add: two_tasks_simps)
  then show ?thesis
    by (rule reach_by[OF _ kstep_par.read_unlock[where t = 0]]) (simp_all add: two_tasks_simps)
qed

theorem klab_snapshot_atomic_witness:
  "\<exists>s. kreach (cstr (replicate 256 CHR 0x00)) s \<and> pcs s 0 = Read_done 0 [] \<and>
     (\<exists>k \<le> length (committed s). (0 :: u32) = of_nat k \<and> [] = (cstr (replicate 256 CHR 0x00) # committed s) ! k)"
proof -
  let ?buf = "replicate 256 CHR 0x00" and ?s = "two_tasks (replicate 256 CHR 0x00) 0 None (Read_done 0 []) Idle [] []"
  have c: "cstr ?buf = []" by (simp add: cstr_def numeral_eq_Suc)
  have "kreach (cstr ?buf) (two_tasks ?buf 0 None Idle Idle [] [])" by (rule two_tasks_start) simp
  from read_run[OF this] have r: "kreach (cstr ?buf) ?s" by (simp only: c)
  moreover have "pcs ?s 0 = Read_done 0 []" by (simp add: two_tasks_def)
  ultimately show ?thesis using klab_snapshot_atomic[OF r, of 0 0 0 "[]"] by blast
qed

end
