(* ===== verification/Spec2Isabelle.thy ===== *)
theory Spec2Isabelle
  imports Gai_Result Relay_Select Web_Fetch Pool Prefork Readline Sock_Util Echo Ping Trace Sigio Kernel_Lab
begin

text \<open>
  Verification of the C code of this repository: the network programming library under src/unpv13e (lib, libfree,
  libgai), programs built on it, and the kernel module src/kernel_lab. Paths below are relative to src/unpv13e.

  \<^bold>\<open>How the program is put together.\<close> lib/error.c reports errors and ends the process; the capitalised wrappers of
  lib/wrap*.c make one call each and use it on failure. On them rest byte-stream and line input and output
  (lib/readn.c, writen.c, readline.c), the conversion and printing of addresses (libfree/inet_*.c, lib/sock_*.c), the
  functions that set up sockets (lib/tcp_connect.c, tcp_listen.c, udp_*.c, connect_*.c) and getaddrinfo itself
  (libgai). The programs combine these: echo clients and servers, ping, traceroute, relaying clients, a server
  around \<open>select\<close>, a web client with several connections, servers with a pool of threads or of processes, a server
  driven by signals. The kernel module is separate.

  \<^bold>\<open>Effects and environment.\<close> Prelude has the effect type \<open>cprog\<close>: a function of the state that returns, exits,
  aborts, or has no result, which is a loop that never ends. Unbounded loops are \<open>partial_function (option)\<close>; there is
  no fuel anywhere, and a theorem that a function ends says so through \<open>wp\<close>, which is total correctness. Posix has the
  calls of the operating system and the C library. They are one parameter \<open>os\<close>, a function from the history of calls
  and the next call to its result, so every behaviour of kernel, peers and scheduling is some \<open>os\<close>. What a theorem
  needs of it is a named hypothesis that states documented behaviour: \<open>read_ok\<close>, \<open>write_ok\<close>, \<open>recvfrom_ok\<close>,
  \<open>accept_ok\<close>, \<open>fresh_ok\<close> (a new descriptor is not open), \<open>select_ok\<close>, \<open>select_counts\<close>, \<open>ready_ok\<close>, \<open>lookup_ok\<close>, \<open>fair\<close> (a call
  is not interrupted for ever), \<open>bounded_input\<close> and \<open>bounded_total\<close> (peers send finitely many bytes). Every such
  theorem has a witness with a concrete environment. The state of a process is \<open>errno\<close>, \<open>daemon_proc\<close> and the history;
  static variables of a component extend the record. What was read, written or opened is read off the history
  (\<open>received\<close>, \<open>written\<close>, \<open>open_fds\<close>).

  \<^bold>\<open>Theories, sources and what is shown.\<close>

  \<^item> Err_Lib: lib/error.c. The text, the order of the calls and the outcome of each function.
  \<^item> Wrappers: lib/wrapunix.c, wrapsock.c, wrapstdio.c, wrappthread.c. A wrapper returns if and only if its call
    succeeded; \<open>Accept\<close> hides aborted connections and nothing else.
  \<^item> Stream_IO: lib/readn.c, writen.c. Everything is moved once and in order under every mix of short transfers and
    interruptions, and the functions end. The locale \<open>hist_bytes\<close> is the interface to histories.
  \<^item> Readline: lib/readline.c, server/readline_r.c, threads/readline.c. The line and the buffer together are what was
    read; threads do not share buffers; the counts returned for long lines are one too large.
  \<^item> Inet4, Inet6: libfree/inet_pton.c, inet_ntop.c, inet_aton.c and the IPv4-only versions. Round trips, equivalence of
    the parser with a reference grammar, buffer sizes, and the texts accepted beyond the grammar.
  \<^item> Sock_Addr: lib/sock_*.c, sockfd_to_family.c, family_to_level.c. The printed form determines the address.
  \<^item> Sock_Util: lib/host_serv.c, tcp_connect.c, tcp_listen.c, udp_client.c, udp_connect.c, udp_server.c, connect_nonb.c,
    connect_timeo.c, readable_timeo.c, writable_timeo.c, signal.c. The first address that works is used and no socket
    is left open; what \<open>connect_nonb\<close> leaves of the descriptor for each kind of failure.
  \<^item> Echo: lib/str_echo.c, str_cli.c, dg_echo.c, dg_cli.c, daemon_init.c, daemon_inetd.c, read_fd.c, write_fd.c, tv_sub.c,
    gf_time.c, my_addrs.c. What is echoed is what was received. For \<open>daemon_init\<close> the history is
    replayed as sessions, terminals and descriptors (\<open>replay\<close>): the process that returns 0 is detached.
  \<^item> Gai, Gai_Memory, Gai_Result: libgai/*.c. Memory handed out is freed or returned, results fit their family and
    hints, numeric names survive the way there and back.
  \<^item> Packet, Ping, Trace: libfree/in_cksum.c, ping/*.c, traceroute/*.c. The checksum of a packet with its checksum filled in verifies; requests are
    well formed and a reply to one is reported; probes carry rising sequence numbers; only received bytes of a packet
    are examined. \<open>answer\<close> is the meaning of a packet by the formats of IP, ICMP and UDP, and \<open>recv_v4\<close> returns the first
    answer received; where \<open>recv_v6\<close> returns an unassigned variable.
  \<^item> Sigio: sigio/dgecho01.c as a step relation with the signal handler running wherever the signal is not blocked.
    Every datagram is answered once and in order. The locale \<open>fifo\<close> is the contract of the ring of \<open>QSIZE\<close> = 8 buffers.
  \<^item> Pool: server/serv08.c and pthread08.c as a step relation of all threads. The ring of \<open>MAXNCLI\<close> = 32 descriptors is
    another \<open>fifo\<close>; every connection is handled once, none is overwritten, no wake-up is lost, and the whole is a
    refinement of a queue (\<open>queue_step\<close>).
  \<^item> Prefork: server/serv05.c and child05.c as a step relation of the parent and its children. Every
    connection goes to one child and no child that is well is overloaded. The count of available children is right
    until a child fails; the message it then writes to its standard error, which is the pipe, is counted as available
    children.
  \<^item> Relay, Relay_Select: nonblock/strclinonb.c and select/strcliselect02.c. Both directions are relayed without loss or
    reordering (the locale \<open>byte_queue\<close> is the buffer's contract) and the function ends; the one case in which the
    nonblocking client loses bytes. The locale \<open>exit_safe\<close> carries what holds when the process exits midway.
  \<^item> Select_Server: tcpcliserv/tcpservselect01.c. After any number of passes every client got back what it sent, the
    open descriptors are those of the table, every ready client is served once; the table of \<open>FD_SETSIZE\<close> = 1024
    entries cannot be full while the descriptors fit an \<open>fd_set\<close>.
  \<^item> Web, Web_Fetch: nonblock/web.c, home_page.c, start_connect.c, write_get_cmd.c. The counters and descriptor sets agree
    with the states of the files, the loop ends, every file is requested once, no socket is left, and the limit on
    connections is kept at every moment; what is on the wire for a request that does not fit its buffer.
  \<^item> Kernel_Lab: kernel_lab/kernel_lab.c. Handlers, entry and exit, and all interleavings of readers and writers: the
    counter and message shown belong together. The steps copy a message byte by byte and read it for the log at once,
    which is finer than \<open>strscpy\<close> and enough for these safety statements.

  \<^bold>\<open>Correspondence.\<close> A C function is a definition of the same name, a struct or a group of static variables a record, a
  loop a recursive function of its own. Machine integers are words where the code depends on their width (addresses,
  ports, checksums, sequence numbers) and unbounded where it cannot reach the limits. Buffers keep their size:
  \<open>MAXLINE\<close> is 4096, \<open>QSIZE\<close> 8, \<open>MAXNCLI\<close> 32, \<open>MAXFILES\<close> 20. A read outside what was filled is a parameter (\<open>uninit\<close>,
  \<open>stack\<close>). Calls block in the real program; in the model a call has a result, so statements about ending say that the
  process does not loop, given that its calls return.

  \<^bold>\<open>Not modelled.\<close> lib/rtt.c and rtt (floating-point estimators and \<open>siglongjmp\<close>); multicast, interface and routing helpers
  (buffers whose layout is the kernel's); ping/bsdping.c, libfree/getaddrinfo.c, libgai/old and sock (separate or
  superseded programs with their own copies of the library); sctp, key, streams, udpcksum (APIs that are not in the
  repository); demonstration programs that call the modelled functions and print (names, intro, advio, bcast, mcast,
  oob, unixdomain, udpcliserv, tcpcliserv, inetd, sockopt, ipopts, threads, the other servers and tests); icmpd; of
  server/serv05.c and serv08.c the start-up and the handler of \<open>SIGINT\<close>; of traceroute an alarm between the test of \<open>gotalarm\<close> and
  \<open>recvfrom\<close>; the C++ exercises.
\<close>

end
